(* ===== verification/Prelude.thy ===== *)
theory Prelude
  imports Main "HOL-Library.Word" "HOL-Library.Multiset"
begin

text \<open>
  Shared base of the development: the integer types of \<^verbatim>\<open>src/src/dtypes.hpp\<close>,
  the ways an operation of the program can fail, the result type every fallible
  operation returns, and generic facts on lists, bytes and words.

  A C++ operation that can fail is a function into \<^verbatim>\<open>'a result\<close>.
  The faults are kept apart, because they are different events of the program:
  \<^item> \<^verbatim>\<open>FailFast\<close>: \<^verbatim>\<open>gsl::fail_fast_assert\<close> or \<^verbatim>\<open>assert\<close> failed, the process ends;
  \<^item> \<^verbatim>\<open>Undefined\<close>: the code runs into undefined behaviour (a read outside the array
    object, a signed overflow, a shift by a count out of range);
  \<^item> \<^verbatim>\<open>LengthError\<close>: a container throws \<^verbatim>\<open>std::length_error\<close>;
  \<^item> \<^verbatim>\<open>NarrowingError\<close>: \<^verbatim>\<open>gsl::narrow\<close> throws \<^verbatim>\<open>narrowing_error\<close>;
  \<^item> \<^verbatim>\<open>Diverges\<close>: a loop of the code would not end.
\<close>

unbundle bit_operations_syntax

type_synonym ubyte = "8 word"
type_synonym ushort = "16 word"
type_synonym uint = "32 word"
type_synonym ulong = "64 word"

section \<open>Results\<close>

datatype fault = FailFast | Undefined | LengthError | NarrowingError | Diverges

type_synonym 'a result = "fault + 'a"

definition bindE :: "'a result \<Rightarrow> ('a \<Rightarrow> 'b result) \<Rightarrow> 'b result" where
  "bindE r f = (case r of Inl e \<Rightarrow> Inl e | Inr x \<Rightarrow> f x)"

lemma bindE_Inl [simp]: "bindE (Inl e) f = Inl e"
  by (simp add: bindE_def)

lemma bindE_Inr [simp]: "bindE (Inr x) f = f x"
  by (simp add: bindE_def)

lemma bindE_cong [fundef_cong]:
  "r = r' \<Longrightarrow> (\<And>x. r' = Inr x \<Longrightarrow> f x = g x) \<Longrightarrow> bindE r f = bindE r' g"
  by (cases r') (simp_all add: bindE_def)

text \<open>
  What is known when an operation has returned: its steps have. The operations of the components
  add to this collection.
\<close>

named_theorems returned

lemma bindE_eq_Inr [returned]: "bindE r f = Inr y \<longleftrightarrow> (\<exists>x. r = Inr x \<and> f x = Inr y)"
  by (cases r) simp_all

lemma bindE_eq_Inl: "bindE r f = Inl e \<longleftrightarrow> r = Inl e \<or> (\<exists>x. r = Inr x \<and> f x = Inl e)"
  by (cases r) auto

lemma bindE_assoc: "bindE (bindE r f) g = bindE r (\<lambda>x. bindE (f x) g)"
  by (cases r) simp_all

text \<open>
  What can go wrong in an operation that throws no exception and comes to an end: an assertion
  fails, or its behaviour is undefined.
\<close>

definition no_throw :: "'a result \<Rightarrow> bool" where
  "no_throw r = (case r of Inl e \<Rightarrow> e = FailFast \<or> e = Undefined | Inr _ \<Rightarrow> True)"

lemma no_throw_simps [simp]:
  "no_throw (Inr x)" "no_throw (Inl e) \<longleftrightarrow> e = FailFast \<or> e = Undefined"
  by (simp_all add: no_throw_def)

lemma no_throw_bindE: "no_throw (bindE r f) \<longleftrightarrow> no_throw r \<and> (\<forall>x. r = Inr x \<longrightarrow> no_throw (f x))"
  by (cases r) simp_all

lemma no_throw_Diverges: "no_throw r \<Longrightarrow> r \<noteq> Inl Diverges"
  by auto

section \<open>Containers\<close>

text \<open>\<^verbatim>\<open>resize(n)\<close> of \<^verbatim>\<open>std::vector\<close> and \<^verbatim>\<open>std::string\<close>: cut, or pad with the default value.\<close>

definition resize :: "'a \<Rightarrow> 'a list \<Rightarrow> nat \<Rightarrow> 'a list" where
  "resize d xs n = take n xs @ replicate (n - length xs) d"

lemma length_resize [simp]: "length (resize d xs n) = n"
  by (simp add: resize_def)

lemma resize_same [simp]: "resize d xs (length xs) = xs"
  by (simp add: resize_def)

lemma resize_Nil [simp]: "resize d [] n = replicate n d"
  by (simp add: resize_def)

lemma resize_cut: "n \<le> length xs \<Longrightarrow> resize d xs n = take n xs"
  by (simp add: resize_def)

section \<open>Characters and bytes\<close>

text \<open>A \<^verbatim>\<open>char\<close> of a \<^verbatim>\<open>std::string\<close> and the byte that \<^verbatim>\<open>grainReinterpret\<close> sees.\<close>

definition byte_of_char :: "char \<Rightarrow> ubyte" where
  "byte_of_char c = word_of_nat (of_char c)"

definition char_of_byte :: "ubyte \<Rightarrow> char" where
  "char_of_byte b = char_of (unat b)"

lemma char_of_byte_inverse [simp]: "char_of_byte (byte_of_char c) = c"
proof -
  have "of_char c < (256 :: nat)" by simp
  then have "unat (word_of_nat (of_char c) :: ubyte) = of_char c"
    by (simp add: unat_of_nat)
  then show ?thesis by (simp add: char_of_byte_def byte_of_char_def)
qed

lemma byte_of_char_inverse [simp]: "byte_of_char (char_of_byte b) = b"
proof -
  have "unat b < 256" using unsigned_less [of b] by simp
  then have "of_char (char_of (unat b) :: char) = unat b" by simp
  then show ?thesis by (simp add: char_of_byte_def byte_of_char_def)
qed

lemma map_char_byte [simp]: "map char_of_byte (map byte_of_char s) = s"
  by (simp add: comp_def)

section \<open>Words\<close>

lemma unat_ubyte_less: "unat (b :: ubyte) < 256"
  using unsigned_less [of b] by simp

lemma uint_ubyte_bounds: "0 \<le> Word.uint (b :: ubyte) \<and> Word.uint b < 256"
  using unsigned_less [of b, where 'a = int] by simp

lemma low_byte_mask: "(255 :: 'a::len word) = mask 8"
  by (simp add: mask_eq_exp_minus_1)

text \<open>The two bytes of a 16-bit word, and back.\<close>

lemma ushort_split_or:
  "push_bit 8 (ucast (ucast (drop_bit 8 (v :: ushort)) :: ubyte)) OR ucast (ucast (v AND 255) :: ubyte) = v"
  unfolding low_byte_mask by (rule bit_word_eqI) (auto simp: bit_simps)

lemma ushort_split:
  "push_bit 8 (ucast (ucast (drop_bit 8 (v :: ushort)) :: ubyte)) + ucast (ucast (v AND 255) :: ubyte) = v"
  by (subst disjunctive_add) (auto simp: ushort_split_or bit_simps)

end
