(* ===== verification/Span.thy ===== *)
theory Span
  imports Prelude
begin

text \<open>
  The part of the Guidelines Support Library that the program runs on:
  \<^verbatim>\<open>gsl/include/fail_fast.h\<close>, the one-dimensional dynamic \<^verbatim>\<open>span\<close> of
  \<^verbatim>\<open>gsl/include/span.h\<close> with its iterator, and the string helpers of
  \<^verbatim>\<open>gsl/include/string_span.h\<close>.

  A pointer is null or an array object with a position in it, so a read outside the array
  object is visible as \<^const>\<open>Undefined\<close>, and a read outside the span but inside the array
  object is not a fault, as in the code. \<^verbatim>\<open>ptrdiff_t\<close> values are \<^typ>\<open>int\<close>: they
  are sizes of and distances in objects that exist in memory.
\<close>

section \<open>Assertions\<close>

definition fail_fast_assert :: "bool \<Rightarrow> unit result" where
  "fail_fast_assert cond = (if \<not> cond then Inl FailFast else Inr ())"

lemma fail_fast_assert_simps [simp]:
  "fail_fast_assert True = Inr ()" "fail_fast_assert False = Inl FailFast"
  by (simp_all add: fail_fast_assert_def)

lemma fail_fast_assert_Inr [returned]: "fail_fast_assert cond = Inr u \<longleftrightarrow> cond"
  by (cases cond) simp_all

section \<open>Pointers\<close>

datatype 'a ptr = Null | Ptr "'a list" int

definition ptr_add :: "'a ptr \<Rightarrow> int \<Rightarrow> 'a ptr" where
  "ptr_add p n = (case p of Null \<Rightarrow> Null | Ptr m i \<Rightarrow> Ptr m (i + n))"

definition load :: "'a ptr \<Rightarrow> 'a result" where
  "load p = (case p of Null \<Rightarrow> Inl Undefined
     | Ptr m i \<Rightarrow> if 0 \<le> i \<and> i < int (length m) then Inr (m ! nat i) else Inl Undefined)"

text \<open>\<^verbatim>\<open>n\<close> consecutive reads, as the constructor \<^verbatim>\<open>std::string(p, n)\<close> makes them.\<close>

fun load_many :: "'a ptr \<Rightarrow> nat \<Rightarrow> 'a list result" where
  "load_many p 0 = Inr []"
| "load_many p (Suc n) =
     bindE (load p) (\<lambda>x. bindE (load_many (ptr_add p 1) n) (\<lambda>xs. Inr (x # xs)))"

section \<open>The span\<close>

record 'a span =
  m_pdata :: "'a ptr"
  m_bounds :: int

abbreviation span_size :: "'a span \<Rightarrow> int" where
  "span_size sp \<equiv> m_bounds sp"

text \<open>
  \<^verbatim>\<open>bounds_type{size}\<close> for one dynamic dimension (\<^verbatim>\<open>BoundsRanges(const ptrdiff_t*)\<close>)
  and the constructor \<^verbatim>\<open>span(pointer, bounds_type)\<close> behind \<^verbatim>\<open>span(pointer, size_type)\<close>.
\<close>

definition dynamic_bounds :: "int \<Rightarrow> int result" where
  "dynamic_bounds n = bindE (fail_fast_assert (0 \<le> n)) (\<lambda>_. Inr n)"

definition span_of :: "'a ptr \<Rightarrow> int \<Rightarrow> 'a span result" where
  "span_of data n =
     bindE (dynamic_bounds n) (\<lambda>b.
     bindE (fail_fast_assert ((b > 0 \<and> data \<noteq> Null) \<or> b = 0)) (\<lambda>_.
     Inr \<lparr>m_pdata = data, m_bounds = b\<rparr>))"

definition default_span :: "'a span" where
  "default_span = \<lparr>m_pdata = Null, m_bounds = 0\<rparr>"

text \<open>\<^verbatim>\<open>span(Cont&)\<close> and \<^verbatim>\<open>as_span(T* arr, ptrdiff_t len)\<close> on a vector's elements.\<close>

definition span_of_container :: "'a list \<Rightarrow> 'a span result" where
  "span_of_container v = span_of (Ptr v 0) (int (length v))"

definition as_span :: "'a list \<Rightarrow> int \<Rightarrow> 'a span result" where
  "as_span v len = span_of (Ptr v 0) len"

text \<open>
  \<^verbatim>\<open>sub(offset, count)\<close>; \<^verbatim>\<open>dynamic_range\<close>, the default of \<^verbatim>\<open>count\<close>, is -1.
\<close>

definition dynamic_range :: int where
  "dynamic_range = -1"

definition span_sub :: "'a span \<Rightarrow> int \<Rightarrow> int \<Rightarrow> 'a span result" where
  "span_sub sp offset extent =
     bindE (fail_fast_assert ((offset = 0 \<or> offset \<le> span_size sp) \<and>
              (extent = dynamic_range \<or> offset + extent \<le> span_size sp))) (\<lambda>_.
     span_of (ptr_add (m_pdata sp) offset)
       (if extent = dynamic_range then span_size sp - offset else extent))"

definition span_first :: "'a span \<Rightarrow> int \<Rightarrow> 'a span result" where
  "span_first sp extent =
     bindE (fail_fast_assert (extent \<le> span_size sp)) (\<lambda>_. span_of (m_pdata sp) extent)"

definition span_last :: "'a span \<Rightarrow> int \<Rightarrow> 'a span result" where
  "span_last sp extent =
     bindE (fail_fast_assert (extent \<le> span_size sp)) (\<lambda>_.
     span_of (ptr_add (m_pdata sp) (span_size sp - extent)) extent)"

text \<open>
  \<^verbatim>\<open>operator[]\<close>: \<^verbatim>\<open>linearize\<close> compares the index with the upper bound only, then the
  element is addressed. \<open>span_ref\<close> is the reference \<^verbatim>\<open>sp[idx]\<close> (and so \<^verbatim>\<open>&sp[idx]\<close>),
  \<open>span_at\<close> reads it.
\<close>

definition linearize1 :: "int \<Rightarrow> int \<Rightarrow> int result" where
  "linearize1 bound idx = bindE (fail_fast_assert (idx < bound)) (\<lambda>_. Inr idx)"

definition span_ref :: "'a span \<Rightarrow> int \<Rightarrow> 'a ptr result" where
  "span_ref sp idx = bindE (linearize1 (m_bounds sp) idx) (\<lambda>i. Inr (ptr_add (m_pdata sp) i))"

definition span_at :: "'a span \<Rightarrow> int \<Rightarrow> 'a result" where
  "span_at sp idx = bindE (span_ref sp idx) load"

section \<open>The iterator\<close>

text \<open>
  \<^verbatim>\<open>contiguous_span_iterator\<close> holds the pointer and the span it validates against; here the
  pointer is the distance from the span's own data pointer.
\<close>

record 'a span_iterator =
  it_pdata :: int
  it_validator :: "'a span"

definition span_begin :: "'a span \<Rightarrow> 'a span_iterator" where
  "span_begin sp = \<lparr>it_pdata = 0, it_validator = sp\<rparr>"

definition span_end :: "'a span \<Rightarrow> 'a span_iterator" where
  "span_end sp = \<lparr>it_pdata = span_size sp, it_validator = sp\<rparr>"

definition validate_this :: "'a span_iterator \<Rightarrow> unit result" where
  "validate_this it =
     fail_fast_assert (it_pdata it \<ge> 0 \<and> it_pdata it < span_size (it_validator it))"

definition iter_deref :: "'a span_iterator \<Rightarrow> 'a result" where
  "iter_deref it =
     bindE (validate_this it) (\<lambda>_. load (ptr_add (m_pdata (it_validator it)) (it_pdata it)))"

definition iter_incr :: "'a span_iterator \<Rightarrow> 'a span_iterator" where
  "iter_incr it = it\<lparr>it_pdata := it_pdata it + 1\<rparr>"

text \<open>
  \<^verbatim>\<open>for(b: sp)\<close>: from \<^verbatim>\<open>begin()\<close>, while it differs from \<^verbatim>\<open>end()\<close>, dereference and
  increment. Both iterators are of the same span, so the check of the validators in
  \<^verbatim>\<open>operator==\<close> holds. Past the end the dereference fails fast, which ends the loop.
\<close>

function iterate :: "'a span_iterator \<Rightarrow> 'a list result" where
  "iterate it =
     (if it_pdata it = span_size (it_validator it) then Inr []
      else bindE (iter_deref it) (\<lambda>x. bindE (iterate (iter_incr it)) (\<lambda>xs. Inr (x # xs))))"
  by pat_completeness auto
termination
  by (relation "measure (\<lambda>it. nat (span_size (it_validator it) - it_pdata it))")
     (auto simp: iter_deref_def validate_this_def fail_fast_assert_def iter_incr_def
        split: if_splits)

declare iterate.simps [simp del]

definition span_elements :: "'a span \<Rightarrow> 'a list result" where
  "span_elements sp = iterate (span_begin sp)"

section \<open>Strings\<close>

text \<open>\<^verbatim>\<open>gsl::to_string(view)\<close>: \<^verbatim>\<open>std::string{view.data(), view.length()}\<close>.\<close>

definition to_string :: "ubyte span \<Rightarrow> string result" where
  "to_string view =
     bindE (load_many (m_pdata view) (nat (span_size view))) (\<lambda>bs. Inr (map char_of_byte bs))"

text \<open>
  \<^verbatim>\<open>ensure_sentinel(seq, max)\<close>: walk to the first sentinel or to \<^verbatim>\<open>max\<close>, check that a
  sentinel is there, and span what is before it.
\<close>

function find_sentinel :: "'a \<Rightarrow> 'a ptr \<Rightarrow> int \<Rightarrow> int \<Rightarrow> int result" where
  "find_sentinel s seq cur limit =
     (if cur < limit then
        bindE (load (ptr_add seq cur)) (\<lambda>x.
        if x \<noteq> s then find_sentinel s seq (cur + 1) limit else Inr cur)
      else Inr cur)"
  by pat_completeness auto
termination
  by (relation "measure (\<lambda>(s, seq, cur, limit). nat (limit - cur))") auto

declare find_sentinel.simps [simp del]

definition ensure_sentinel :: "'a \<Rightarrow> 'a ptr \<Rightarrow> int \<Rightarrow> 'a span result" where
  "ensure_sentinel s seq limit =
     bindE (find_sentinel s seq 0 limit) (\<lambda>cur.
     bindE (load (ptr_add seq cur)) (\<lambda>x.
     bindE (fail_fast_assert (x = s)) (\<lambda>_. span_of seq cur)))"

text \<open>\<^verbatim>\<open>ensure_z(sz)\<close> at its default limit \<^verbatim>\<open>PTRDIFF_MAX\<close>.\<close>

definition ensure_z :: "ubyte ptr \<Rightarrow> ubyte span result" where
  "ensure_z sz = ensure_sentinel 0 sz (2 ^ 63 - 1)"

section \<open>Well-formed spans and the elements they show\<close>

definition span_ok :: "'a span \<Rightarrow> bool" where
  "span_ok sp \<longleftrightarrow> (case m_pdata sp of Null \<Rightarrow> m_bounds sp = 0
     | Ptr m i \<Rightarrow> 0 \<le> i \<and> 0 \<le> m_bounds sp \<and> i + m_bounds sp \<le> int (length m))"

definition view :: "'a span \<Rightarrow> 'a list" where
  "view sp = (case m_pdata sp of Null \<Rightarrow> []
     | Ptr m i \<Rightarrow> take (nat (m_bounds sp)) (drop (nat i) m))"

text \<open>What lies in the same array object from the span's first element on.\<close>

definition reach :: "'a span \<Rightarrow> 'a list" where
  "reach sp = (case m_pdata sp of Null \<Rightarrow> [] | Ptr m i \<Rightarrow> drop (nat i) m)"

lemma span_okE:
  assumes "span_ok sp"
  obtains (null) "m_pdata sp = Null" "m_bounds sp = 0"
  | (ptr) m i n where "m_pdata sp = Ptr m (int i)" "m_bounds sp = int n" "i + n \<le> length m"
proof (cases "m_pdata sp")
  case Null
  with assms null show thesis by (simp add: span_ok_def)
next
  case (Ptr m i)
  with assms have "0 \<le> i" "0 \<le> m_bounds sp" "i + m_bounds sp \<le> int (length m)"
    by (simp_all add: span_ok_def)
  with Ptr ptr [of m "nat i" "nat (m_bounds sp)"] show thesis by simp
qed

lemma length_view [simp]: "span_ok sp \<Longrightarrow> length (view sp) = nat (m_bounds sp)"
  by (erule span_okE) (simp_all add: view_def)

lemma span_size_nonneg: "span_ok sp \<Longrightarrow> 0 \<le> m_bounds sp"
  by (erule span_okE) simp_all

lemma span_size_view: "span_ok sp \<Longrightarrow> m_bounds sp = int (length (view sp))"
  by (simp add: span_size_nonneg)

lemma view_reach: "view sp = take (nat (m_bounds sp)) (reach sp)"
  by (simp add: view_def reach_def split: ptr.split)

lemma view_prefix_reach: "reach sp = view sp @ drop (length (view sp)) (reach sp)"
  by (metis append_eq_conv_conj append_take_drop_id view_reach)

lemma size_le_reach: "span_ok sp \<Longrightarrow> nat (m_bounds sp) \<le> length (reach sp)"
  by (erule span_okE) (simp_all add: reach_def)

lemma span_of_Ptr [simp]: "0 \<le> n \<Longrightarrow> span_of (Ptr m i) n = Inr \<lparr>m_pdata = Ptr m i, m_bounds = n\<rparr>"
  by (simp add: span_of_def dynamic_bounds_def fail_fast_assert_def)

lemma load_ptr:
  "span_ok sp \<Longrightarrow> load (ptr_add (m_pdata sp) (int k)) =
     (if k < length (reach sp) then Inr (reach sp ! k) else Inl Undefined)"
  by (erule span_okE) (auto simp: load_def ptr_add_def reach_def nat_add_distrib)

lemma ptr_add_add: "ptr_add (ptr_add p a) b = ptr_add p (a + b)"
  by (simp add: ptr_add_def split: ptr.split)

lemma load_many_reach:
  "span_ok sp \<Longrightarrow> load_many (ptr_add (m_pdata sp) (int k)) n =
     (if k + n \<le> length (reach sp) \<or> n = 0 then Inr (take n (drop k (reach sp))) else Inl Undefined)"
proof (induction n arbitrary: k)
  case (Suc n)
  have "ptr_add (ptr_add (m_pdata sp) (int k)) 1 = ptr_add (m_pdata sp) (int (Suc k))"
    by (simp add: ptr_add_add add.commute)
  moreover note Suc.IH [OF Suc.prems, of "Suc k"]
  ultimately show ?case
    using load_ptr [OF Suc.prems, of k]
    by (auto simp: Suc_le_eq Cons_nth_drop_Suc [symmetric] not_le bindE_def)
qed simp

lemma span_at_view:
  assumes "span_ok sp" and "0 \<le> i"
  shows "span_at sp i = (if i < int (length (view sp)) then Inr (view sp ! nat i) else Inl FailFast)"
proof (cases "i < m_bounds sp")
  case True
  then have "nat i < length (reach sp)"
    using assms size_le_reach [OF assms(1)] by linarith
  with True show ?thesis
    using assms load_ptr [OF assms(1), of "nat i"]
    by (auto simp: span_at_def span_ref_def linearize1_def view_reach)
next
  case False
  with assms show ?thesis
    by (simp add: span_at_def span_ref_def linearize1_def)
qed

lemma span_of_container_ok [simp]:
  "span_of_container v = Inr \<lparr>m_pdata = Ptr v 0, m_bounds = int (length v)\<rparr>"
  by (auto simp: span_of_container_def span_of_def dynamic_bounds_def)

lemma span_ok_container: "span_ok \<lparr>m_pdata = Ptr v 0, m_bounds = int (length v)\<rparr>"
  by (simp add: span_ok_def)

lemma view_container: "view \<lparr>m_pdata = Ptr v 0, m_bounds = int (length v)\<rparr> = v"
  by (simp add: view_def)

lemma span_sub_take:
  assumes "span_ok sp" and "k + n \<le> length (view sp)"
  shows "\<exists>s. span_sub sp (int k) (int n) = Inr s \<and> span_ok s \<and>
           view s = take n (drop k (view sp)) \<and> reach s = drop k (reach sp)"
  using assms(1)
proof (cases rule: span_okE)
  case null
  with assms show ?thesis
    by (simp add: view_def span_sub_def span_of_def dynamic_bounds_def dynamic_range_def
        ptr_add_def span_ok_def reach_def)
next
  case (ptr m i l)
  with assms have "k + n \<le> l" by simp
  with ptr show ?thesis
    by (simp add: view_def span_sub_def dynamic_range_def ptr_add_def span_ok_def reach_def
        nat_add_distrib drop_take add.commute min_def)
qed

lemma span_sub_drop:
  assumes "span_ok sp" and "k \<le> length (view sp)"
  shows "\<exists>s. span_sub sp (int k) dynamic_range = Inr s \<and> span_ok s \<and>
           view s = drop k (view sp) \<and> reach s = drop k (reach sp)"
  using assms(1)
proof (cases rule: span_okE)
  case null
  with assms show ?thesis
    by (simp add: view_def span_sub_def span_of_def dynamic_bounds_def dynamic_range_def
        ptr_add_def span_ok_def reach_def)
next
  case (ptr m i l)
  with assms have "k \<le> l" by simp
  with ptr show ?thesis
    by (simp add: view_def span_sub_def dynamic_range_def ptr_add_def span_ok_def reach_def
        nat_add_distrib nat_diff_distrib drop_take add.commute)
qed

lemma iterate_view:
  assumes "span_ok sp" and "it_validator it = sp" and "it_pdata it = int k"
    and "k \<le> length (view sp)"
  shows "iterate it = Inr (drop k (view sp))"
  using assms
proof (induction it arbitrary: k rule: iterate.induct)
  case (1 it)
  show ?case
  proof (cases "it_pdata it = span_size (it_validator it)")
    case True
    with "1.prems" span_size_nonneg [of sp] show ?thesis by (subst iterate.simps) simp
  next
    case False
    with "1.prems" span_size_nonneg [of sp] have k: "k < length (view sp)" by auto
    with "1.prems"(1) have "int k < span_size sp" by simp
    then have d: "iter_deref it = Inr (view sp ! k)"
      using "1.prems" k span_at_view [OF "1.prems"(1), of "int k"]
      by (simp add: iter_deref_def validate_this_def span_at_def span_ref_def linearize1_def)
    have "iterate (iter_incr it) = Inr (drop (Suc k) (view sp))"
      using "1.IH" [OF False d, of "Suc k"] "1.prems" k by (simp add: iter_incr_def add.commute)
    with False d k show ?thesis
      by (subst iterate.simps) (simp add: Cons_nth_drop_Suc)
  qed
qed

lemma span_elements_view [simp]: "span_ok sp \<Longrightarrow> span_elements sp = Inr (view sp)"
  unfolding span_elements_def
  by (subst iterate_view [of sp _ 0]) (simp_all add: span_begin_def)

section \<open>Checked accesses\<close>

text \<open>
  A subscript that is not negative reads the element of a well-formed span, or fails fast;
  it never reads outside.
\<close>

lemma subscript_checked:
  assumes "span_ok sp" "0 \<le> i"
  shows "span_at sp i = (if i < span_size sp then Inr (view sp ! nat i) else Inl FailFast)"
  using span_at_view [OF assms] span_size_view [OF assms(1)] by simp

lemma subscript_checked_witness:
  "span_at \<lparr>m_pdata = Ptr [1, 2, 3, 4 :: ubyte] 1, m_bounds = 2\<rparr> 1 = Inr 3 \<and>
   span_at \<lparr>m_pdata = Ptr [1, 2, 3, 4 :: ubyte] 1, m_bounds = 2\<rparr> 2 = Inl FailFast"
  using subscript_checked [of "\<lparr>m_pdata = Ptr [1, 2, 3, 4 :: ubyte] 1, m_bounds = 2\<rparr>"]
  by (simp add: span_ok_def view_def numeral_nat)

text \<open>
  \<^verbatim>\<open>sub\<close> inside the bounds gives the well-formed span of exactly these elements.
\<close>

lemma subspan_view:
  assumes "span_ok sp" "k + n \<le> length (view sp)"
  shows "\<exists>s. span_sub sp (int k) (int n) = Inr s \<and> span_ok s \<and> view s = take n (drop k (view sp))"
  using span_sub_take [OF assms] by blast

lemma subspan_view_witness:
  "\<exists>s. span_sub \<lparr>m_pdata = Ptr [1, 2, 3, 4 :: ubyte] 1, m_bounds = 3\<rparr> 1 2 = Inr s \<and> span_ok s \<and> view s = [3, 4]"
  using subspan_view [of "\<lparr>m_pdata = Ptr [1, 2, 3, 4 :: ubyte] 1, m_bounds = 3\<rparr>" 1 2]
  by (simp add: span_ok_def view_def numeral_nat)

end
