(* ===== verification/Cereal.thy ===== *)
theory Cereal
  imports Span
begin

text \<open>
  The serialisation library \<^verbatim>\<open>cereal\<close> (\<^verbatim>\<open>cereal/src/\<close>): the byte and bit writer
  \<^verbatim>\<open>Cerealiser\<close>, the reader \<^verbatim>\<open>Decerealiser\<close> and the operations of their base class
  \<^verbatim>\<open>Cereal\<close>, which read or write depending on the object they run on.

  The abstract class becomes the datatype \<^verbatim>\<open>cereal\<close>, whose constructors are the values of
  \<^verbatim>\<open>Cereal::Type\<close>. An operation \<^verbatim>\<open>grain(T& val)\<close> takes the value of \<^verbatim>\<open>val\<close> and the
  object, and returns the value \<^verbatim>\<open>val\<close> has afterwards and the new object.
\<close>

section \<open>State\<close>

record cerealiser =
  w_bytes :: "ubyte list"
  w_currentByte :: ubyte
  w_bitIndex :: int

text \<open>
  The iterators of a \<^verbatim>\<open>Decerealiser\<close> are positions in the array object they point into.
\<close>

record decerealiser =
  d_bytes :: "ubyte list"
  d_iterator :: nat
  d_end :: nat
  d_originalIterator :: nat
  d_currentByte :: ubyte
  d_bitIndex :: int

datatype cereal = Write cerealiser | Read decerealiser

type_synonym 'a grain = "'a \<Rightarrow> cereal \<Rightarrow> ('a \<times> cereal) result"

definition new_cerealiser :: cerealiser where
  "new_cerealiser = \<lparr>w_bytes = [], w_currentByte = 0, w_bitIndex = 0\<rparr>"

text \<open>
  \<^verbatim>\<open>Decerealiser(const T& bytes)\<close> copies the container; \<^verbatim>\<open>Decerealiser(begin, end)\<close> reads
  from the range of an array object that lives elsewhere.
\<close>

definition decerealiser_of :: "ubyte list \<Rightarrow> decerealiser" where
  "decerealiser_of bytes = \<lparr>d_bytes = bytes, d_iterator = 0, d_end = length bytes,
     d_originalIterator = 0, d_currentByte = 0, d_bitIndex = 0\<rparr>"

definition decerealiser_range :: "ubyte list \<Rightarrow> nat \<Rightarrow> nat \<Rightarrow> decerealiser" where
  "decerealiser_range m b e = \<lparr>d_bytes = m, d_iterator = b, d_end = e,
     d_originalIterator = b, d_currentByte = 0, d_bitIndex = 0\<rparr>"

definition reset :: "decerealiser \<Rightarrow> decerealiser" where
  "reset d = d\<lparr>d_bitIndex := 0, d_currentByte := 0, d_iterator := d_originalIterator d\<rparr>"

section \<open>Shifts of int and uint32_t\<close>

text \<open>A shift count outside \<open>0..31\<close>, or a left shift that loses bits of an \<^verbatim>\<open>int\<close>, is undefined.\<close>

definition int_shr :: "int \<Rightarrow> int \<Rightarrow> int result" where
  "int_shr v n = (if 0 \<le> n \<and> n < 32 then Inr (v div 2 ^ nat n) else Inl Undefined)"

definition int_shl :: "int \<Rightarrow> int \<Rightarrow> int result" where
  "int_shl v n = (if 0 \<le> n \<and> n < 32 \<and> 0 \<le> v \<and> v * 2 ^ nat n < 2 ^ 32
     then Inr (signed_take_bit 31 (v * 2 ^ nat n)) else Inl Undefined)"

definition uint_shl :: "uint \<Rightarrow> int \<Rightarrow> uint result" where
  "uint_shl v n = (if 0 \<le> n \<and> n < 32 then Inr (push_bit (nat n) v) else Inl Undefined)"

section \<open>Bytes\<close>

definition read_byte :: "decerealiser \<Rightarrow> (ubyte \<times> decerealiser) result" where
  "read_byte d = (if d_iterator d < length (d_bytes d)
     then Inr (d_bytes d ! d_iterator d, d\<lparr>d_iterator := Suc (d_iterator d)\<rparr>)
     else Inl Undefined)"

fun grainByte :: "ubyte grain" where
  "grainByte val (Write w) = Inr (val, Write (w\<lparr>w_bytes := w_bytes w @ [val]\<rparr>))"
| "grainByte val (Read d) = bindE (read_byte d) (\<lambda>(b, d'). Inr (b, Read d'))"

fun bytesLeft :: "cereal \<Rightarrow> int" where
  "bytesLeft (Write w) = int (length (w_bytes w))"
| "bytesLeft (Read d) = int (d_end d) - int (d_iterator d)"

section \<open>Bits\<close>

text \<open>\<^verbatim>\<open>Cerealiser::writeBits\<close>; the last two statements of its body are \<open>write_tail\<close>.\<close>

definition write_tail :: "int \<Rightarrow> int \<Rightarrow> cerealiser \<Rightarrow> cerealiser result" where
  "write_tail value bits w =
     bindE (int_shl value (8 - bits - w_bitIndex w)) (\<lambda>shifted.
     Inr (w\<lparr>w_currentByte := w_currentByte w OR word_of_int shifted,
            w_bitIndex := w_bitIndex w + bits\<rparr>))"

function writeBits :: "int \<Rightarrow> int \<Rightarrow> cerealiser \<Rightarrow> cerealiser result" where
  "writeBits value bits w =
     (if w_bitIndex w + bits \<ge> 8 then
        let remainingBits = w_bitIndex w + bits - 8 in
        bindE (int_shr value remainingBits) (\<lambda>thisByteValue.
        let full = w_currentByte w OR word_of_int thisByteValue;
            w' = w\<lparr>w_bytes := w_bytes w @ [full], w_currentByte := 0, w_bitIndex := 0\<rparr> in
        if remainingBits > 0 then
          bindE (int_shr 255 (8 - remainingBits)) (\<lambda>m.
          writeBits (Word.uint (word_of_int (value AND m) :: ubyte)) remainingBits w')
        else write_tail value bits w')
      else write_tail value bits w)"
  by pat_completeness auto
termination
  by (relation "measure (\<lambda>(value, bits, w). nat (w_bitIndex w + bits))") auto

declare writeBits.simps [simp del]

text \<open>\<^verbatim>\<open>Decerealiser::readBitsHelper\<close> and \<^verbatim>\<open>readBits\<close>.\<close>

definition read_within :: "int \<Rightarrow> decerealiser \<Rightarrow> (uint \<times> decerealiser) result" where
  "read_within bits d =
     (let d' = d\<lparr>d_bitIndex := d_bitIndex d + bits\<rparr> in
      bindE (int_shr (Word.uint (d_currentByte d')) (8 - d_bitIndex d')) (\<lambda>shift.
      bindE (int_shr 255 (8 - bits)) (\<lambda>m.
      Inr (word_of_int (shift AND m), d'))))"

function readBitsHelper :: "int \<Rightarrow> decerealiser \<Rightarrow> (uint \<times> decerealiser) result" where
  "readBitsHelper bits d =
     (if d_bitIndex d + bits > 8 then
        let bits1stTime = 8 - d_bitIndex d;
            bits2ndTime = d_bitIndex d + bits - 8 in
        bindE (readBitsHelper bits1stTime d) (\<lambda>(value1, d1).
        bindE (read_byte (d1\<lparr>d_bitIndex := 0\<rparr>)) (\<lambda>(b, d2).
        bindE (readBitsHelper bits2ndTime (d2\<lparr>d_currentByte := b\<rparr>)) (\<lambda>(value2, d3).
        bindE (uint_shl value1 bits2ndTime) (\<lambda>high.
        Inr (high OR value2, d3)))))
      else read_within bits d)"
  by pat_completeness auto
termination
  by (relation "measure (\<lambda>(bits, d). nat (d_bitIndex d + bits))")
     (auto simp: read_byte_def split: if_splits)

declare readBitsHelper.simps [simp del]

definition readBits :: "int \<Rightarrow> decerealiser \<Rightarrow> (uint \<times> decerealiser) result" where
  "readBits bits d =
     bindE (if d_bitIndex d = 0
            then bindE (read_byte d) (\<lambda>(b, d'). Inr (d'\<lparr>d_currentByte := b\<rparr>))
            else Inr d) (readBitsHelper bits)"

text \<open>\<^verbatim>\<open>grainBitsImpl\<close> on either object; \<open>grainBits\<close> is the template at \<^verbatim>\<open>uint32_t\<close>.\<close>

fun grainBits :: "uint \<Rightarrow> int \<Rightarrow> cereal \<Rightarrow> (uint \<times> cereal) result" where
  "grainBits val bits (Write w) = bindE (writeBits (sint val) bits w) (\<lambda>w'. Inr (val, Write w'))"
| "grainBits val bits (Read d) = bindE (readBits bits d) (\<lambda>(v, d'). Inr (v, Read d'))"

text \<open>The template \<^verbatim>\<open>grainBits(T& val, int bits)\<close> at \<^verbatim>\<open>bool\<close> and at \<^verbatim>\<open>uint8_t\<close>.\<close>

definition grainBits_bool :: "bool \<Rightarrow> int \<Rightarrow> cereal \<Rightarrow> (bool \<times> cereal) result" where
  "grainBits_bool val bits c =
     bindE (grainBits (of_bool val) bits c) (\<lambda>(realVal, c'). Inr (realVal \<noteq> 0, c'))"

definition grainBits_u8 :: "ubyte \<Rightarrow> int \<Rightarrow> cereal \<Rightarrow> (ubyte \<times> cereal) result" where
  "grainBits_u8 val bits c =
     bindE (grainBits (ucast val) bits c) (\<lambda>(realVal, c'). Inr (ucast realVal, c'))"

section \<open>Integers, characters, containers\<close>

definition grain_u8 :: "ubyte grain" where
  "grain_u8 val c = grainByte val c"

definition grain_char :: "char grain" where
  "grain_char val c = bindE (grainByte (byte_of_char val) c) (\<lambda>(b, c'). Inr (char_of_byte b, c'))"

definition grain_u16 :: "ushort grain" where
  "grain_u16 val c =
     (let valh = ucast (drop_bit 8 val) :: ubyte; vall = ucast (val AND 255) :: ubyte in
      bindE (grainByte valh c) (\<lambda>(valh, c).
      bindE (grainByte vall c) (\<lambda>(vall, c).
      Inr (push_bit 8 (ucast valh) + ucast vall, c))))"

definition grain_u32 :: "uint grain" where
  "grain_u32 val c =
     (let val0 = ucast (drop_bit 24 val) :: ubyte; val1 = ucast (drop_bit 16 val) :: ubyte;
          val2 = ucast (drop_bit 8 val) :: ubyte; val3 = ucast (val AND 255) :: ubyte in
      bindE (grainByte val0 c) (\<lambda>(val0, c).
      bindE (grainByte val1 c) (\<lambda>(val1, c).
      bindE (grainByte val2 c) (\<lambda>(val2, c).
      bindE (grainByte val3 c) (\<lambda>(val3, c).
      Inr (push_bit 24 (ucast val0) + push_bit 16 (ucast val1) + push_bit 8 (ucast val2)
             + ucast val3, c))))))"

text \<open>\<^verbatim>\<open>grainReinterpret\<close> at the signed types: the object seen as the unsigned one of its width.\<close>

definition grainReinterpret :: "'w::len word grain \<Rightarrow> int grain" where
  [simp]: "grainReinterpret g val c = bindE (g (word_of_int val) c) (\<lambda>(u, c). Inr (sint u, c))"

definition grain_i8 :: "int grain" where
  "grain_i8 val c = grainReinterpret grain_u8 val c"

definition grain_i16 :: "int grain" where
  "grain_i16 val c = grainReinterpret grain_u16 val c"

definition grain_i32 :: "int grain" where
  "grain_i32 val c = grainReinterpret grain_u32 val c"

text \<open>
  \<^verbatim>\<open>grain(uint64_t&)\<close>. \<^verbatim>\<open>ptr[i]\<close> is the byte at the address \<^verbatim>\<open>&val + i\<close>, on a little-endian
  machine the byte of weight \<^verbatim>\<open>256^i\<close>. The second loop shifts it as an \<^verbatim>\<open>int\<close>.
\<close>

definition object_byte :: "ulong \<Rightarrow> nat \<Rightarrow> ubyte" where
  "object_byte val i = ucast (drop_bit (8 * i) val)"

definition set_object_byte :: "nat \<Rightarrow> ubyte \<Rightarrow> ulong \<Rightarrow> ulong" where
  "set_object_byte i b val = (val AND NOT (push_bit (8 * i) 255)) OR push_bit (8 * i) (ucast b)"

fun grain_object_bytes :: "nat list \<Rightarrow> ulong grain" where
  "grain_object_bytes [] val c = Inr (val, c)"
| "grain_object_bytes (i # is) val c =
     bindE (grainByte (object_byte val i) c) (\<lambda>(b, c). grain_object_bytes is (set_object_byte i b val) c)"

fun sum_object_bytes :: "nat list \<Rightarrow> ulong \<Rightarrow> ulong \<Rightarrow> ulong result" where
  "sum_object_bytes [] val newVal = Inr newVal"
| "sum_object_bytes (i # is) val newVal =
     bindE (int_shl (Word.uint (object_byte val i)) (int i * 8)) (\<lambda>v.
     sum_object_bytes is val (newVal + word_of_int v))"

definition grain_u64 :: "ulong grain" where
  "grain_u64 val c =
     bindE (grain_object_bytes (rev [0..<8]) val c) (\<lambda>(val, c).
     bindE (sum_object_bytes (rev [0..<8]) val 0) (\<lambda>newVal. Inr (val, c)))"

definition grain_i64 :: "int grain" where
  "grain_i64 val c = grainReinterpret grain_u64 val c"

text \<open>
  \<^verbatim>\<open>bool\<close> and \<^verbatim>\<open>double\<close>: the value is the object, seen as the unsigned integer of its size. A
  \<^verbatim>\<open>bool\<close> whose object is neither 0 nor 1 must not be read.
\<close>

definition object_of_bool :: "bool \<Rightarrow> ubyte" where
  "object_of_bool b = of_bool b"

definition bool_of_object :: "ubyte \<Rightarrow> bool result" where
  "bool_of_object u = (if u = 0 then Inr False else if u = 1 then Inr True else Inl Undefined)"

definition grain_bool :: "ubyte grain" where
  "grain_bool object c = grain_u8 object c"

definition grain_double :: "ulong grain" where
  "grain_double object c = grain_u64 object c"

text \<open>The loop \<^verbatim>\<open>for(auto& t: val) grain(t)\<close>.\<close>

fun grain_each :: "'a grain \<Rightarrow> 'a list grain" where
  "grain_each g [] c = Inr ([], c)"
| "grain_each g (x # xs) c =
     bindE (g x c) (\<lambda>(y, c). bindE (grain_each g xs c) (\<lambda>(ys, c). Inr (y # ys, c)))"

text \<open>
  \<^verbatim>\<open>grain<I>(std::vector&)\<close>: \<open>gi\<close> passes the length of the type \<^verbatim>\<open>I\<close>, \<open>d\<close> is the value
  \<^verbatim>\<open>resize\<close> fills with. The default of \<^verbatim>\<open>I\<close> is \<^verbatim>\<open>uint16_t\<close>, and \<^verbatim>\<open>grain(std::string&)\<close> has the same body.
\<close>

definition grain_vector_as :: "'w::len word grain \<Rightarrow> 'a grain \<Rightarrow> 'a \<Rightarrow> 'a list grain" where
  "grain_vector_as gi g d val c =
     (let num = word_of_nat (length val) :: 'w word in
      bindE (gi num c) (\<lambda>(num, c).
      let val = (if length val \<noteq> unat num then resize d val (unat num) else val) in
      grain_each g val c))"

definition grain_vector :: "'a grain \<Rightarrow> 'a \<Rightarrow> 'a list grain" where
  "grain_vector g d val c = grain_vector_as grain_u16 g d val c"

definition grain_string :: "string grain" where
  "grain_string val c = grain_vector grain_char (CHR 0x00) val c"

text \<open>
  \<^verbatim>\<open>grainRawArray\<close>. The loop of the reading branch runs while bytes are left; \<open>n\<close> bounds
  its steps, and running out of them is \<^const>\<open>Diverges\<close>. The bound is the number of bytes
  left, which is enough for every element type that reads at least one byte.
\<close>

fun read_while_left :: "nat \<Rightarrow> 'a grain \<Rightarrow> 'a \<Rightarrow> 'a list \<Rightarrow> cereal \<Rightarrow> ('a list \<times> cereal) result" where
  "read_while_left n g d val c =
     (if bytesLeft c > 0 then
        (case n of 0 \<Rightarrow> Inl Diverges
         | Suc n' \<Rightarrow>
            bindE (g d c) (\<lambda>(x, c).
            bindE (fail_fast_assert (bytesLeft c \<ge> 0)) (\<lambda>_.
            read_while_left n' g d (val @ [x]) c)))
      else Inr (val, c))"

declare read_while_left.simps [simp del]

definition grainRawArray :: "'a grain \<Rightarrow> 'a \<Rightarrow> 'a list grain" where
  "grainRawArray g d val c =
     (case c of Read _ \<Rightarrow> read_while_left (nat (bytesLeft c)) g d [] c
      | Write _ \<Rightarrow> grain_each g val c)"

end
