(* ===== verification/Grain.thy ===== *)
theory Grain
  imports Cereal
begin

text \<open>
  The contract of the \<^verbatim>\<open>grain\<close> operations of \<^verbatim>\<open>cereal/src/Cereal.hpp\<close> and
  \<^verbatim>\<open>Cereal.cpp\<close>, as a locale: a writer gets exactly the encoding of the value appended, a
  reader that has this encoding in front of it gets the value back and moves behind it, and
  every successful read makes progress. Containers of such elements, with a length in front or
  raw, satisfy the contract again. The interpretations at the end discharge it for the integer,
  character and string operations.
\<close>

section \<open>Positions of readers and writers\<close>

definition rest :: "decerealiser \<Rightarrow> ubyte list" where
  "rest d = drop (d_iterator d) (d_bytes d)"

definition advance :: "nat \<Rightarrow> decerealiser \<Rightarrow> decerealiser" where
  "advance n d = d\<lparr>d_iterator := d_iterator d + n\<rparr>"

definition emit :: "ubyte list \<Rightarrow> cerealiser \<Rightarrow> cerealiser" where
  "emit bs w = w\<lparr>w_bytes := w_bytes w @ bs\<rparr>"

lemma rest_advance [simp]: "rest (advance n d) = drop n (rest d)"
  by (simp add: rest_def advance_def add.commute)

lemma rest_update [simp]:
  "rest (d\<lparr>d_bitIndex := k\<rparr>) = rest d" "rest (d\<lparr>d_currentByte := c\<rparr>) = rest d"
  by (simp_all add: rest_def)

lemma advance_advance [simp]: "advance m (advance n d) = advance (n + m) d"
  by (simp add: advance_def add.assoc)

lemma advance_0 [simp]: "advance 0 d = d"
  by (simp add: advance_def)

lemma advance_sel [simp]:
  "d_iterator (advance n d) = d_iterator d + n" "d_end (advance n d) = d_end d"
  "d_bytes (advance n d) = d_bytes d" "d_bitIndex (advance n d) = d_bitIndex d"
  "d_currentByte (advance n d) = d_currentByte d"
  "d_originalIterator (advance n d) = d_originalIterator d"
  by (simp_all add: advance_def)

lemma emit_emit [simp]: "emit cs (emit bs w) = emit (bs @ cs) w"
  by (simp add: emit_def)

lemma emit_Nil [simp]: "emit [] w = w"
  by (simp add: emit_def)

lemma emit_sel [simp]:
  "w_bytes (emit bs w) = w_bytes w @ bs" "w_bitIndex (emit bs w) = w_bitIndex w"
  "w_currentByte (emit bs w) = w_currentByte w"
  by (simp_all add: emit_def)

lemma read_byte_rest:
  "read_byte d = (case rest d of [] \<Rightarrow> Inl Undefined | b # _ \<Rightarrow> Inr (b, advance 1 d))"
  by (cases "d_iterator d < length (d_bytes d)")
     (simp_all add: read_byte_def rest_def advance_def Cons_nth_drop_Suc [symmetric])

lemma read_byte_Cons: "rest d = b # bs \<Longrightarrow> read_byte d = Inr (b, advance 1 d)"
  by (simp add: read_byte_rest)

lemma read_byte_Inr: "read_byte d = Inr (b, d') \<Longrightarrow> d' = advance 1 d \<and> rest d = b # rest d'"
  by (auto simp: read_byte_rest split: list.splits)

text \<open>The bytes left according to \<^verbatim>\<open>_end\<close> are the bytes that are there.\<close>

definition at_end :: "decerealiser \<Rightarrow> bool" where
  "at_end d \<longleftrightarrow> d_end d = length (d_bytes d) \<and> d_iterator d \<le> length (d_bytes d)"

lemma at_end_new [simp]: "at_end (decerealiser_of bs)"
  by (simp add: at_end_def decerealiser_of_def)

lemma rest_new [simp]: "rest (decerealiser_of bs) = bs"
  by (simp add: rest_def decerealiser_of_def)

lemma at_end_advance: "at_end d \<Longrightarrow> n \<le> length (rest d) \<Longrightarrow> at_end (advance n d)"
  by (auto simp: at_end_def rest_def)

lemma bytesLeft_rest: "at_end d \<Longrightarrow> bytesLeft (Read d) = int (length (rest d))"
  by (simp add: at_end_def rest_def of_nat_diff)

section \<open>The contract\<close>

locale grainable =
  fixes grain :: "'a grain" and enc :: "'a \<Rightarrow> ubyte list" and ok :: "'a \<Rightarrow> bool"
  assumes writes: "ok v \<Longrightarrow> grain v (Write w) = Inr (v, Write (emit (enc v) w))"
    and reads: "ok v \<Longrightarrow> rest d = enc v @ bs \<Longrightarrow>
      grain u (Read d) = Inr (v, Read (advance (length (enc v)) d))"
    and progress: "grain u (Read d) = Inr (x, c) \<Longrightarrow>
      \<exists>n>0. c = Read (advance n d) \<and> n \<le> length (rest d)"
    and faults: "no_throw (grain u (Read d))"
begin

lemma enc_nonempty: "ok v \<Longrightarrow> enc v \<noteq> []"
proof
  assume ok: "ok v" and "enc v = []"
  then have "grain v (Read (decerealiser_of [])) = Inr (v, Read (decerealiser_of []))"
    using reads [OF ok, of "decerealiser_of []" "[]"] by simp
  from progress [OF this] show False by auto
qed

lemma read_step:
  assumes "ok v" "rest d = enc v @ bs"
  obtains d' where "grain u (Read d) = Inr (v, Read d')" "rest d' = bs" "d_bitIndex d' = d_bitIndex d"
  using assms by (intro that [of "advance (length (enc v)) d"]) (simp_all add: reads)

lemma each_write:
  "list_all ok vs \<Longrightarrow> grain_each grain vs (Write w) = Inr (vs, Write (emit (concat (map enc vs)) w))"
  by (induction vs arbitrary: w) (simp_all add: writes)

lemma each_read:
  "list_all ok vs \<Longrightarrow> length us = length vs \<Longrightarrow> rest d = concat (map enc vs) @ bs \<Longrightarrow>
   grain_each grain us (Read d) = Inr (vs, Read (advance (length (concat (map enc vs))) d))"
proof (induction vs arbitrary: us d)
  case (Cons v vs)
  then obtain u us' where "us = u # us'" by (cases us) auto
  with Cons show ?case
    by (simp add: reads [of v d "concat (map enc vs) @ bs"])
qed simp

lemma each_progress:
  "grain_each grain us (Read d) = Inr (xs, c) \<Longrightarrow>
   \<exists>n. c = Read (advance n d) \<and> n \<le> length (rest d) \<and> length xs = length us"
proof (induction us arbitrary: d xs c)
  case Nil
  then show ?case by (auto intro: exI [of _ 0])
next
  case (Cons u us)
  then obtain x c1 xs' where 1: "grain u (Read d) = Inr (x, c1)"
    and 2: "grain_each grain us c1 = Inr (xs', c)" and xs: "xs = x # xs'"
    by (auto simp: returned)
  from progress [OF 1] obtain n where n: "c1 = Read (advance n d)" "n \<le> length (rest d)" by blast
  with Cons.IH [of "advance n d" xs' c] 2 obtain m where
    "c = Read (advance (n + m) d)" "m \<le> length (rest d) - n" "length xs' = length us" by auto
  with n xs show ?case by (intro exI [of _ "n + m"]) auto
qed

lemma each_faults: "no_throw (grain_each grain us (Read d))"
proof (induction us arbitrary: d)
  case (Cons u us)
  have "no_throw (grain_each grain us c)" if "grain u (Read d) = Inr (x, c)" for x c
    using progress [OF that] Cons.IH by auto
  then show ?case using faults [of u d] by (auto simp: no_throw_bindE)
qed simp

lemma raw_write:
  "list_all ok vs \<Longrightarrow>
   grainRawArray grain d vs (Write w) = Inr (vs, Write (emit (concat (map enc vs)) w))"
  by (simp add: grainRawArray_def each_write)

lemma while_read:
  "list_all ok vs \<Longrightarrow> at_end d \<Longrightarrow> rest d = concat (map enc vs) \<Longrightarrow> length (rest d) \<le> n \<Longrightarrow>
   read_while_left n grain u xs (Read d) = Inr (xs @ vs, Read (advance (length (rest d)) d))"
proof (induction vs arbitrary: d n xs)
  case Nil
  then show ?case by (subst read_while_left.simps) (simp add: bytesLeft_rest del: bytesLeft.simps)
next
  case (Cons v vs)
  let ?d = "advance (length (enc v)) d"
  have ne: "enc v \<noteq> []" using Cons.prems(1) by (simp add: enc_nonempty)
  then obtain m where n: "n = Suc m" using Cons.prems by (cases n) auto
  have ae: "at_end ?d" using Cons.prems by (simp add: at_end_advance)
  have r: "grain u (Read d) = Inr (v, Read ?d)"
    using Cons.prems by (intro reads) auto
  have "length (concat (map enc vs)) \<le> m"
    using Cons.prems(3,4) ne n by (cases "enc v") auto
  then have "read_while_left m grain u (xs @ [v]) (Read ?d)
      = Inr ((xs @ [v]) @ vs, Read (advance (length (rest ?d)) ?d))"
    using Cons.prems ae by (intro Cons.IH) auto
  moreover have "bytesLeft (Read d) > 0"
    using Cons.prems ne by (cases "enc v") (simp_all add: bytesLeft_rest del: bytesLeft.simps)
  moreover have "bytesLeft (Read ?d) \<ge> 0"
    using ae by (simp add: bytesLeft_rest del: bytesLeft.simps)
  ultimately show ?case
    using Cons.prems(3) by (subst read_while_left.simps) (simp add: r n del: bytesLeft.simps)
qed

lemma raw_read:
  assumes "list_all ok vs" "at_end d" "rest d = concat (map enc vs)"
  shows "grainRawArray grain u us (Read d) = Inr (vs, Read (advance (length (rest d)) d))"
  using while_read [OF assms, of "nat (bytesLeft (Read d))" u "[]"] assms(2)
  by (simp add: grainRawArray_def bytesLeft_rest del: bytesLeft.simps)

lemma while_faults:
  "bytesLeft (Read d) \<le> int n \<Longrightarrow> no_throw (read_while_left n grain u xs (Read d))"
proof (induction n arbitrary: d xs)
  case 0
  then show ?case by (subst read_while_left.simps) simp
next
  case (Suc n)
  have "no_throw (read_while_left n grain u (xs @ [x]) c)" if "grain u (Read d) = Inr (x, c)" for x c
  proof -
    from progress [OF that] obtain k where "k > 0" "c = Read (advance k d)" by blast
    with Suc.prems Suc.IH [of "advance k d"] show ?thesis by simp
  qed
  then show ?case
    using faults [of u d]
    by (subst read_while_left.simps) (auto simp: no_throw_bindE fail_fast_assert_def simp del: bytesLeft.simps)
qed

text \<open>The bound of the loop is never what ends it: reading a raw array terminates.\<close>

lemma raw_faults: "no_throw (grainRawArray grain u us (Read d))"
  by (simp add: grainRawArray_def while_faults del: bytesLeft.simps)

lemma raw_terminates: "grainRawArray grain u us (Read d) \<noteq> Inl Diverges"
  by (rule no_throw_Diverges) (rule raw_faults)

end

section \<open>Interpretations\<close>

definition be16 :: "ushort \<Rightarrow> ubyte list" where
  "be16 v = [ucast (drop_bit 8 v), ucast (v AND 255)]"

lemma length_be16 [simp]: "length (be16 v) = 2"
  by (simp add: be16_def)

interpretation byte: grainable grain_u8 "\<lambda>b. [b]" "\<lambda>_. True"
  by unfold_locales
     (auto simp: grain_u8_def emit_def read_byte_rest split: list.splits intro!: exI [of _ "Suc 0"])

interpretation chr: grainable grain_char "\<lambda>c. [byte_of_char c]" "\<lambda>_. True"
  by unfold_locales
     (auto simp: grain_char_def emit_def read_byte_rest split: list.splits intro!: exI [of _ "Suc 0"])

lemma grain_u16_write: "grain_u16 v (Write w) = Inr (v, Write (emit (be16 v) w))"
  by (simp add: grain_u16_def Let_def emit_def be16_def ushort_split)

lemma grain_u16_read:
  "rest d = be16 v @ bs \<Longrightarrow> grain_u16 u (Read d) = Inr (v, Read (advance 2 d))"
  by (simp add: grain_u16_def Let_def be16_def read_byte_Cons ushort_split)

lemma grain_u16_any:
  "grain_u16 u (Read d) = (case rest d of a # b # _ \<Rightarrow> Inr (push_bit 8 (ucast a) + ucast b, Read (advance 2 d))
     | _ \<Rightarrow> Inl Undefined)"
  by (auto simp: grain_u16_def Let_def read_byte_rest split: list.splits)

interpretation short: grainable grain_u16 be16 "\<lambda>_. True"
proof unfold_locales
  show "\<exists>n>0. c = Read (advance n d) \<and> n \<le> length (rest d)"
    if "grain_u16 u (Read d) = Inr (x, c)" for u x d c
    using that by (auto simp: grain_u16_def Let_def read_byte_rest split: list.splits intro!: exI [of _ 2])
  show "no_throw (grain_u16 u (Read d))" for u d
    by (auto simp: grain_u16_def Let_def read_byte_rest split: list.splits)
qed (simp_all add: grain_u16_write grain_u16_read)

text \<open>A container with its length in front satisfies the contract when its elements do.\<close>

context grainable begin

lemma vector_as_grainable:
  fixes gi :: "'w::len word grain"
  assumes "grainable gi enc_num (\<lambda>_. True)"
  shows "grainable (grain_vector_as gi grain z) (\<lambda>vs. enc_num (word_of_nat (length vs)) @ concat (map enc vs))
     (\<lambda>vs. length vs < 2 ^ LENGTH('w) \<and> list_all ok vs)"
proof
  note num = grainable.writes [OF assms] grainable.reads [OF assms] grainable.progress [OF assms] grainable.faults [OF assms]
  have n: "unat (word_of_nat (length vs) :: 'w word) = length vs" if "length vs < 2 ^ LENGTH('w) \<and> list_all ok vs" for vs
    using that by (simp add: unat_of_nat)
  show "grain_vector_as gi grain z vs (Write w)
      = Inr (vs, Write (emit (enc_num (word_of_nat (length vs)) @ concat (map enc vs)) w))"
    if "length vs < 2 ^ LENGTH('w) \<and> list_all ok vs" for vs w
    using that by (simp add: grain_vector_as_def num(1) each_write n [OF that])
  show "grain_vector_as gi grain z us (Read d)
      = Inr (vs, Read (advance (length (enc_num (word_of_nat (length vs)) @ concat (map enc vs))) d))"
    if "length vs < 2 ^ LENGTH('w) \<and> list_all ok vs" "rest d = (enc_num (word_of_nat (length vs)) @ concat (map enc vs)) @ bs"
    for vs us d bs
  proof -
    let ?d = "advance (length (enc_num (word_of_nat (length vs)))) d"
    have "gi v (Read d) = Inr (word_of_nat (length vs), Read ?d)" for v
      using that(2) by (intro num(2)) simp_all
    moreover have "rest ?d = concat (map enc vs) @ bs" using that(2) by simp
    ultimately show ?thesis
      using each_read [OF conjunct2 [OF that(1)]] n [OF that(1)] by (simp add: grain_vector_as_def)
  qed
  show "\<exists>n>0. c = Read (advance n d) \<and> n \<le> length (rest d)"
    if "grain_vector_as gi grain z us (Read d) = Inr (xs, c)" for us xs d c
  proof -
    from that obtain k c1 us' where 1: "gi (word_of_nat (length us)) (Read d) = Inr (k, c1)"
      and 2: "grain_each grain us' c1 = Inr (xs, c)"
      by (auto simp: grain_vector_as_def Let_def returned)
    from num(3) [OF 1] obtain n where n: "n > 0" "c1 = Read (advance n d)" "n \<le> length (rest d)" by blast
    from each_progress [of us' "advance n d"] 2 n obtain m where
      "c = Read (advance (n + m) d)" "m \<le> length (rest d) - n" by auto
    with n show ?thesis by (intro exI [of _ "n + m"]) auto
  qed
  show "no_throw (grain_vector_as gi grain z us (Read d))" for us d
  proof -
    have "no_throw (grain_each grain vs c)" if "gi v (Read d) = Inr (k, c)" for vs v k c
      using num(3) [OF that] each_faults by auto
    then show ?thesis using num(4) by (auto simp: grain_vector_as_def Let_def no_throw_bindE)
  qed
qed

lemma vector_grainable:
  "grainable (grain_vector grain z) (\<lambda>vs. be16 (word_of_nat (length vs)) @ concat (map enc vs))
     (\<lambda>vs. length vs < 2 ^ 16 \<and> list_all ok vs)"
  using vector_as_grainable [OF short.grainable_axioms, of z] by (simp add: grain_vector_def [abs_def])

end

definition string_ok :: "string \<Rightarrow> bool" where
  "string_ok s \<longleftrightarrow> length s < 2 ^ 16"

definition enc_string :: "string \<Rightarrow> ubyte list" where
  "enc_string s = be16 (word_of_nat (length s)) @ map byte_of_char s"

lemma concat_singletons: "concat (map (\<lambda>x. [f x]) xs) = map f xs"
  by (induction xs) simp_all

interpretation str: grainable grain_string enc_string string_ok
  using chr.vector_grainable [of "CHR 0x00"]
  by (simp add: grain_string_def [abs_def] enc_string_def [abs_def] string_ok_def [abs_def]
      concat_singletons list_all_def)

lemma length_enc_string [simp]: "length (enc_string s) = length s + 2"
  by (simp add: enc_string_def)

text \<open>The four bytes of a 32-bit integer.\<close>

definition be32 :: "uint \<Rightarrow> ubyte list" where
  "be32 v = [ucast (drop_bit 24 v), ucast (drop_bit 16 v), ucast (drop_bit 8 v), ucast (v AND 255)]"

lemma uint_split:
  "push_bit 24 (ucast (ucast (drop_bit 24 (v :: uint)) :: ubyte)) + push_bit 16 (ucast (ucast (drop_bit 16 v) :: ubyte))
     + push_bit 8 (ucast (ucast (drop_bit 8 v) :: ubyte)) + ucast (ucast (v AND 255) :: ubyte) = v"
proof -
  have or: "push_bit 24 (ucast (ucast (drop_bit 24 v) :: ubyte)) OR push_bit 16 (ucast (ucast (drop_bit 16 v) :: ubyte))
     OR push_bit 8 (ucast (ucast (drop_bit 8 v) :: ubyte)) OR ucast (ucast (v AND 255) :: ubyte) = v"
    unfolding low_byte_mask
  proof (rule bit_word_eqI)
    fix n assume "n < LENGTH(32)"
    consider "n < 8" | "8 \<le> n" "n < 16" | "16 \<le> n" "n < 24" | "24 \<le> n" by linarith
    then show "bit (push_bit 24 (ucast (ucast (drop_bit 24 v) :: ubyte)) OR push_bit 16 (ucast (ucast (drop_bit 16 v) :: ubyte))
        OR push_bit 8 (ucast (ucast (drop_bit 8 v) :: ubyte)) OR ucast (ucast (v AND mask 8) :: ubyte) :: uint) n = bit v n"
      by cases (use \<open>n < LENGTH(32)\<close> in \<open>auto simp: bit_simps\<close>)
  qed
  show ?thesis
    by (subst disjunctive_add, force simp: bit_simps)+ (use or in \<open>simp add: or.assoc\<close>)
qed

lemma grain_u32_write: "grain_u32 v (Write w) = Inr (v, Write (emit (be32 v) w))"
  by (simp add: grain_u32_def Let_def emit_def be32_def uint_split)

lemma grain_u32_read: "rest d = be32 v @ bs \<Longrightarrow> grain_u32 u (Read d) = Inr (v, Read (advance 4 d))"
  by (simp add: grain_u32_def Let_def be32_def read_byte_Cons uint_split)

interpretation word: grainable grain_u32 be32 "\<lambda>_. True"
proof unfold_locales
  show "\<exists>n>0. c = Read (advance n d) \<and> n \<le> length (rest d)"
    if "grain_u32 u (Read d) = Inr (x, c)" for u x d c
    using that by (auto simp: grain_u32_def Let_def read_byte_rest split: list.splits intro!: exI [of _ 4])
  show "no_throw (grain_u32 u (Read d))" for u d
    by (auto simp: grain_u32_def Let_def read_byte_rest split: list.splits)
qed (simp_all add: grain_u32_write grain_u32_read be32_def)

text \<open>The signed integers are the unsigned ones of their width.\<close>

lemma signed_roundtrip:
  "signed_take_bit 7 v = v \<Longrightarrow> rest d = [word_of_int v] @ bs \<Longrightarrow> grain_i8 u (Read d) = Inr (v, Read (advance 1 d))"
  "signed_take_bit 15 v = v \<Longrightarrow> rest d = be16 (word_of_int v) @ bs \<Longrightarrow> grain_i16 u (Read d) = Inr (v, Read (advance 2 d))"
  "signed_take_bit 31 v = v \<Longrightarrow> rest d = be32 (word_of_int v) @ bs \<Longrightarrow> grain_i32 u (Read d) = Inr (v, Read (advance 4 d))"
  using byte.reads [where v = "word_of_int v" and d = d and bs = bs and u = "word_of_int u"] grain_u16_read [of d "word_of_int v" bs] grain_u32_read [of d "word_of_int v" bs]
  by (simp_all add: grain_i8_def grain_i16_def grain_i32_def sint_sbintrunc')

section \<open>Properties\<close>

text \<open>
  Passing a 64-bit integer, signed or not, or a floating-point number through a serialiser never
  comes to an orderly end: after the eight bytes a byte is shifted as an \<^verbatim>\<open>int\<close> by 56 places,
  which is undefined.
\<close>

lemma wide_grain_undefined:
  "grain_u64 val c = Inl Undefined \<and> grain_i64 n c = Inl Undefined \<and> grain_double object c = Inl Undefined"
proof -
  have "grain_object_bytes is v c = Inl e \<Longrightarrow> e = Undefined" for "is" v c e
  proof (induction "is" v c rule: grain_object_bytes.induct)
    case (2 i "is" v c)
    show ?case
    proof (cases "grainByte (object_byte v i) c")
      case (Inl e')
      then have "e' = Undefined" by (cases c) (auto simp: read_byte_def split: if_splits)
      with Inl "2.prems" show ?thesis by simp
    next
      case (Inr bc)
      with "2.IH" [OF Inr] "2.prems" show ?thesis by (cases bc) auto
    qed
  qed simp
  moreover have "sum_object_bytes (rev [0..<8]) v 0 = Inl Undefined" for v
    by (simp add: upt_rec int_shl_def)
  ultimately have "grain_u64 v c = Inl Undefined" for v
    by (cases "grain_object_bytes (rev [0..<8]) v c") (auto simp: grain_u64_def dest: spec)
  then show ?thesis by (simp add: grain_i64_def grain_double_def)
qed

end
