(* ===== verification/Bits.thy ===== *)
theory Bits
  imports Grain
begin

text \<open>
  Bit fields of \<^verbatim>\<open>cereal\<close>: \<^verbatim>\<open>Decerealiser::readBits\<close> against a reference reader of the
  bit stream (most significant bit of each byte first), and the effect of
  \<^verbatim>\<open>Cerealiser::writeBits\<close> on a field that stays inside the byte under construction, that
  fills it, or that runs over into the next one.
\<close>

section \<open>Bit lists\<close>

definition msb_bits :: "nat \<Rightarrow> 'a::semiring_bits \<Rightarrow> bool list" where
  "msb_bits n v = map (bit v) (rev [0..<n])"

lemma length_msb_bits [simp]: "length (msb_bits n v) = n"
  by (simp add: msb_bits_def)

lemma msb_bits_nth [simp]: "i < n \<Longrightarrow> msb_bits n v ! i = bit v (n - 1 - i)"
  by (simp add: msb_bits_def rev_nth)

lemma msb_bits_append:
  fixes v1 v2 :: "'a::len word"
  assumes "\<And>i. b \<le> i \<Longrightarrow> \<not> bit v2 i" and "a + b \<le> LENGTH('a)"
  shows "msb_bits (a + b) (push_bit b v1 OR v2) = msb_bits a v1 @ msb_bits b v2"
  using assms
  by (intro nth_equalityI) (auto simp: nth_append bit_simps not_less diff_diff_add add.commute)

lemma msb_bits_inject:
  fixes v w :: "'a::len word"
  assumes "msb_bits n v = msb_bits n w" and "\<And>i. n \<le> i \<Longrightarrow> \<not> bit v i" and "\<And>i. n \<le> i \<Longrightarrow> \<not> bit w i"
  shows "v = w"
proof (rule bit_word_eqI)
  fix i
  show "bit v i = bit w i"
  proof (cases "i < n")
    case True
    then have "msb_bits n v ! (n - 1 - i) = bit v i" "msb_bits n w ! (n - 1 - i) = bit w i"
      by simp_all
    with assms(1) show ?thesis by simp
  qed (use assms in auto)
qed

section \<open>Reading\<close>

definition reader_ok :: "decerealiser \<Rightarrow> bool" where
  "reader_ok d \<longleftrightarrow> 0 \<le> d_bitIndex d \<and> d_bitIndex d \<le> 8"

text \<open>The bits a reader has in front of it, once a current byte is loaded and in general.\<close>

definition loaded_bits :: "decerealiser \<Rightarrow> bool list" where
  "loaded_bits d = drop (nat (d_bitIndex d)) (msb_bits 8 (d_currentByte d))
     @ concat (map (msb_bits 8) (rest d))"

definition bit_stream :: "decerealiser \<Rightarrow> bool list" where
  "bit_stream d = (if d_bitIndex d = 0 then concat (map (msb_bits 8) (rest d)) else loaded_bits d)"

lemma mask_shr:
  assumes "0 \<le> n" "n \<le> 8"
  shows "int_shr 255 (8 - n) = Inr (mask (nat n))"
proof -
  from assms have "n = 0 \<or> n = 1 \<or> n = 2 \<or> n = 3 \<or> n = 4 \<or> n = 5 \<or> n = 6 \<or> n = 7 \<or> n = 8" by arith
  then show ?thesis by (elim disjE) (simp_all add: int_shr_def mask_eq_exp_minus_1)
qed

lemma read_within_eq:
  assumes "0 \<le> k" "0 \<le> n" "k + n \<le> 8" "d_bitIndex d = k"
  shows "read_within n d =
    Inr (ucast (drop_bit (nat (8 - k - n)) (d_currentByte d)) AND mask (nat n), d\<lparr>d_bitIndex := k + n\<rparr>)"
proof -
  have "int_shr (Word.uint (d_currentByte d)) (8 - (k + n))
      = Inr (Word.uint (drop_bit (nat (8 - k - n)) (d_currentByte d)))"
    using assms uint_ubyte_bounds [of "d_currentByte d"]
    by (simp add: int_shr_def unsigned_drop_bit_eq take_bit_int_eq_self diff_diff_add
        flip: drop_bit_eq_div)
  moreover have "word_of_int (Word.uint w AND mask m) = (ucast w AND mask m :: uint)"
    for w :: ubyte and m
    by (rule bit_word_eqI) (auto simp: bit_simps)
  ultimately show ?thesis
    using assms by (simp add: read_within_def mask_shr)
qed

lemma read_within_bits:
  assumes "reader_ok d" "0 \<le> n" "d_bitIndex d + n \<le> 8"
  obtains v where "read_within n d = Inr (v, d\<lparr>d_bitIndex := d_bitIndex d + n\<rparr>)"
    "\<And>i. nat n \<le> i \<Longrightarrow> \<not> bit v i" "msb_bits (nat n) v = take (nat n) (loaded_bits d)"
proof -
  define k where "k = nat (d_bitIndex d)"
  define m where "m = nat n"
  have k: "d_bitIndex d = int k" "n = int m" "k + m \<le> 8"
    using assms by (auto simp: k_def m_def reader_ok_def nat_add_distrib)
  let ?v = "ucast (drop_bit (8 - k - m) (d_currentByte d)) AND mask m :: uint"
  have "nat (8 - int k - int m) = 8 - k - m" by simp
  with read_within_eq [of "int k" n d] k
  have "read_within n d = Inr (?v, d\<lparr>d_bitIndex := d_bitIndex d + n\<rparr>)" by simp
  moreover have "msb_bits m ?v = take m (loaded_bits d)"
    using k by (intro nth_equalityI)
      (auto simp: loaded_bits_def nth_append bit_simps intro!: arg_cong [where f = "bit _"])
  ultimately show thesis
    using k by (intro that) (auto simp: bit_simps)
qed

lemma readBitsHelper_stream:
  assumes "reader_ok d" "0 \<le> n" "n \<le> 32" "n < 32 \<or> d_bitIndex d < 8" "nat n \<le> length (loaded_bits d)"
  shows "\<exists>v d'. readBitsHelper n d = Inr (v, d') \<and> (\<forall>i\<ge>nat n. \<not> bit v i)
    \<and> msb_bits (nat n) v = take (nat n) (loaded_bits d) \<and> loaded_bits d' = drop (nat n) (loaded_bits d)
    \<and> reader_ok d' \<and> (0 < n \<longrightarrow> 0 < d_bitIndex d')"
  using assms
proof (induction n d rule: readBitsHelper.induct)
  case (1 n d)
  show ?case
  proof (cases "d_bitIndex d + n > 8")
    case False
    with "1.prems" obtain v where v: "read_within n d = Inr (v, d\<lparr>d_bitIndex := d_bitIndex d + n\<rparr>)"
      "\<And>i. nat n \<le> i \<Longrightarrow> \<not> bit v i" "msb_bits (nat n) v = take (nat n) (loaded_bits d)"
      by (auto elim: read_within_bits)
    with False "1.prems" show ?thesis
      by (subst readBitsHelper.simps)
         (auto simp: loaded_bits_def rest_def reader_ok_def nat_add_distrib add.commute)
  next
    case True
    define a where "a = nat (8 - d_bitIndex d)"
    define b where "b = nat (d_bitIndex d + n - 8)"
    have ab: "8 - d_bitIndex d = int a" "d_bitIndex d + n - 8 = int b" "nat n = a + b" "0 < b" "b < 32" "a + b \<le> 32"
      using True "1.prems" by (auto simp: a_def b_def reader_ok_def)
    have d8: "d_bitIndex d + int a = 8" using ab by simp
    obtain v1 where v1: "read_within (int a) d = Inr (v1, d\<lparr>d_bitIndex := 8\<rparr>)"
      "\<And>i. a \<le> i \<Longrightarrow> \<not> bit v1 i" "msb_bits a v1 = take a (loaded_bits d)"
      using read_within_bits [of d "int a"] "1.prems"(1) d8 by auto
    then have h1: "readBitsHelper (int a) d = Inr (v1, d\<lparr>d_bitIndex := 8\<rparr>)"
      using d8 by (subst readBitsHelper.simps) simp
    have la: "length (drop (nat (d_bitIndex d)) (msb_bits 8 (d_currentByte d))) = a"
      using "1.prems" by (simp add: a_def reader_ok_def nat_diff_distrib)
    have "rest d \<noteq> []"
      using "1.prems" ab la by (auto simp: loaded_bits_def)
    then obtain c cs where c: "rest d = c # cs" by (cases "rest d") auto
    define d2 where "d2 = advance 1 (d\<lparr>d_bitIndex := 0, d_currentByte := c\<rparr>)"
    have rb: "read_byte (d\<lparr>d_bitIndex := 0\<rparr>) = Inr (c, advance 1 (d\<lparr>d_bitIndex := 0\<rparr>))"
      using c by (simp add: read_byte_rest rest_def)
    then have rb': "read_byte ((d\<lparr>d_bitIndex := 8\<rparr>)\<lparr>d_bitIndex := 0\<rparr>)
        = Inr (c, advance 1 (d\<lparr>d_bitIndex := 0\<rparr>))" by simp
    have d2: "(advance 1 (d\<lparr>d_bitIndex := 0\<rparr>))\<lparr>d_currentByte := c\<rparr> = d2"
      by (simp add: d2_def advance_def)
    have r2: "rest d2 = cs" using c by (simp add: d2_def)
    have s2: "loaded_bits d2 = drop a (loaded_bits d)"
      using la c r2 by (simp add: loaded_bits_def) (simp add: d2_def)
    have "reader_ok d2" by (simp add: d2_def reader_ok_def)
    moreover have "nat (int b) \<le> length (loaded_bits d2)"
      using s2 ab "1.prems" by simp
    ultimately obtain v2 d' where ih: "readBitsHelper (int b) d2 = Inr (v2, d')"
      "\<And>i. b \<le> i \<Longrightarrow> \<not> bit v2 i" "msb_bits b v2 = take b (loaded_bits d2)"
      "loaded_bits d' = drop b (loaded_bits d2)" "reader_ok d'" "0 < d_bitIndex d'"
      using "1.IH"(2) [OF True refl refl h1 [folded ab(1)] refl rb' refl] d2 ab by auto
    have "readBitsHelper n d = Inr (push_bit b v1 OR v2, d')"
      using True ab h1 rb d2 ih(1)
      by (subst readBitsHelper.simps) (simp add: uint_shl_def)
    moreover have "msb_bits (a + b) (push_bit b v1 OR v2) = take (a + b) (loaded_bits d)"
      using v1(3) ih(2,3) s2 ab by (simp add: msb_bits_append take_add)
    moreover have "\<not> bit (push_bit b v1 OR v2) i" if "a + b \<le> i" for i
      using that v1(2) [of "i - b"] ih(2) [of i] by (auto simp: bit_simps)
    ultimately show ?thesis
      using ab ih(4-6) s2 by (simp add: add.commute)
  qed
qed

text \<open>
  Reading \<open>n\<close> bits takes the next \<open>n\<close> bits of the stream, wherever the reader stands in the
  current byte.
\<close>

lemma readBits_bit_stream:
  assumes "reader_ok d" "0 < n" "n \<le> 32" "n < 32 \<or> d_bitIndex d < 8" "nat n \<le> length (bit_stream d)"
  shows "\<exists>v d'. readBits n d = Inr (v, d') \<and> (\<forall>i\<ge>nat n. \<not> bit v i)
    \<and> msb_bits (nat n) v = take (nat n) (bit_stream d) \<and> bit_stream d' = drop (nat n) (bit_stream d)
    \<and> reader_ok d'"
proof (cases "d_bitIndex d = 0")
  case False
  then have "bit_stream d = loaded_bits d" by (simp add: bit_stream_def)
  moreover have "readBits n d = readBitsHelper n d" using False by (simp add: readBits_def)
  moreover have "bit_stream d' = loaded_bits d'" if "0 < d_bitIndex d'" for d'
    using that by (simp add: bit_stream_def)
  ultimately show ?thesis
    using readBitsHelper_stream [of d n] assms by auto
next
  case True
  with assms have "rest d \<noteq> []" by (auto simp: bit_stream_def)
  then obtain c cs where c: "rest d = c # cs" by (cases "rest d") auto
  define d2 where "d2 = (advance 1 d)\<lparr>d_currentByte := c\<rparr>"
  have r: "readBits n d = readBitsHelper n d2"
    using True c by (simp add: readBits_def read_byte_Cons d2_def)
  have "rest d2 = cs" using c by (simp add: d2_def)
  then have s: "bit_stream d = loaded_bits d2"
    using True c by (simp add: bit_stream_def loaded_bits_def) (simp add: d2_def)
  have "reader_ok d2" using assms(1) by (simp add: d2_def reader_ok_def)
  moreover have "bit_stream d' = loaded_bits d'" if "0 < d_bitIndex d'" for d'
    using that by (simp add: bit_stream_def)
  moreover have "d_bitIndex d2 < 8" using True by (simp add: d2_def)
  ultimately show ?thesis
    using readBitsHelper_stream [of d2 n] assms(2,3,5) r s by auto
qed

text \<open>Fields inside one byte: the byte is loaded by the first field, or it is the current one.\<close>

lemma readBits_first:
  assumes "d_bitIndex d = 0 \<or> d_bitIndex d = 8" "0 < n" "n \<le> 8" "rest d = c # cs"
  shows "readBits n d = Inr (ucast (drop_bit (nat (8 - n)) c) AND mask (nat n),
    (advance 1 d)\<lparr>d_currentByte := c, d_bitIndex := n\<rparr>)"
proof -
  have w: "read_within n ((advance 1 d)\<lparr>d_currentByte := c, d_bitIndex := 0\<rparr>) =
      Inr (ucast (drop_bit (nat (8 - n)) c) AND mask (nat n),
           (advance 1 d)\<lparr>d_currentByte := c, d_bitIndex := n\<rparr>)"
    using assms by (subst read_within_eq [of 0]) simp_all
  have w0: "read_within 0 (d\<lparr>d_bitIndex := 8\<rparr>) = Inr (0, d\<lparr>d_bitIndex := 8\<rparr>)"
    by (subst read_within_eq [of 8]) simp_all
  from assms(1) show ?thesis
  proof
    assume 0: "d_bitIndex d = 0"
    then have "(advance 1 d)\<lparr>d_currentByte := c\<rparr>
        = (advance 1 d)\<lparr>d_currentByte := c, d_bitIndex := 0\<rparr>" by (simp add: advance_def)
    have "readBits n d = readBitsHelper n ((advance 1 d)\<lparr>d_currentByte := c\<rparr>)"
      using 0 assms by (simp add: readBits_def read_byte_Cons)
    also have "(advance 1 d)\<lparr>d_currentByte := c\<rparr>
        = (advance 1 d)\<lparr>d_currentByte := c, d_bitIndex := 0\<rparr>"
      using 0 by (simp add: advance_def)
    finally show ?thesis
      using w assms by (simp add: readBitsHelper.simps [of n])
  next
    assume 8: "d_bitIndex d = 8"
    then have e: "d\<lparr>d_bitIndex := 8\<rparr> = d" by simp
    have h0: "readBitsHelper 0 d = Inr (0, d)"
      using w0 8 by (simp add: readBitsHelper.simps [of 0] e)
    have o: "(advance 1 (d\<lparr>d_bitIndex := 0\<rparr>))\<lparr>d_currentByte := c\<rparr>
        = (advance 1 d)\<lparr>d_currentByte := c, d_bitIndex := 0\<rparr>"
      by (cases d) (simp add: advance_def)
    have "readBitsHelper n ((advance 1 (d\<lparr>d_bitIndex := 0\<rparr>))\<lparr>d_currentByte := c\<rparr>)
        = Inr (ucast (drop_bit (nat (8 - n)) c) AND mask (nat n),
           (advance 1 d)\<lparr>d_currentByte := c, d_bitIndex := n\<rparr>)"
      unfolding o using w assms by (simp add: readBitsHelper.simps [of n])
    moreover have "read_byte (d\<lparr>d_bitIndex := 0\<rparr>) = Inr (c, advance 1 (d\<lparr>d_bitIndex := 0\<rparr>))"
      using assms by (simp add: read_byte_Cons)
    ultimately show ?thesis
      using 8 assms h0
      by (simp add: readBits_def) (subst readBitsHelper.simps, simp add: uint_shl_def)
  qed
qed

lemma readBits_next:
  assumes "0 < d_bitIndex d" "0 < n" "d_bitIndex d + n \<le> 8"
  shows "readBits n d = Inr (ucast (drop_bit (nat (8 - d_bitIndex d - n)) (d_currentByte d)) AND mask (nat n),
    d\<lparr>d_bitIndex := d_bitIndex d + n\<rparr>)"
  using assms read_within_eq [of "d_bitIndex d" n d]
  by (simp add: readBits_def readBitsHelper.simps [of n])

section \<open>Writing\<close>

lemma int_shl_small:
  assumes "0 \<le> v" "v < 2 ^ m" "0 \<le> n" "nat n + m \<le> 31"
  shows "int_shl v n = Inr (v * 2 ^ nat n)"
proof -
  have nonneg: "0 \<le> v * 2 ^ nat n" using assms by simp
  have "v * 2 ^ nat n < 2 ^ m * 2 ^ nat n" using assms by simp
  also have "\<dots> = 2 ^ (m + nat n)" by (simp add: power_add)
  also have "\<dots> \<le> 2 ^ 31" using assms by (intro power_increasing) auto
  finally have "v * 2 ^ nat n < 2 ^ 31" .
  moreover from this have "signed_take_bit 31 (v * 2 ^ nat n) = v * 2 ^ nat n"
    using order_trans [OF _ nonneg] by (intro signed_take_bit_int_eq_self) auto
  ultimately show ?thesis
    using assms by (simp add: int_shl_def)
qed

text \<open>A field that does not reach the end of the byte.\<close>

lemma writeBits_within:
  assumes "0 \<le> w_bitIndex w" "0 < n" "w_bitIndex w + n < 8" "0 \<le> v" "v < 2 ^ nat n"
  shows "writeBits v n w = Inr (w\<lparr>
    w_currentByte := w_currentByte w OR word_of_int (v * 2 ^ nat (8 - n - w_bitIndex w)),
    w_bitIndex := w_bitIndex w + n\<rparr>)"
  using assms
  by (subst writeBits.simps) (simp add: write_tail_def int_shl_small [of v "nat n"])

text \<open>
  A field that ends exactly at the end of the byte: the byte is complete and written, but the
  body then runs on into the last two statements, so the same field is also left in the next byte
  under construction.
\<close>

lemma writeBits_fill:
  assumes "0 \<le> w_bitIndex w" "0 < n" "w_bitIndex w + n = 8" "0 \<le> v" "v < 2 ^ nat n"
  shows "writeBits v n w = Inr ((emit [w_currentByte w OR word_of_int v] w)\<lparr>
    w_currentByte := word_of_int (v * 2 ^ nat (w_bitIndex w)), w_bitIndex := n\<rparr>)"
proof -
  from assms have "8 - n = w_bitIndex w" "nat (w_bitIndex w) + nat n \<le> 31" by linarith+
  with assms show ?thesis
    by (subst writeBits.simps)
       (simp add: write_tail_def int_shl_small [of v "nat n"] int_shr_def emit_def)
qed

text \<open>A field that runs over into the next byte, but not to its end.\<close>

lemma writeBits_over:
  assumes "0 \<le> w_bitIndex w" "8 < w_bitIndex w + n" "w_bitIndex w + n < 16" "0 \<le> v"
  defines "r \<equiv> w_bitIndex w + n - 8"
  shows "writeBits v n w = Inr ((emit [w_currentByte w OR word_of_int (v div 2 ^ nat r)] w)\<lparr>
    w_currentByte := word_of_int (v mod 2 ^ nat r * 2 ^ nat (8 - r)), w_bitIndex := r\<rparr>)"
proof -
  have r: "0 < r" "r < 8" using assms by (auto simp: r_def)
  let ?m = "v AND mask (nat r)"
  have m: "?m = v mod 2 ^ nat r" by (simp add: take_bit_eq_mod flip: take_bit_eq_mask)
  have "v mod 2 ^ nat r < 2 ^ nat r" by simp
  also have "\<dots> \<le> (2 :: int) ^ 8" using r by (intro power_increasing) auto
  finally have b: "v mod 2 ^ nat r < 2 ^ nat r" "v mod 2 ^ nat r < 2 ^ 8" by simp_all
  have u: "Word.uint (word_of_int ?m :: ubyte) = v mod 2 ^ nat r"
    using b by (simp add: m uint_word_of_int_eq take_bit_int_eq_self)
  have "writeBits (v mod 2 ^ nat r) r ((emit [w_currentByte w OR word_of_int (v div 2 ^ nat r)] w)
      \<lparr>w_currentByte := 0, w_bitIndex := 0\<rparr>)
    = Inr ((emit [w_currentByte w OR word_of_int (v div 2 ^ nat r)] w)\<lparr>
        w_currentByte := word_of_int (v mod 2 ^ nat r * 2 ^ nat (8 - r)), w_bitIndex := r\<rparr>)"
    using r b by (subst writeBits_within) simp_all
  moreover have "int_shr v r = Inr (v div 2 ^ nat r)" using r by (simp add: int_shr_def)
  ultimately show ?thesis
    using assms(2) r u mask_shr [of r]
    by (subst writeBits.simps) (simp add: r_def [symmetric] emit_def)
qed

section \<open>Properties\<close>

text \<open>
  C24. A reader that has at least \<open>n\<close> bits left, where \<open>n\<close> is between 1 and 32, returns the next
  \<open>n\<close> bits of its bytes, most significant first, across byte boundaries, and moves exactly \<open>n\<close>
  bits. Left out is the one case of 32 bits where all the bits of the current byte have been read; there the
  value is shifted by its whole width, which is undefined.
\<close>

theorem bits_read_in_order:
  assumes "reader_ok d" "0 < n" "n \<le> 32" "n < 32 \<or> d_bitIndex d < 8" "nat n \<le> length (bit_stream d)"
  shows "\<exists>v d'. readBits n d = Inr (v, d') \<and> (\<forall>i\<ge>nat n. \<not> bit v i)
    \<and> msb_bits (nat n) v = take (nat n) (bit_stream d) \<and> bit_stream d' = drop (nat n) (bit_stream d)
    \<and> reader_ok d'"
  using assms by (rule readBits_bit_stream)

theorem bits_read_in_order_witness:
  "\<exists>v d'. readBits 9 (decerealiser_of [0x9e, 0xea]) = Inr (v, d') \<and> msb_bits 9 v =
     [True, False, False, True, True, True, True, False, True] \<and>
     bit_stream d' = [True, True, False, True, False, True, False]"
proof -
  have "bit_stream (decerealiser_of [0x9e, 0xea]) = [True, False, False, True, True, True, True, False,
      True, True, True, False, True, False, True, False]"
    by (simp add: bit_stream_def loaded_bits_def decerealiser_of_def rest_def msb_bits_def upt_rec)
  with bits_read_in_order [of "decerealiser_of [0x9e, 0xea]" 9] show ?thesis
    by (simp add: reader_ok_def decerealiser_of_def) blast
qed

text \<open>
  The cases left out: no bits at a byte boundary take a byte from the stream all the same, and
  32 bits behind a byte that has been read to its end shift by 32.
\<close>

lemma no_bits_take_a_byte:
  assumes "d_bitIndex d = 0" "rest d = b # bs"
  shows "readBits 0 d = Inr (0, (advance 1 d)\<lparr>d_currentByte := b\<rparr>)"
proof -
  have "read_within 0 ((advance 1 d)\<lparr>d_currentByte := b\<rparr>) = Inr (0, (advance 1 d)\<lparr>d_currentByte := b\<rparr>)"
    using read_within_eq [of 0 0 "(advance 1 d)\<lparr>d_currentByte := b\<rparr>"] assms(1) by (simp add: advance_def)
  then show ?thesis
    using assms by (simp add: readBits_def read_byte_Cons readBitsHelper.simps [of 0])
qed

lemma readBitsHelper_faults: "readBitsHelper n d = Inl e \<Longrightarrow> e = Undefined"
proof (induction n d arbitrary: e rule: readBitsHelper.induct)
  case (1 n d)
  show ?case
  proof (cases "d_bitIndex d + n > 8")
    case False
    with "1.prems" show ?thesis
      by (subst (asm) readBitsHelper.simps)
         (auto simp: read_within_def int_shr_def bindE_def Let_def split: sum.splits if_splits)
  next
    case True
    show ?thesis
    proof (cases "readBitsHelper (8 - d_bitIndex d) d")
      case (Inl e')
      with "1.IH"(1) [OF True refl refl Inl] "1.prems" True show ?thesis
        by (subst (asm) readBitsHelper.simps) simp
    next
      case h1: (Inr r)
      then obtain v1 d1 where r: "r = (v1, d1)" by (cases r)
      show ?thesis
      proof (cases "read_byte (d1\<lparr>d_bitIndex := 0\<rparr>)")
        case (Inl e')
        with "1.prems" True h1 r show ?thesis
          by (subst (asm) readBitsHelper.simps) (auto simp: read_byte_def split: if_splits)
      next
        case (Inr q)
        then obtain b d2 where q: "q = (b, d2)" by (cases q)
        note ih = "1.IH"(2) [OF True refl refl h1 [unfolded r] refl Inr [unfolded q] refl]
        from "1.prems" True h1 r Inr q ih show ?thesis
          by (subst (asm) readBitsHelper.simps)
             (auto simp: uint_shl_def bindE_def Let_def split: sum.splits if_splits)
      qed
    qed
  qed
qed

lemma whole_word_undefined:
  assumes "d_bitIndex d = 8"
  shows "readBits 32 d = Inl Undefined"
proof -
  have "readBitsHelper 0 d = Inr (0, d)"
    using read_within_eq [of 8 0 d] assms by (simp add: readBitsHelper.simps [of 0])
  then have "readBitsHelper 32 d \<noteq> Inr r" for r
    using assms by (subst readBitsHelper.simps) (auto simp: returned uint_shl_def)
  then show ?thesis
    using assms readBitsHelper_faults [of 32 d] by (cases "readBitsHelper 32 d") (auto simp: readBits_def)
qed

text \<open>
  Bits that fill a byte exactly are emitted with it and stay in the current byte, from
  where they get into the next byte.
\<close>

lemma full_byte_written_twice:
  assumes "0 \<le> w_bitIndex w" "0 < n" "w_bitIndex w + n = 8" "0 \<le> v" "v < 2 ^ nat n"
  shows "writeBits v n w = Inr (w\<lparr>w_bytes := w_bytes w @ [w_currentByte w OR word_of_int v],
    w_currentByte := word_of_int (v * 2 ^ nat (w_bitIndex w)), w_bitIndex := n\<rparr>)"
  using writeBits_fill [OF assms] by (cases w) (simp add: emit_def)

lemma full_byte_written_twice_witness:
  "writeBits 15 4 \<lparr>w_bytes = [], w_currentByte = 0x40, w_bitIndex = 4\<rparr>
     = Inr \<lparr>w_bytes = [0x4f], w_currentByte = 0xf0, w_bitIndex = 4\<rparr>"
  using full_byte_written_twice [of "\<lparr>w_bytes = [], w_currentByte = 0x40, w_bitIndex = 4\<rparr>" 4 15] by simp

end
