(* ===== verification/Message.thy ===== *)
theory Message
  imports Bits
begin

text \<open>
  The MQTT messages of \<^verbatim>\<open>src/src/message.hpp\<close> and \<^verbatim>\<open>message.cpp\<close>: their fields,
  constructors and \<^verbatim>\<open>cerealise\<close> members, and the two functions that look into the bytes of
  a message without decoding it, \<^verbatim>\<open>getMessageType\<close> and \<^verbatim>\<open>getPublishTopic\<close>.

  A \<^verbatim>\<open>cerealise(Cereal&)\<close> member takes the object and the cereal and returns both.
\<close>

section \<open>Message types\<close>

datatype mqtt_type = RESERVED1 | CONNECT | CONNACK | PUBLISH | PUBACK | PUBREC | PUBREL | PUBCOMP
  | SUBSCRIBE | SUBACK | UNSUBSCRIBE | UNSUBACK | PINGREQ | PINGRESP | DISCONNECT | RESERVED2

fun type_code :: "mqtt_type \<Rightarrow> uint" where
  "type_code RESERVED1 = 0" | "type_code CONNECT = 1" | "type_code CONNACK = 2"
| "type_code PUBLISH = 3" | "type_code PUBACK = 4" | "type_code PUBREC = 5"
| "type_code PUBREL = 6" | "type_code PUBCOMP = 7" | "type_code SUBSCRIBE = 8"
| "type_code SUBACK = 9" | "type_code UNSUBSCRIBE = 10" | "type_code UNSUBACK = 11"
| "type_code PINGREQ = 12" | "type_code PINGRESP = 13" | "type_code DISCONNECT = 14"
| "type_code RESERVED2 = 15"

text \<open>
  \<^verbatim>\<open>static_cast<MqttType>(v)\<close>. Every cast of the program is of a four-bit value, so the last
  branch is the value 15.
\<close>

definition type_of_code :: "uint \<Rightarrow> mqtt_type" where
  "type_of_code v = (if v = 0 then RESERVED1 else if v = 1 then CONNECT else if v = 2 then CONNACK
     else if v = 3 then PUBLISH else if v = 4 then PUBACK else if v = 5 then PUBREC
     else if v = 6 then PUBREL else if v = 7 then PUBCOMP else if v = 8 then SUBSCRIBE
     else if v = 9 then SUBACK else if v = 10 then UNSUBSCRIBE else if v = 11 then UNSUBACK
     else if v = 12 then PINGREQ else if v = 13 then PINGRESP else if v = 14 then DISCONNECT
     else RESERVED2)"

definition grainBits_type :: "mqtt_type \<Rightarrow> int \<Rightarrow> cereal \<Rightarrow> (mqtt_type \<times> cereal) result" where
  "grainBits_type val bits c =
     bindE (grainBits (type_code val) bits c) (\<lambda>(realVal, c). Inr (type_of_code realVal, c))"

section \<open>The fixed header\<close>

record mqtt_fixed_header =
  h_type :: mqtt_type
  h_dup :: bool
  h_qos :: ubyte
  h_retain :: bool
  h_remaining :: uint

definition new_fixed_header :: mqtt_fixed_header where
  "new_fixed_header = \<lparr>h_type = RESERVED1, h_dup = False, h_qos = 0, h_retain = False, h_remaining = 0\<rparr>"

definition new_header :: "mqtt_type \<Rightarrow> bool \<Rightarrow> ubyte \<Rightarrow> bool \<Rightarrow> uint \<Rightarrow> mqtt_fixed_header" where
  [simp]: "new_header t d q rt re = \<lparr>h_type = t, h_dup = d, h_qos = q, h_retain = rt, h_remaining = re\<rparr>"

definition header_size :: int where
  "header_size = 2"

text \<open>
  \<^verbatim>\<open>getRemainingSize\<close>: the loop over the digits. \<^verbatim>\<open>multiplier\<close> is an \<^verbatim>\<open>int\<close>, so the
  product and the step to the next multiplier are undefined above \<^verbatim>\<open>INT_MAX\<close>.
\<close>

definition int_max :: int where
  "int_max = 2 ^ 31 - 1"

function remaining_loop :: "int \<Rightarrow> uint \<Rightarrow> decerealiser \<Rightarrow> (uint \<times> decerealiser) result" where
  "remaining_loop multiplier value d =
     bindE (read_byte d) (\<lambda>(digit, d').
     let part = Word.uint (digit AND 127) * multiplier in
     if part > int_max then Inl Undefined
     else if multiplier * 128 > int_max then Inl Undefined
     else if digit AND 128 \<noteq> 0
       then remaining_loop (multiplier * 128) (value + word_of_int part) d'
       else Inr (value + word_of_int part, d'))"
  by pat_completeness auto
termination
  by (relation "measure (\<lambda>(m, v, d). length (d_bytes d) - d_iterator d)")
     (auto simp: read_byte_def split: if_splits)

declare remaining_loop.simps [simp del]

definition getRemainingSize :: "decerealiser \<Rightarrow> (uint \<times> decerealiser) result" where
  "getRemainingSize d = remaining_loop 1 0 d"

text \<open>\<^verbatim>\<open>setRemainingSize\<close>: the loop that collects the digits, then the loop that writes them.\<close>

function remaining_digits :: "uint \<Rightarrow> ubyte list" where
  "remaining_digits x =
     (let digit = ucast (x mod 128) :: ubyte; x = x div 128 in
      if x > 0 then (digit OR 0x80) # remaining_digits x else [digit])"
  by pat_completeness auto
termination
proof (relation "measure unat")
  fix x digit x' :: uint
  assume "x' = x div 128" and "x' > 0"
  then have "unat x div 128 > 0" "unat x' = unat x div 128"
    by (simp_all add: word_less_nat_alt unat_div)
  then show "(x', x) \<in> measure unat" by (simp add: div_less_dividend)
qed simp

declare remaining_digits.simps [simp del]

definition setRemainingSize :: "mqtt_fixed_header \<Rightarrow> cereal \<Rightarrow> cereal result" where
  "setRemainingSize h c =
     bindE (grain_each grain_u8 (remaining_digits (h_remaining h)) c) (\<lambda>(_, c). Inr c)"

definition header_cerealise :: "mqtt_fixed_header grain" where
  "header_cerealise h c =
     bindE (grainBits_type (h_type h) 4 c) (\<lambda>(ty, c).
     bindE (grainBits_bool (h_dup h) 1 c) (\<lambda>(dup, c).
     bindE (grainBits_u8 (h_qos h) 2 c) (\<lambda>(qos, c).
     bindE (grainBits_bool (h_retain h) 1 c) (\<lambda>(retain, c).
     let h' = h\<lparr>h_type := ty, h_dup := dup, h_qos := qos, h_retain := retain\<rparr> in
     (case c of
        Write _ \<Rightarrow> bindE (setRemainingSize h' c) (\<lambda>c. Inr (h', c))
      | Read d \<Rightarrow> bindE (getRemainingSize d) (\<lambda>(n, d). Inr (h'\<lparr>h_remaining := n\<rparr>, Read d)))))))"

section \<open>CONNECT and CONNACK\<close>

record mqtt_connect =
  cn_header :: mqtt_fixed_header
  protoName :: string
  protoVersion :: ubyte
  hasUserName :: bool
  hasPassword :: bool
  hasWillRetain :: bool
  willQos :: ubyte
  hasWill :: bool
  hasClear :: bool
  cn_reserved :: bool
  keepAlive :: ushort
  clientId :: string
  willTopic :: string
  willMessage :: string
  userName :: string
  password :: string

text \<open>
  \<^verbatim>\<open>MqttConnect(h)\<close> initialises the header and the strings only; the other members keep what
  the memory \<open>m\<close> held.
\<close>

definition new_connect :: "mqtt_connect \<Rightarrow> mqtt_fixed_header \<Rightarrow> mqtt_connect" where
  "new_connect m h = m\<lparr>cn_header := h, protoName := [], clientId := [], willTopic := [],
     willMessage := [], userName := [], password := []\<rparr>"

definition isBadClientId :: "mqtt_connect \<Rightarrow> bool" where
  "isBadClientId m \<longleftrightarrow> length (clientId m) < 1 \<or> length (clientId m) > 23"

definition connect_flags :: "mqtt_connect grain" where
  "connect_flags m c =
     bindE (grainBits_bool (hasUserName m) 1 c) (\<lambda>(un, c).
     bindE (grainBits_bool (hasPassword m) 1 c) (\<lambda>(pw, c).
     bindE (grainBits_bool (hasWillRetain m) 1 c) (\<lambda>(wr, c).
     bindE (grainBits_u8 (willQos m) 2 c) (\<lambda>(wq, c).
     bindE (grainBits_bool (hasWill m) 1 c) (\<lambda>(w, c).
     bindE (grainBits_bool (hasClear m) 1 c) (\<lambda>(cl, c).
     bindE (grainBits_bool (cn_reserved m) 1 c) (\<lambda>(r, c).
     Inr (m\<lparr>hasUserName := un, hasPassword := pw, hasWillRetain := wr, willQos := wq,
            hasWill := w, hasClear := cl, cn_reserved := r\<rparr>, c))))))))"

definition grain_if :: "bool \<Rightarrow> 'a grain \<Rightarrow> 'a grain" where
  "grain_if b g v c = (if b then g v c else Inr (v, c))"

definition connect_cerealise :: "mqtt_connect grain" where
  "connect_cerealise m c =
     bindE (header_cerealise (cn_header m) c) (\<lambda>(h, c).
     bindE (grain_string (protoName m) c) (\<lambda>(pn, c).
     bindE (grain_u8 (protoVersion m) c) (\<lambda>(pv, c).
     bindE (connect_flags (m\<lparr>cn_header := h, protoName := pn, protoVersion := pv\<rparr>) c) (\<lambda>(m, c).
     bindE (grain_u16 (keepAlive m) c) (\<lambda>(ka, c).
     bindE (grain_string (clientId m) c) (\<lambda>(ci, c).
     bindE (grain_if (hasWill m) grain_string (willTopic m) c) (\<lambda>(wt, c).
     bindE (grain_if (hasWill m) grain_string (willMessage m) c) (\<lambda>(wm, c).
     bindE (grain_if (hasUserName m) grain_string (userName m) c) (\<lambda>(un, c).
     bindE (grain_if (hasPassword m) grain_string (password m) c) (\<lambda>(pw, c).
     Inr (m\<lparr>keepAlive := ka, clientId := ci, willTopic := wt, willMessage := wm,
            userName := un, password := pw\<rparr>, c)))))))))))"

datatype connack_code = ACCEPTED | BAD_VERSION | BAD_ID | SERVER_UNAVAILABLE | BAD_USER_OR_PWD | NO_AUTH

fun code_value :: "connack_code \<Rightarrow> uint" where
  "code_value ACCEPTED = 0" | "code_value BAD_VERSION = 1" | "code_value BAD_ID = 2"
| "code_value SERVER_UNAVAILABLE = 3" | "code_value BAD_USER_OR_PWD = 4" | "code_value NO_AUTH = 5"

text \<open>
  The member \<^verbatim>\<open>code\<close> is an \<^verbatim>\<open>int\<close> in memory, of which \<^verbatim>\<open>cerealise\<close> grains the first
  byte (the low one, on a little-endian machine); it is kept as that integer.
\<close>

record mqtt_connack =
  ca_header :: mqtt_fixed_header
  ca_reserved :: ubyte
  ca_code :: uint

definition new_connack :: "connack_code \<Rightarrow> mqtt_connack" where
  "new_connack c = \<lparr>ca_header = new_header CONNACK False 0 False 2, ca_reserved = 0, ca_code = code_value c\<rparr>"

definition connack_cerealise :: "mqtt_connack grain" where
  "connack_cerealise m c =
     bindE (header_cerealise (ca_header m) c) (\<lambda>(h, c).
     bindE (grain_u8 (ca_reserved m) c) (\<lambda>(r, c).
     bindE (grain_u8 (ucast (ca_code m)) c) (\<lambda>(low, c).
     Inr (m\<lparr>ca_header := h, ca_reserved := r, ca_code := (ca_code m AND NOT 255) OR ucast low\<rparr>, c))))"

section \<open>PUBLISH\<close>

record mqtt_publish =
  pub_header :: mqtt_fixed_header
  pub_topic :: string
  pub_payload :: "ubyte list"
  pub_msgId :: ushort

definition new_publish_header :: "mqtt_fixed_header \<Rightarrow> mqtt_publish" where
  "new_publish_header h = \<lparr>pub_header = h, pub_topic = [], pub_payload = [], pub_msgId = 0\<rparr>"

definition new_publish :: "bool \<Rightarrow> ubyte \<Rightarrow> bool \<Rightarrow> string \<Rightarrow> ubyte list \<Rightarrow> ushort \<Rightarrow> mqtt_publish" where
  "new_publish dup qos retain t p mid =
     (let topicLen = word_of_nat (length t) + 2 :: ulong;
          remaining = (if qos \<noteq> 0 then topicLen + 2 else topicLen);
          remaining = remaining + word_of_nat (length p) in
      \<lparr>pub_header = new_header PUBLISH dup qos retain (ucast remaining), pub_topic = t, pub_payload = p, pub_msgId = mid\<rparr>)"

definition new_publish_plain :: "string \<Rightarrow> ubyte list \<Rightarrow> ushort \<Rightarrow> mqtt_publish" where
  "new_publish_plain t p mid = new_publish False 0 False t p mid"

definition is_read :: "cereal \<Rightarrow> bool" where
  "is_read c = (case c of Read _ \<Rightarrow> True | Write _ \<Rightarrow> False)"

text \<open>\<^verbatim>\<open>payload.resize(n)\<close> throws above \<^verbatim>\<open>max_size()\<close>, which is \<^verbatim>\<open>PTRDIFF_MAX\<close>.\<close>

definition vector_resize :: "'a \<Rightarrow> 'a list \<Rightarrow> ulong \<Rightarrow> 'a list result" where
  "vector_resize d xs n = (if unat n > 2 ^ 63 - 1 then Inl LengthError else Inr (resize d xs (unat n)))"

definition publish_cerealise :: "mqtt_publish grain" where
  "publish_cerealise m c =
     bindE (header_cerealise (pub_header m) c) (\<lambda>(h, c).
     bindE (grain_string (pub_topic m) c) (\<lambda>(t, c).
     let payloadLen = ucast (h_remaining h) - (word_of_nat (length t) + 2) :: ulong in
     bindE (if h_qos h \<noteq> 0 then
              if h_remaining h < 7 \<and> is_read c then Inr (pub_msgId m, payloadLen, c)
              else bindE (grain_u16 (pub_msgId m) c) (\<lambda>(mid, c). Inr (mid, payloadLen - 2, c))
            else Inr (pub_msgId m, payloadLen, c)) (\<lambda>(mid, payloadLen, c).
     bindE (if is_read c then vector_resize 0 (pub_payload m) payloadLen else Inr (pub_payload m)) (\<lambda>p.
     bindE (grain_each grain_u8 p c) (\<lambda>(p, c).
     Inr (\<lparr>pub_header = h, pub_topic = t, pub_payload = p, pub_msgId = mid\<rparr>, c))))))"

section \<open>SUBSCRIBE, SUBACK, UNSUBSCRIBE, UNSUBACK\<close>

record topic =
  topic_topic :: string
  topic_qos :: ubyte

definition new_topic :: topic where
  "new_topic = \<lparr>topic_topic = [], topic_qos = 0\<rparr>"

definition topic_cerealise :: "topic grain" where
  "topic_cerealise t c =
     bindE (grain_string (topic_topic t) c) (\<lambda>(s, c).
     bindE (grain_u8 (topic_qos t) c) (\<lambda>(q, c). Inr (\<lparr>topic_topic = s, topic_qos = q\<rparr>, c)))"

record mqtt_subscribe =
  sub_header :: mqtt_fixed_header
  sub_msgId :: ushort
  sub_topics :: "topic list"

definition new_subscribe :: "mqtt_fixed_header \<Rightarrow> mqtt_subscribe" where
  "new_subscribe h = \<lparr>sub_header = h, sub_msgId = 0, sub_topics = []\<rparr>"

definition subscribe_cerealise :: "mqtt_subscribe grain" where
  "subscribe_cerealise m c =
     bindE (header_cerealise (sub_header m) c) (\<lambda>(h, c).
     bindE (grain_u16 (sub_msgId m) c) (\<lambda>(mid, c).
     bindE (grainRawArray topic_cerealise new_topic (sub_topics m) c) (\<lambda>(ts, c).
     Inr (\<lparr>sub_header = h, sub_msgId = mid, sub_topics = ts\<rparr>, c))))"

record mqtt_suback =
  suback_header :: mqtt_fixed_header
  suback_msgId :: ushort
  suback_qos :: "ubyte list"

definition new_suback :: "ushort \<Rightarrow> ubyte list \<Rightarrow> mqtt_suback" where
  "new_suback m q = \<lparr>suback_header = new_header SUBACK False 0 False (word_of_nat (length q) + 2), suback_msgId = m, suback_qos = q\<rparr>"

text \<open>\<^verbatim>\<open>MqttSuback(h)\<close> leaves \<^verbatim>\<open>msgId\<close> as the memory \<open>m\<close> held it.\<close>

definition new_suback_header :: "ushort \<Rightarrow> mqtt_fixed_header \<Rightarrow> mqtt_suback" where
  "new_suback_header m h = \<lparr>suback_header = h, suback_msgId = m, suback_qos = []\<rparr>"

definition suback_cerealise :: "mqtt_suback grain" where
  "suback_cerealise m c =
     bindE (header_cerealise (suback_header m) c) (\<lambda>(h, c).
     bindE (grain_u16 (suback_msgId m) c) (\<lambda>(mid, c).
     bindE (grainRawArray grain_u8 0 (suback_qos m) c) (\<lambda>(q, c).
     Inr (\<lparr>suback_header = h, suback_msgId = mid, suback_qos = q\<rparr>, c))))"

record mqtt_unsubscribe =
  unsub_header :: mqtt_fixed_header
  unsub_msgId :: ushort
  unsub_topics :: "string list"

text \<open>\<^verbatim>\<open>MqttUnsubscribe(h)\<close> leaves \<^verbatim>\<open>msgId\<close> as the memory \<open>m\<close> held it.\<close>

definition new_unsubscribe :: "ushort \<Rightarrow> mqtt_fixed_header \<Rightarrow> mqtt_unsubscribe" where
  "new_unsubscribe m h = \<lparr>unsub_header = h, unsub_msgId = m, unsub_topics = []\<rparr>"

definition unsubscribe_cerealise :: "mqtt_unsubscribe grain" where
  "unsubscribe_cerealise m c =
     bindE (header_cerealise (unsub_header m) c) (\<lambda>(h, c).
     bindE (grain_u16 (unsub_msgId m) c) (\<lambda>(mid, c).
     bindE (grainRawArray grain_string [] (unsub_topics m) c) (\<lambda>(ts, c).
     Inr (\<lparr>unsub_header = h, unsub_msgId = mid, unsub_topics = ts\<rparr>, c))))"

record mqtt_unsuback =
  unsuback_header :: mqtt_fixed_header
  unsuback_msgId :: ushort

definition new_unsuback :: "ushort \<Rightarrow> mqtt_unsuback" where
  "new_unsuback m = \<lparr>unsuback_header = new_header UNSUBACK False 0 False 2, unsuback_msgId = m\<rparr>"

definition new_unsuback_header :: "mqtt_fixed_header \<Rightarrow> mqtt_unsuback" where
  "new_unsuback_header h = \<lparr>unsuback_header = h, unsuback_msgId = 0\<rparr>"

definition unsuback_cerealise :: "mqtt_unsuback grain" where
  "unsuback_cerealise m c =
     bindE (header_cerealise (unsuback_header m) c) (\<lambda>(h, c).
     bindE (grain_u16 (unsuback_msgId m) c) (\<lambda>(mid, c).
     Inr (\<lparr>unsuback_header = h, unsuback_msgId = mid\<rparr>, c)))"

section \<open>Looking into the bytes\<close>

definition getMessageType :: "ubyte span \<Rightarrow> mqtt_type result" where
  "getMessageType bytes =
     bindE (span_at bytes 0) (\<lambda>b. Inr (type_of_code (ucast (drop_bit 4 b))))"

text \<open>
  \<^verbatim>\<open>getPublishTopic\<close>: the length is computed as an \<^verbatim>\<open>int\<close>; \<^verbatim>\<open>&bytes[4]\<close> is the checked
  subscript; the returned span is not checked against the size of the message. A short message is
  printed, for which its bytes are read.
\<close>

definition getPublishTopic :: "ubyte span \<Rightarrow> ubyte span result" where
  "getPublishTopic bytes =
     (if span_size bytes < 4 then bindE (span_elements bytes) (\<lambda>_. Inr default_span)
      else
        bindE (span_at bytes 2) (\<lambda>high.
        bindE (span_at bytes 3) (\<lambda>low.
        let topicLen = Word.uint high * 2 ^ 8 + Word.uint low in
        bindE (span_ref bytes 4) (\<lambda>charPtr. span_of charPtr topicLen))))"

end
