(* ===== verification/MessageFacts.thy ===== *)
theory MessageFacts
  imports Message
begin

text \<open>
  Facts about the fixed header of \<^verbatim>\<open>message.cpp\<close>: the digits of the remaining length and
  the first byte, written and read.
\<close>

section \<open>The remaining length\<close>

lemma bit_128: "bit (128 :: int) n \<longleftrightarrow> n = 7"
proof -
  have "(128 :: int) = 2 ^ 7" by simp
  then show ?thesis by (simp only: bit_exp_iff) auto
qed

lemma uint_digit:
  "Word.uint ((ucast (x mod 128 :: uint) OR 128 :: ubyte) AND 127) = Word.uint x mod 128"
  "Word.uint ((ucast (x mod 128 :: uint) :: ubyte) AND 127) = Word.uint x mod 128"
proof -
  have m: "(127 :: ubyte) = mask 7"
    by (simp add: mask_eq_exp_minus_1)
  have x: "x mod 128 = take_bit 7 x"
    by (simp add: take_bit_eq_mod)
  have "(ucast (x mod 128) OR 128 :: ubyte) AND 127 = ucast (take_bit 7 x)"
    unfolding m x by (rule bit_word_eqI) (auto simp: bit_simps bit_128)
  moreover have "(ucast (x mod 128) :: ubyte) AND 127 = ucast (take_bit 7 x)"
    unfolding m x by (rule bit_word_eqI) (auto simp: bit_simps)
  moreover have "Word.uint (ucast (take_bit 7 x) :: ubyte) = Word.uint x mod 128"
  proof -
    have "Word.uint (ucast (take_bit 7 x) :: ubyte) = take_bit 8 (take_bit 7 (Word.uint x))"
      by (simp only: unsigned_ucast_eq unsigned_take_bit_eq) simp
    also have "\<dots> = Word.uint x mod 128"
    proof -
      have "0 \<le> Word.uint x mod 128" "Word.uint x mod 128 < 128" by simp_all
      then show ?thesis by (simp add: take_bit_eq_mod)
    qed
    finally show ?thesis .
  qed
  ultimately show "Word.uint ((ucast (x mod 128) OR 128 :: ubyte) AND 127) = Word.uint x mod 128"
    and "Word.uint ((ucast (x mod 128) :: ubyte) AND 127) = Word.uint x mod 128"
    by simp_all
qed

lemma digit_continues:
  "(ucast (x mod 128 :: uint) OR 128 :: ubyte) AND 128 \<noteq> 0"
  "(ucast (x mod 128 :: uint) :: ubyte) AND 128 = 0"
proof -
  have x: "x mod 128 = take_bit 7 x"
    by (simp add: take_bit_eq_mod)
  have "bit ((ucast (x mod 128) OR 128 :: ubyte) AND 128) 7"
    by (simp add: bit_simps bit_128)
  then show "(ucast (x mod 128 :: uint) OR 128 :: ubyte) AND 128 \<noteq> 0" by auto
  show "(ucast (x mod 128 :: uint) :: ubyte) AND 128 = 0"
    unfolding x by (rule bit_word_eqI) (auto simp: bit_simps bit_128)
qed

lemma remaining_loop_digits:
  assumes "Word.uint x < 128 ^ (4 - k)" "k \<le> 3" "rest d = remaining_digits x @ bs"
  shows "remaining_loop (128 ^ k) v d =
    Inr (v + x * word_of_int (128 ^ k), advance (length (remaining_digits x)) d)"
  using assms
proof (induction x arbitrary: k v d rule: remaining_digits.induct)
  case (1 x)
  have p: "(128 :: int) ^ k \<le> 128 ^ 3" using "1.prems" by (intro power_increasing) auto
  have q: "Word.uint x mod 128 * 128 ^ k \<le> 127 * 128 ^ 3"
    using p by (intro mult_mono) auto
  have "Word.uint (x mod 128) = Word.uint x mod 128" by (simp add: uint_mod)
  then have w: "word_of_int (Word.uint x mod 128) = x mod 128"
    by (metis word_of_int_uint)
  then have s: "x = word_of_int (Word.uint x mod 128) + (x div 128) * 128"
    by (metis add.commute div_mult_mod_eq)
  have m: "\<not> 128 ^ k * 128 > int_max" and part: "\<not> Word.uint x mod 128 * 128 ^ k > int_max"
    using p q by (simp_all add: int_max_def)
  show ?case
  proof (cases "x div 128 > 0")
    case True
    then have pos: "Word.uint x div 128 > 0"
      by (simp add: word_less_def uint_div)
    have k: "k \<le> 2"
    proof (rule ccontr)
      assume "\<not> k \<le> 2"
      with "1.prems" have "k = 3" by simp
      with "1.prems"(1) pos show False by simp
    qed
    then have "4 - k = Suc (4 - Suc k)" by simp
    then have e: "(128 :: int) ^ (4 - k) = 128 ^ (4 - Suc k) * 128"
      by (simp only: power_Suc2)
    have less: "Word.uint (x div 128) < 128 ^ (4 - Suc k)"
      using "1.prems"(1) unfolding e by (simp add: uint_div div_less_iff_less_mult)
    define b where "b = (ucast (x mod 128) OR 128 :: ubyte)"
    have digits: "remaining_digits x = b # remaining_digits (x div 128)"
      using True by (subst remaining_digits.simps) (simp add: b_def)
    have "remaining_loop (128 ^ Suc k) (v + word_of_int (Word.uint x mod 128 * 128 ^ k)) (advance 1 d)
        = Inr (v + word_of_int (Word.uint x mod 128 * 128 ^ k) + x div 128 * word_of_int (128 ^ Suc k),
               advance (length (remaining_digits (x div 128))) (advance 1 d))"
      using "1.prems"(3) k by (intro "1.IH" [OF refl refl True less]) (simp_all add: digits)
    moreover have "v + word_of_int (Word.uint x mod 128 * 128 ^ k) + x div 128 * word_of_int (128 ^ Suc k)
        = v + x * word_of_int (128 ^ k)"
      by (subst (3) s) (simp add: algebra_simps)
    ultimately show ?thesis
      using "1.prems"(3) m part uint_digit(1) [of x] digit_continues(1) [of x]
      by (subst remaining_loop.simps)
         (simp add: digits read_byte_Cons b_def [symmetric] mult.commute)
  next
    case False
    define b where "b = (ucast (x mod 128) :: ubyte)"
    have digits: "remaining_digits x = [b]"
      using False by (subst remaining_digits.simps) (simp add: b_def)
    have "x div 128 = 0"
      using False by (simp add: word_gt_0)
    with s have "word_of_int (Word.uint x mod 128) = x" by simp
    then have "word_of_int (Word.uint x mod 128 * 128 ^ k) = x * word_of_int (128 ^ k)"
      by (metis wi_hom_mult)
    then show ?thesis
      using "1.prems"(3) m part uint_digit(2) [of x] digit_continues(2) [of x]
      by (subst remaining_loop.simps)
         (simp add: digits read_byte_Cons b_def [symmetric])
  qed
qed
lemma getRemainingSize_digits:
  assumes "x < 2 ^ 28" "rest d = remaining_digits x @ bs"
  shows "getRemainingSize d = Inr (x, advance (length (remaining_digits x)) d)"
  using assms remaining_loop_digits [of x 0 d bs 0]
  by (simp add: getRemainingSize_def word_less_def)

lemma remaining_digits_length:
  "Word.uint x < 128 ^ Suc n \<Longrightarrow> length (remaining_digits x) \<le> Suc n"
proof (induction x arbitrary: n rule: remaining_digits.induct)
  case (1 x)
  show ?case
  proof (cases "x div 128 > 0")
    case True
    then have "Word.uint x div 128 > 0" by (simp add: word_less_def uint_div)
    then have "n \<noteq> 0" using "1.prems" by (cases n) auto
    then obtain m where n: "n = Suc m" by (cases n) auto
    have "Word.uint (x div 128) < 128 ^ Suc m"
      using "1.prems" by (simp add: n uint_div div_less_iff_less_mult mult.commute)
    from "1.IH" [OF refl refl True this] True n show ?thesis
      by (subst remaining_digits.simps) simp
  next
    case False
    then show ?thesis by (subst remaining_digits.simps) simp
  qed
qed

lemma remaining_digits_nonempty: "remaining_digits x \<noteq> []"
  by (subst remaining_digits.simps) (simp add: Let_def)

lemma remaining_digits_single: "x < 128 \<Longrightarrow> remaining_digits x = [ucast x]"
proof -
  assume "x < 128"
  then have "x div 128 = 0" "x mod 128 = x"
    by (simp_all add: word_div_def word_mod_def word_less_def)
  then show ?thesis by (subst remaining_digits.simps) simp
qed

text \<open>Four digits that continue and a fifth one: the multiplier leaves the range of int.\<close>

lemma getRemainingSize_five:
  assumes "rest d = b1 # b2 # b3 # b4 # b5 # bs"
    and "b1 AND 128 \<noteq> 0" "b2 AND 128 \<noteq> 0" "b3 AND 128 \<noteq> 0" "b4 AND 128 \<noteq> 0"
  shows "getRemainingSize d = Inl Undefined"
proof -
  have 7: "Word.uint (b AND 127) \<le> 127" for b :: ubyte
    using word_and_le1 [of b 127] by (simp add: word_le_def)
  have p: "\<not> Word.uint (b AND 127) * m > int_max" if "0 \<le> m" "m \<le> 2 ^ 21" for b :: ubyte and m
  proof -
    have "Word.uint (b AND 127) * m \<le> 127 * 2 ^ 21"
      using 7 [of b] that by (intro mult_mono) auto
    then show ?thesis by (simp add: int_max_def)
  qed
  have step: "remaining_loop m v d = remaining_loop (m * 128) (v + word_of_int (Word.uint (b AND 127) * m)) (advance 1 d)"
    if "rest d = b # cs" "b AND 128 \<noteq> 0" "0 \<le> m" "m \<le> 2 ^ 21" for b cs m v d
    using that p [of m b] by (subst remaining_loop.simps) (simp add: read_byte_Cons int_max_def)
  have last: "remaining_loop (2 ^ 28) v d = Inl Undefined" if "rest d = b # cs" for v d b cs
    using that by (subst remaining_loop.simps) (simp add: read_byte_Cons int_max_def Let_def)
  show ?thesis
    using assms step [of d b1 _ 1] step [of "advance 1 d" b2 _ 128] step [of "advance 2 d" b3 _ 16384]
      step [of "advance 3 d" b4 _ 2097152] last [of "advance 4 d" b5]
    by (simp add: getRemainingSize_def eval_nat_numeral)
qed
section \<open>The fixed header\<close>

lemma sint_small: "Word.uint (v :: uint) < 2 ^ 31 \<Longrightarrow> sint v = Word.uint v"
proof -
  assume "Word.uint v < 2 ^ 31"
  moreover have "- (2 ^ 31) \<le> Word.uint v" using order_trans [of "- (2 ^ 31)" 0 "Word.uint v"] by simp
  ultimately have "signed_take_bit 31 (Word.uint v) = Word.uint v"
    by (intro signed_take_bit_int_eq_self) simp_all
  then show ?thesis by (simp add: sint_uint)
qed

lemma word_shift: "word_of_int (Word.uint (v :: uint) * 2 ^ m) = push_bit m (ucast v :: ubyte)"
  by (simp add: push_bit_eq_mult)

lemma grainBits_within:
  assumes "0 \<le> w_bitIndex w" "0 < n" "w_bitIndex w + n < 8" "Word.uint v < 2 ^ nat n"
  shows "grainBits v n (Write w) = Inr (v, Write (w\<lparr>
    w_currentByte := w_currentByte w OR push_bit (nat (8 - n - w_bitIndex w)) (ucast v),
    w_bitIndex := w_bitIndex w + n\<rparr>))"
proof -
  have "(2 :: int) ^ nat n \<le> 2 ^ 31" using assms by (intro power_increasing) auto
  with assms have "sint v = Word.uint v" by (intro sint_small) simp
  with assms show ?thesis by (simp add: writeBits_within push_bit_eq_mult)
qed

lemma grainBits_fill:
  assumes "0 \<le> w_bitIndex w" "0 < n" "w_bitIndex w + n = 8" "Word.uint v < 2 ^ nat n"
  shows "grainBits v n (Write w) = Inr (v, Write ((emit [w_currentByte w OR ucast v] w)\<lparr>
    w_currentByte := push_bit (nat (w_bitIndex w)) (ucast v), w_bitIndex := n\<rparr>))"
proof -
  have "(2 :: int) ^ nat n \<le> 2 ^ 31" using assms by (intro power_increasing) auto
  with assms have "sint v = Word.uint v" by (intro sint_small) simp
  moreover have "word_of_int (Word.uint v) = (ucast v :: ubyte)" by simp
  ultimately show ?thesis using assms by (simp add: writeBits_fill push_bit_eq_mult)
qed

definition header_byte :: "mqtt_fixed_header \<Rightarrow> ubyte" where
  "header_byte h = push_bit 4 (ucast (type_code (h_type h))) OR push_bit 3 (of_bool (h_dup h))
     OR push_bit 1 (h_qos h) OR of_bool (h_retain h)"

definition enc_header :: "mqtt_fixed_header \<Rightarrow> ubyte list" where
  "enc_header h = header_byte h # remaining_digits (h_remaining h)"

definition header_of_byte :: "ubyte \<Rightarrow> uint \<Rightarrow> mqtt_fixed_header" where
  "header_of_byte b n = \<lparr>h_type = type_of_code (ucast (drop_bit 4 b)), h_dup = bit b 3,
     h_qos = drop_bit 1 b AND 3, h_retain = bit b 0, h_remaining = n\<rparr>"

lemma type_code_less: "type_code t < 16"
  by (cases t) simp_all

lemma type_of_code_code [simp]: "type_of_code (type_code t) = t"
  by (cases t) (simp_all add: type_of_code_def)

lemma take_bit_less: "(v :: 'a::len word) < 2 ^ n \<Longrightarrow> n < LENGTH('a) \<Longrightarrow> n \<le> i \<Longrightarrow> \<not> bit v i"
  by (metis bit_take_bit_iff leD less_mask_eq take_bit_eq_mask)

lemma bit_times_two: "bit (q * 2 :: ubyte) n \<longleftrightarrow> 0 < n \<and> n < 8 \<and> bit q (n - 1)"
  by (cases n) (simp_all add: bit_double_iff mult.commute [of q])

lemma header_of_header_byte:
  assumes "h_qos h < 4"
  shows "header_of_byte (header_byte h) (h_remaining h) = h"
proof -
  have t: "i < 4" if "bit (type_code (h_type h)) i" for i
    using type_code_less [of "h_type h"] that take_bit_less [of "type_code (h_type h)" 4 i] by force
  have q: "i < 2" if "bit (h_qos h) i" for i
    using assms that take_bit_less [of "h_qos h" 2 i] by force
  have "ucast (drop_bit 4 (header_byte h)) = type_code (h_type h)"
    unfolding header_byte_def
    by (rule bit_word_eqI) (force simp: bit_simps bit_times_two dest: t q)
  moreover have "drop_bit 1 (header_byte h) AND mask 2 = h_qos h"
    unfolding header_byte_def
    by (rule bit_word_eqI) (force simp: bit_simps bit_times_two dest: t q)
  moreover have "(3 :: ubyte) = mask 2" by (simp add: mask_eq_exp_minus_1)
  moreover have "bit (header_byte h) 3 = h_dup h" "bit (header_byte h) 0 = h_retain h"
    unfolding header_byte_def using q [of 2] by (auto simp: bit_simps bit_times_two)
  ultimately show ?thesis
    by (simp add: header_of_byte_def)
qed

lemma type_code_bound: "Word.uint (type_code t) < 16"
  using type_code_less [of t] by (simp add: word_less_def)

lemma uint_of_bool_less: "Word.uint (of_bool b :: uint) < 2"
  by (cases b) simp_all

lemma header_write:
  assumes "w_bitIndex w = 0" "w_currentByte w = 0" "h_qos h < 4"
  shows "header_cerealise h (Write w) = Inr (h, Write ((emit (enc_header h) w)\<lparr>
    w_currentByte := push_bit 7 (of_bool (h_retain h)), w_bitIndex := 1\<rparr>))"
proof -
  have q: "Word.uint (ucast (h_qos h) :: uint) < 4"
    using assms(3) take_bit_int_eq_self [of "Word.uint (h_qos h)" 32]
    by (simp add: word_less_def unsigned_ucast_eq)
  have u: "ucast (ucast (h_qos h) :: uint) = h_qos h"
    by (rule bit_word_eqI) (simp add: bit_simps)
  have b: "(of_bool b :: uint) \<noteq> 0 \<longleftrightarrow> b" for b by simp
  note q' = type_code_bound [of "h_type h"] uint_of_bool_less
  show ?thesis
    using assms q q' u
    by (simp add: header_cerealise_def grainBits_type_def grainBits_bool_def grainBits_u8_def
        grainBits_within grainBits_fill setRemainingSize_def byte.each_write concat_singletons
        list_all_def Let_def enc_header_def header_byte_def push_bit_eq_mult
        or.assoc emit_def del: grainBits.simps)
qed

lemma header_read:
  assumes "d_bitIndex d = 0 \<or> d_bitIndex d = 8" "rest d = b # bs"
  shows "header_cerealise u (Read d) =
    bindE (getRemainingSize ((advance 1 d)\<lparr>d_currentByte := b, d_bitIndex := 8\<rparr>))
      (\<lambda>(n, d). Inr (header_of_byte b n, Read d))"
proof -
  let ?d = "\<lambda>k. (advance 1 d)\<lparr>d_currentByte := b, d_bitIndex := k\<rparr>"
  have 1: "readBits 4 d = Inr (ucast (drop_bit 4 b) AND mask 4, ?d 4)"
    using assms by (subst readBits_first) auto
  have 2: "readBits 1 (?d 4) = Inr (ucast (drop_bit 3 b) AND mask 1, ?d 5)"
    "readBits 2 (?d 5) = Inr (ucast (drop_bit 1 b) AND mask 2, ?d 7)"
    "readBits 1 (?d 7) = Inr (ucast (drop_bit 0 b) AND mask 1, ?d 8)"
    by (subst readBits_next; simp)+
  have t: "ucast (drop_bit 4 b) AND mask 4 = (ucast (drop_bit 4 b) :: uint)"
    by (rule bit_word_eqI) (auto simp: bit_simps dest: bit_imp_le_length)
  have f: "(ucast (drop_bit k b) AND mask 1 :: uint) \<noteq> 0 \<longleftrightarrow> bit b k" if "k < 8" for k
  proof -
    have "ucast (drop_bit k b) AND mask 1 = (of_bool (bit b k) :: uint)"
      by (rule bit_word_eqI) (auto simp: bit_simps)
    then show ?thesis by simp
  qed
  have q: "ucast (ucast (drop_bit 1 b) AND mask 2 :: uint) = drop_bit 1 b AND 3"
  proof -
    have m: "(3 :: ubyte) = mask 2" by (simp add: mask_eq_exp_minus_1)
    show ?thesis unfolding m by (rule bit_word_eqI) (auto simp: bit_simps)
  qed
  show ?thesis
    using 1 2 f [of 3] f [of 0] t q
    by (cases u) (simp add: header_cerealise_def grainBits_type_def grainBits_bool_def grainBits_u8_def
        header_of_byte_def Let_def)
qed

lemma header_read_enc:
  assumes "d_bitIndex d = 0 \<or> d_bitIndex d = 8" "rest d = enc_header h @ bs"
    and "h_qos h < 4" "h_remaining h < 2 ^ 28"
  shows "header_cerealise u (Read d) = Inr (h,
    Read ((advance (length (enc_header h)) d)\<lparr>d_currentByte := header_byte h, d_bitIndex := 8\<rparr>))"
  using assms getRemainingSize_digits [of "h_remaining h"
      "(advance 1 d)\<lparr>d_currentByte := header_byte h, d_bitIndex := 8\<rparr>" bs]
  by (simp add: header_read enc_header_def header_of_header_byte)

section \<open>Properties\<close>

text \<open>
  C23. A remaining length of less than $2^{28}$ is written as at most four digits, and reading
  these digits gives it back and stops behind them.
\<close>

theorem remaining_length_roundtrip:
  assumes "h_remaining h < 2 ^ 28"
  shows "setRemainingSize h (Write w) = Inr (Write (emit (remaining_digits (h_remaining h)) w)) \<and>
    getRemainingSize (decerealiser_of (remaining_digits (h_remaining h) @ bs))
      = Inr (h_remaining h, advance (length (remaining_digits (h_remaining h)))
          (decerealiser_of (remaining_digits (h_remaining h) @ bs))) \<and>
    length (remaining_digits (h_remaining h)) \<le> 4"
  using getRemainingSize_digits [OF assms, of "decerealiser_of (remaining_digits (h_remaining h) @ bs)" bs]
    remaining_digits_length [of "h_remaining h" 3] assms
  by (simp_all add: setRemainingSize_def byte.each_write list_all_def concat_singletons word_less_def)

theorem remaining_length_roundtrip_witness:
  "getRemainingSize (decerealiser_of (remaining_digits 321 @ [7]))
     = Inr (321, advance (length (remaining_digits 321)) (decerealiser_of (remaining_digits 321 @ [7])))"
  using remaining_length_roundtrip [of "new_fixed_header\<lparr>h_remaining := 321\<rparr>" _ "[7]"] by simp

text \<open>C22. Every field of a fixed header is written where the protocol wants it and read back.\<close>

theorem header_roundtrip:
  assumes "h_qos h < 4" "h_remaining h < 2 ^ 28"
  shows "\<exists>w. header_cerealise h (Write new_cerealiser) = Inr (h, Write w) \<and>
    w_bytes w = header_byte h # remaining_digits (h_remaining h) \<and>
    (\<exists>d. header_cerealise u (Read (decerealiser_of (w_bytes w @ bs))) = Inr (h, Read d) \<and> rest d = bs)"
proof -
  have "header_cerealise h (Write new_cerealiser) = Inr (h, Write ((emit (enc_header h) new_cerealiser)
      \<lparr>w_currentByte := push_bit 7 (of_bool (h_retain h)), w_bitIndex := 1\<rparr>))"
    using assms by (intro header_write) (simp_all add: new_cerealiser_def)
  moreover have "header_cerealise u (Read (decerealiser_of (enc_header h @ bs))) = Inr (h,
      Read ((advance (length (enc_header h)) (decerealiser_of (enc_header h @ bs)))
        \<lparr>d_currentByte := header_byte h, d_bitIndex := 8\<rparr>))"
    using assms by (intro header_read_enc [of _ _ bs]) (simp_all add: decerealiser_of_def rest_def)
  ultimately show ?thesis
    by (simp add: enc_header_def new_cerealiser_def)
qed

theorem header_roundtrip_witness:
  "\<exists>w. header_cerealise \<lparr>h_type = PUBLISH, h_dup = True, h_qos = 2, h_retain = True, h_remaining = 200\<rparr>
      (Write new_cerealiser) = Inr (\<lparr>h_type = PUBLISH, h_dup = True, h_qos = 2, h_retain = True, h_remaining = 200\<rparr>, Write w)
    \<and> w_bytes w = 0x3d # remaining_digits 200"
  using header_roundtrip [of "\<lparr>h_type = PUBLISH, h_dup = True, h_qos = 2, h_retain = True, h_remaining = 200\<rparr>"]
  by (auto simp: header_byte_def)

text \<open>
  Four digits that announce another one and a fifth digit: the multiplier leaves the range
  of \<^verbatim>\<open>int\<close>.
\<close>

lemma remaining_length_overflow:
  assumes "b1 AND 128 \<noteq> 0" "b2 AND 128 \<noteq> 0" "b3 AND 128 \<noteq> 0" "b4 AND 128 \<noteq> 0"
  shows "getRemainingSize (decerealiser_of (b1 # b2 # b3 # b4 # b5 # bs)) = Inl Undefined"
  using assms by (intro getRemainingSize_five [of _ b1 b2 b3 b4 b5 bs]) simp_all

lemma remaining_length_overflow_witness:
  "getRemainingSize (decerealiser_of [255, 255, 255, 255, 1]) = Inl Undefined"
  by (rule remaining_length_overflow) simp_all

end
