(* ===== verification/Codec.thy ===== *)
theory Codec
  imports MessageFacts
begin

text \<open>
  What the \<^verbatim>\<open>cerealise\<close> members of \<^verbatim>\<open>message.cpp\<close> put on the wire and read from it:
  for every message the bytes written from a fresh \<^verbatim>\<open>Cerealiser\<close>, and the message read from
  a \<^verbatim>\<open>Decerealiser\<close> over these bytes.
\<close>

section \<open>Encoding and decoding a whole message\<close>

text \<open>
  \<^verbatim>\<open>Cerealiser c; c << m; c.getBytes()\<close> and \<^verbatim>\<open>Decerealiser d{bytes}; d >> u\<close>.
\<close>

definition encode :: "'a grain \<Rightarrow> 'a \<Rightarrow> ubyte list result" where
  "encode g m = bindE (g m (Write new_cerealiser))
     (\<lambda>(_, c). case c of Write w \<Rightarrow> Inr (w_bytes w) | Read _ \<Rightarrow> Inl Undefined)"

definition decode :: "'a grain \<Rightarrow> 'a \<Rightarrow> ubyte list \<Rightarrow> 'a result" where
  "decode g u bytes = bindE (g u (Read (decerealiser_of bytes))) (\<lambda>(v, _). Inr v)"

lemma new_cerealiser_sel [simp]:
  "w_bytes new_cerealiser = []" "w_bitIndex new_cerealiser = 0" "w_currentByte new_cerealiser = 0"
  by (simp_all add: new_cerealiser_def)

lemma decerealiser_of_sel [simp]:
  "d_bitIndex (decerealiser_of bs) = 0" "d_iterator (decerealiser_of bs) = 0"
  "d_originalIterator (decerealiser_of bs) = 0"
  by (simp_all add: decerealiser_of_def)

lemma emit_update [simp]:
  "emit bs (w\<lparr>w_currentByte := c\<rparr>) = (emit bs w)\<lparr>w_currentByte := c\<rparr>"
  "emit bs (w\<lparr>w_bitIndex := k\<rparr>) = (emit bs w)\<lparr>w_bitIndex := k\<rparr>"
  by (simp_all add: emit_def)

lemma advance_update [simp]:
  "advance n (d\<lparr>d_currentByte := c\<rparr>) = (advance n d)\<lparr>d_currentByte := c\<rparr>"
  "advance n (d\<lparr>d_bitIndex := k\<rparr>) = (advance n d)\<lparr>d_bitIndex := k\<rparr>"
  by (simp_all add: advance_def)

lemma at_end_update [simp]:
  "at_end (d\<lparr>d_currentByte := c\<rparr>) = at_end d" "at_end (d\<lparr>d_bitIndex := k\<rparr>) = at_end d"
  by (simp_all add: at_end_def)

text \<open>A header that fits: two bits of QoS, a remaining length of at most four digits.\<close>

definition header_ok :: "mqtt_fixed_header \<Rightarrow> bool" where
  "header_ok h \<longleftrightarrow> h_qos h < 4 \<and> h_remaining h < 2 ^ 28"

lemma header_write_fresh:
  "header_ok h \<Longrightarrow> header_cerealise h (Write new_cerealiser) =
     Inr (h, Write ((emit (enc_header h) new_cerealiser)\<lparr>
       w_currentByte := push_bit 7 (of_bool (h_retain h)), w_bitIndex := 1\<rparr>))"
  by (simp add: header_write header_ok_def)

lemma header_read_fresh:
  "header_ok h \<Longrightarrow> header_cerealise u (Read (decerealiser_of (enc_header h @ bs))) =
     Inr (h, Read ((advance (length (enc_header h)) (decerealiser_of (enc_header h @ bs)))\<lparr>
       d_currentByte := header_byte h, d_bitIndex := 8\<rparr>))"
  using header_read_enc [of "decerealiser_of (enc_header h @ bs)" h bs u]
  by (simp add: header_ok_def)

section \<open>Topics\<close>

definition enc_topic :: "topic \<Rightarrow> ubyte list" where
  "enc_topic t = enc_string (topic_topic t) @ [topic_qos t]"

definition topic_ok :: "topic \<Rightarrow> bool" where
  "topic_ok t \<longleftrightarrow> string_ok (topic_topic t)"

interpretation tpc: grainable topic_cerealise enc_topic topic_ok
proof unfold_locales
  fix v w assume "topic_ok v"
  then show "topic_cerealise v (Write w) = Inr (v, Write (emit (enc_topic v) w))"
    by (simp add: topic_cerealise_def topic_ok_def str.writes byte.writes enc_topic_def)
next
  fix v d bs u assume "topic_ok v" "rest d = enc_topic v @ bs"
  then show "topic_cerealise u (Read d) = Inr (v, Read (advance (length (enc_topic v)) d))"
    using str.reads [of "topic_topic v" d "topic_qos v # bs" "topic_topic u"]
      byte.reads [of "advance (length (topic_topic v) + 2) d" "topic_qos v" bs "topic_qos u"]
    by (simp add: topic_cerealise_def topic_ok_def enc_topic_def)
next
  fix u d x c assume "topic_cerealise u (Read d) = Inr (x, c)"
  then obtain s c1 q where 1: "grain_string (topic_topic u) (Read d) = Inr (s, c1)"
    and 2: "grain_u8 (topic_qos u) c1 = Inr (q, c)"
    by (auto simp: topic_cerealise_def returned)
  from str.progress [OF 1] obtain n where n: "n > 0" "c1 = Read (advance n d)" "n \<le> length (rest d)"
    by blast
  with byte.progress [of "topic_qos u" "advance n d" q c] 2
  obtain m where "c = Read (advance (n + m) d)" "m \<le> length (rest d) - n" by auto
  with n show "\<exists>n>0. c = Read (advance n d) \<and> n \<le> length (rest d)"
    by (intro exI [of _ "n + m"]) auto
next
  fix u d
  have "no_throw (grain_u8 q c)" if "grain_string t (Read d) = Inr (s, c)" for q t s c
    using str.progress [OF that] byte.faults by auto
  then show "no_throw (topic_cerealise u (Read d))"
    using str.faults by (auto simp: topic_cerealise_def no_throw_bindE)
qed

section \<open>The messages with a raw array at the end\<close>

definition enc_subscribe :: "mqtt_subscribe \<Rightarrow> ubyte list" where
  "enc_subscribe m = enc_header (sub_header m) @ be16 (sub_msgId m)
     @ concat (map enc_topic (sub_topics m))"

definition enc_unsubscribe :: "mqtt_unsubscribe \<Rightarrow> ubyte list" where
  "enc_unsubscribe m = enc_header (unsub_header m) @ be16 (unsub_msgId m)
     @ concat (map enc_string (unsub_topics m))"

definition enc_suback :: "mqtt_suback \<Rightarrow> ubyte list" where
  "enc_suback m = enc_header (suback_header m) @ be16 (suback_msgId m) @ suback_qos m"

lemma subscribe_encode:
  assumes "header_ok (sub_header m)" "list_all topic_ok (sub_topics m)"
  shows "encode subscribe_cerealise m = Inr (enc_subscribe m)"
  using assms
  by (simp add: encode_def subscribe_cerealise_def header_write_fresh grain_u16_write
      tpc.raw_write enc_subscribe_def)

lemma subscribe_decode:
  assumes "header_ok (sub_header m)" "list_all topic_ok (sub_topics m)"
  shows "decode subscribe_cerealise u (enc_subscribe m) = Inr m"
  using assms
  by (simp add: decode_def subscribe_cerealise_def enc_subscribe_def header_read_fresh
      grain_u16_read [of _ "sub_msgId m"] tpc.raw_read [of "sub_topics m"] at_end_advance)

lemma unsubscribe_encode:
  assumes "header_ok (unsub_header m)" "list_all string_ok (unsub_topics m)"
  shows "encode unsubscribe_cerealise m = Inr (enc_unsubscribe m)"
  using assms
  by (simp add: encode_def unsubscribe_cerealise_def header_write_fresh grain_u16_write
      str.raw_write enc_unsubscribe_def)

lemma unsubscribe_decode:
  assumes "header_ok (unsub_header m)" "list_all string_ok (unsub_topics m)"
  shows "decode unsubscribe_cerealise u (enc_unsubscribe m) = Inr m"
  using assms
  by (simp add: decode_def unsubscribe_cerealise_def enc_unsubscribe_def header_read_fresh
      grain_u16_read [of _ "unsub_msgId m"] str.raw_read [of "unsub_topics m"] at_end_advance)

lemma suback_encode:
  assumes "header_ok (suback_header m)"
  shows "encode suback_cerealise m = Inr (enc_suback m)"
  using assms
  by (simp add: encode_def suback_cerealise_def header_write_fresh grain_u16_write
      byte.raw_write list_all_def concat_singletons enc_suback_def)

lemma suback_decode:
  assumes "header_ok (suback_header m)"
  shows "decode suback_cerealise u (enc_suback m) = Inr m"
  using assms
  by (simp add: decode_def suback_cerealise_def enc_suback_def header_read_fresh
      grain_u16_read [of _ "suback_msgId m"] byte.raw_read [of "suback_qos m"] at_end_advance
      list_all_def concat_singletons)


section \<open>The acknowledgements of fixed size\<close>

definition enc_unsuback :: "mqtt_unsuback \<Rightarrow> ubyte list" where
  "enc_unsuback m = enc_header (unsuback_header m) @ be16 (unsuback_msgId m)"

definition enc_connack :: "mqtt_connack \<Rightarrow> ubyte list" where
  "enc_connack m = enc_header (ca_header m) @ [ca_reserved m, ucast (ca_code m)]"

lemma unsuback_encode:
  "header_ok (unsuback_header m) \<Longrightarrow> encode unsuback_cerealise m = Inr (enc_unsuback m)"
  by (simp add: encode_def unsuback_cerealise_def header_write_fresh grain_u16_write enc_unsuback_def)

lemma unsuback_decode:
  "header_ok (unsuback_header m) \<Longrightarrow> decode unsuback_cerealise u (enc_unsuback m) = Inr m"
  by (simp add: decode_def unsuback_cerealise_def header_read_fresh enc_unsuback_def
      grain_u16_read [of _ "unsuback_msgId m" "[]"])

lemma low_byte_or: "(c AND NOT 255) OR ucast (ucast c :: ubyte) = (c :: uint)"
  unfolding low_byte_mask by (rule bit_word_eqI) (auto simp: bit_simps)

lemma connack_encode:
  "header_ok (ca_header m) \<Longrightarrow> encode connack_cerealise m = Inr (enc_connack m)"
  by (simp add: encode_def connack_cerealise_def header_write_fresh byte.writes enc_connack_def)

text \<open>The three upper bytes of \<^verbatim>\<open>code\<close> come from the object that is read into.\<close>

lemma connack_decode:
  assumes "header_ok (ca_header m)" "drop_bit 8 (ca_code u) = drop_bit 8 (ca_code m)"
  shows "decode connack_cerealise u (enc_connack m) = Inr m"
proof -
  have "(ca_code u AND NOT 255) OR ucast (ucast (ca_code m) :: ubyte) = ca_code m"
    unfolding low_byte_mask
  proof (rule bit_word_eqI)
    fix n assume n: "n < LENGTH(32)"
    have "bit (ca_code u) n = bit (ca_code m) n" if "8 \<le> n"
      using arg_cong [OF assms(2), of "\<lambda>x. bit x (n - 8)"] that by (simp add: bit_drop_bit_eq)
    with n show "bit ((ca_code u AND NOT (mask 8)) OR ucast (ucast (ca_code m) :: ubyte)) n
        = bit (ca_code m) n"
      by (cases "n < 8") (auto simp: bit_simps)
  qed
  with assms(1) show ?thesis
    by (simp add: decode_def connack_cerealise_def header_read_fresh enc_connack_def byte.reads)
qed

section \<open>PUBLISH\<close>

text \<open>The body of a PUBLISH: the topic, the message id where there is QoS, the payload.\<close>

definition enc_publish :: "mqtt_publish \<Rightarrow> ubyte list" where
  "enc_publish m = enc_header (pub_header m) @ enc_string (pub_topic m)
     @ (if h_qos (pub_header m) \<noteq> 0 then be16 (pub_msgId m) else []) @ pub_payload m"

lemma publish_encode:
  assumes "header_ok (pub_header m)" "string_ok (pub_topic m)"
  shows "encode publish_cerealise m = Inr (enc_publish m)"
  using assms
  by (simp add: encode_def publish_cerealise_def header_write_fresh str.writes is_read_def
      grain_u16_write byte.each_write list_all_def concat_singletons enc_publish_def Let_def)

lemma byte_each_read:
  "length us = n \<Longrightarrow> n \<le> length (rest d) \<Longrightarrow>
   grain_each grain_u8 us (Read d) = Inr (take n (rest d), Read (advance n d))"
  using byte.each_read [of "take n (rest d)" us d "drop n (rest d)"]
  by (simp add: list_all_def concat_singletons)

lemma payload_length:
  assumes "string_ok t" "unat (r :: uint) = length t + 2 + n"
  shows "unat (ucast r - (word_of_nat (length t) + 2) :: ulong) = n"
proof -
  have "unat r < 2 ^ 32" using unsigned_less [of r] by simp
  then have "unat (ucast r :: ulong) = unat r"
    by (simp add: unsigned_ucast_eq take_bit_nat_eq_self)
  moreover have "unat (word_of_nat (length t) + 2 :: ulong) = length t + 2"
    using assms(1) by (simp add: string_ok_def unat_word_ariths unat_of_nat)
  ultimately show ?thesis
    using assms(2) by (simp add: unat_sub_if')
qed

lemma resize_payload:
  "unat n = k \<Longrightarrow> k < 2 ^ 32 \<Longrightarrow> vector_resize 0 [] n = Inr (replicate k (0 :: ubyte))"
  by (simp add: vector_resize_def)

lemma unat_minus_2: "unat (x :: ulong) = 2 + n \<Longrightarrow> unat (x - 2) = n"
  by (simp add: unat_sub_if')

text \<open>
  Reading takes the payload length from the header. Where the message id is not read, because
  there is no QoS or because fewer than seven bytes remain, all bytes after the topic are payload.
\<close>

lemma publish_decode_no_id:
  assumes "header_ok h" "string_ok t" "unat (h_remaining h) = length t + 2 + length bs"
    and "pub_payload u = []" "h_qos h = 0 \<or> h_remaining h < 7"
  shows "decode publish_cerealise u (enc_header h @ enc_string t @ bs) =
    Inr \<lparr>pub_header = h, pub_topic = t, pub_payload = bs, pub_msgId = pub_msgId u\<rparr>"
proof -
  have "length bs < 2 ^ 32" using assms(3) unsigned_less [of "h_remaining h", where 'a = nat] by simp
  note p = resize_payload [OF payload_length [OF assms(2,3)] this]
  show ?thesis
    using assms p
    by (auto simp: decode_def publish_cerealise_def header_read_fresh Let_def is_read_def
        str.reads [of t _ bs] byte_each_read)
qed

lemma publish_decode_id:
  assumes "header_ok h" "string_ok t" "unat (h_remaining h) = length t + 2 + (2 + length p)"
    and "pub_payload u = []" "h_qos h \<noteq> 0" "7 \<le> h_remaining h"
  shows "decode publish_cerealise u (enc_header h @ enc_string t @ be16 mid @ p) =
    Inr \<lparr>pub_header = h, pub_topic = t, pub_payload = p, pub_msgId = mid\<rparr>"
proof -
  let ?len = "ucast (h_remaining h) - (word_of_nat (length t) + 2) :: ulong"
  have "unat ?len = 2 + length p" by (rule payload_length [OF assms(2,3)])
  then have "unat (?len - 2) = length p" by (rule unat_minus_2)
  moreover have "length p < 2 ^ 32"
    using assms(3) unsigned_less [of "h_remaining h", where 'a = nat] by simp
  ultimately have p: "vector_resize 0 [] (?len - 2) = Inr (replicate (length p) (0 :: ubyte))"
    by (rule resize_payload)
  have "\<not> h_remaining h < 7" using assms(6) by simp
  with assms p show ?thesis
    by (auto simp: decode_def publish_cerealise_def header_read_fresh Let_def is_read_def
        str.reads [of t _ "be16 mid @ p"] grain_u16_read [of _ mid p] byte_each_read)
qed
lemma new_publish_sel [simp]:
  "pub_topic (new_publish d q r t p mid) = t" "pub_payload (new_publish d q r t p mid) = p"
  "pub_msgId (new_publish d q r t p mid) = mid"
  "h_qos (pub_header (new_publish d q r t p mid)) = q"
  "h_type (pub_header (new_publish d q r t p mid)) = PUBLISH"
  by (simp_all add: new_publish_def Let_def)

lemma new_publish_remaining:
  assumes "length t + length p + 4 < 2 ^ 32"
  shows "unat (h_remaining (pub_header (new_publish d q r t p mid)))
    = length t + 2 + (if q \<noteq> 0 then 2 else 0) + length p"
  using assms
  by (simp add: new_publish_def Let_def unsigned_ucast_eq unat_word_ariths unat_of_nat
      take_bit_nat_eq_self mod_less)

section \<open>CONNECT\<close>

text \<open>The flag byte of a CONNECT as the protocol lays it out.\<close>

definition flags_byte :: "mqtt_connect \<Rightarrow> ubyte" where
  "flags_byte m = push_bit 7 (of_bool (hasUserName m)) OR push_bit 6 (of_bool (hasPassword m))
     OR push_bit 5 (of_bool (hasWillRetain m)) OR push_bit 3 (willQos m)
     OR push_bit 2 (of_bool (hasWill m)) OR push_bit 1 (of_bool (hasClear m))
     OR of_bool (cn_reserved m)"

definition enc_connect_with :: "ubyte \<Rightarrow> mqtt_connect \<Rightarrow> ubyte list" where
  "enc_connect_with flags m = enc_header (cn_header m) @ enc_string (protoName m)
     @ [protoVersion m, flags] @ be16 (keepAlive m) @ enc_string (clientId m)
     @ (if hasWill m then enc_string (willTopic m) else [])
     @ (if hasWill m then enc_string (willMessage m) else [])
     @ (if hasUserName m then enc_string (userName m) else [])
     @ (if hasPassword m then enc_string (password m) else [])"

definition connect_ok :: "mqtt_connect \<Rightarrow> bool" where
  "connect_ok m \<longleftrightarrow> header_ok (cn_header m) \<and> willQos m < 4 \<and> string_ok (protoName m)
     \<and> string_ok (clientId m) \<and> string_ok (willTopic m) \<and> string_ok (willMessage m)
     \<and> string_ok (userName m) \<and> string_ok (password m)"

text \<open>What the flags member writes when the header's writing left one bit behind.\<close>

definition shifted_flags :: "mqtt_connect \<Rightarrow> ubyte" where
  "shifted_flags m = push_bit 7 (of_bool (h_retain (cn_header m))) OR drop_bit 1 (flags_byte m)"

lemma flags_write:
  assumes "w_bitIndex w = 1" "w_currentByte w = push_bit 7 (of_bool b)" "willQos m < 4"
  shows "\<exists>w'. connect_flags m (Write w) = Inr (m, Write w') \<and>
    w_bytes w' = w_bytes w @ [push_bit 7 (of_bool b) OR drop_bit 1 (flags_byte m)]"
proof -
  have q: "Word.uint (ucast (willQos m) :: uint) < 4"
    using assms(3) take_bit_int_eq_self [of "Word.uint (willQos m)" 32]
    by (simp add: word_less_def unsigned_ucast_eq)
  have u: "ucast (ucast (willQos m) :: uint) = willQos m"
    by (rule bit_word_eqI) (simp add: bit_simps)
  let ?byte = "push_bit 7 (of_bool b) OR push_bit 6 (of_bool (hasUserName m)) OR push_bit 5 (of_bool (hasPassword m))
     OR push_bit 4 (of_bool (hasWillRetain m)) OR push_bit 2 (willQos m)
     OR push_bit 1 (of_bool (hasWill m)) OR of_bool (hasClear m) :: ubyte"
  have w5: "\<not> bit (willQos m) 5"
    using assms(3) take_bit_less [of "willQos m" 2 5] by simp
  have s: "?byte = push_bit 7 (of_bool b) OR drop_bit 1 (flags_byte m)"
  proof (rule bit_word_eqI)
    fix n assume "n < LENGTH(8)"
    then have "n = 0 \<or> n = 1 \<or> n = 2 \<or> n = 3 \<or> n = 4 \<or> n = 5 \<or> n = 6 \<or> n = 7" by auto
    then show "bit ?byte n = bit (push_bit 7 (of_bool b) OR drop_bit 1 (flags_byte m)) n"
      by (elim disjE) (simp_all add: flags_byte_def bit_simps bit_times_two w5)
  qed
  have "\<exists>w'. connect_flags m (Write w) = Inr (m, Write w') \<and> w_bytes w' = w_bytes w @ [?byte]"
    using assms q u uint_of_bool_less
    by (simp add: connect_flags_def grainBits_bool_def grainBits_u8_def grainBits_within
        grainBits_fill or.assoc push_bit_eq_mult del: grainBits.simps)
  with s show ?thesis by simp
qed

lemma flags_read:
  assumes "d_bitIndex d = 8" "rest d = flags_byte m # bs" "willQos m < 4"
  shows "connect_flags u (Read d) = Inr (u\<lparr>hasUserName := hasUserName m,
    hasPassword := hasPassword m, hasWillRetain := hasWillRetain m, willQos := willQos m,
    hasWill := hasWill m, hasClear := hasClear m, cn_reserved := cn_reserved m\<rparr>,
    Read ((advance 1 d)\<lparr>d_currentByte := flags_byte m, d_bitIndex := 8\<rparr>))"
proof -
  let ?b = "flags_byte m"
  let ?d = "\<lambda>k. (advance 1 d)\<lparr>d_currentByte := ?b, d_bitIndex := k\<rparr>"
  have 1: "readBits 1 d = Inr (ucast (drop_bit 7 ?b) AND mask 1, ?d 1)"
    using assms by (subst readBits_first) auto
  have 2: "readBits 1 (?d 1) = Inr (ucast (drop_bit 6 ?b) AND mask 1, ?d 2)"
    "readBits 1 (?d 2) = Inr (ucast (drop_bit 5 ?b) AND mask 1, ?d 3)"
    "readBits 2 (?d 3) = Inr (ucast (drop_bit 3 ?b) AND mask 2, ?d 5)"
    "readBits 1 (?d 5) = Inr (ucast (drop_bit 2 ?b) AND mask 1, ?d 6)"
    "readBits 1 (?d 6) = Inr (ucast (drop_bit 1 ?b) AND mask 1, ?d 7)"
    "readBits 1 (?d 7) = Inr (ucast (drop_bit 0 ?b) AND mask 1, ?d 8)"
    by (subst readBits_next; simp)+
  have wq: "i < 2" if "bit (willQos m) i" for i
    using assms(3) that take_bit_less [of "willQos m" 2 i] by force
  have f: "(ucast (drop_bit k ?b) AND mask 1 :: uint) \<noteq> 0 \<longleftrightarrow> bit ?b k" if "k < 8" for k
  proof -
    have "ucast (drop_bit k ?b) AND mask 1 = (of_bool (bit ?b k) :: uint)"
      by (rule bit_word_eqI) (auto simp: bit_simps)
    then show ?thesis by simp
  qed
  have q: "ucast (ucast (drop_bit 3 ?b) AND mask 2 :: uint) = willQos m"
    unfolding flags_byte_def
    by (rule bit_word_eqI) (auto simp: bit_simps bit_times_two dest: wq)
  have b: "bit ?b 7 = hasUserName m" "bit ?b 6 = hasPassword m" "bit ?b 5 = hasWillRetain m"
    "bit ?b 2 = hasWill m" "bit ?b 1 = hasClear m" "bit ?b 0 = cn_reserved m"
    unfolding flags_byte_def by (auto simp: bit_simps bit_times_two dest: wq)
  show ?thesis
    using 1 2 q b f [of 7] f [of 6] f [of 5] f [of 2] f [of 1] f [of 0]
    by (simp add: connect_flags_def grainBits_bool_def grainBits_u8_def)
qed

text \<open>
  The bytes written: everything is where the protocol wants it, but the flag byte comes out
  shifted by one bit, with the retain flag of the header on top.
\<close>

lemma str_write_if:
  "string_ok s \<Longrightarrow> grain_if b grain_string s (Write w)
     = Inr (s, Write (emit (if b then enc_string s else []) w))"
  by (simp add: grain_if_def str.writes)

lemma str_read_if:
  assumes "string_ok s" "rest d = (if b then enc_string s else []) @ bs"
  obtains d' where "grain_if b grain_string u (Read d) = Inr (if b then s else u, Read d')"
    "rest d' = bs"
  using assms str.read_step [of s d bs u] by (cases b) (auto simp: grain_if_def)

lemma connect_encode:
  assumes "connect_ok m"
  shows "encode connect_cerealise m = Inr (enc_connect_with (shifted_flags m) m)"
proof -
  let ?w = "(emit [protoVersion m] (emit (enc_string (protoName m))
      ((emit (enc_header (cn_header m)) new_cerealiser)\<lparr>
       w_currentByte := push_bit 7 (of_bool (h_retain (cn_header m))), w_bitIndex := 1\<rparr>)))"
  obtain w' where w': "connect_flags m (Write ?w) = Inr (m, Write w')"
    "w_bytes w' = w_bytes ?w @ [shifted_flags m]"
    using flags_write [of ?w "h_retain (cn_header m)" m] assms
    by (auto simp: shifted_flags_def connect_ok_def)
  show ?thesis
    using assms w'
    by (auto simp: encode_def connect_cerealise_def connect_ok_def header_write_fresh str.writes
        byte.writes grain_u16_write str_write_if enc_connect_with_def grain_if_def)
qed

text \<open>
  Reading bytes laid out as the protocol has them gives every field back, whatever the memory of
  the object held before; the strings whose flag is clear stay empty.
\<close>

definition connect_canonical :: "mqtt_connect \<Rightarrow> bool" where
  "connect_canonical m \<longleftrightarrow> (\<not> hasWill m \<longrightarrow> willTopic m = [] \<and> willMessage m = [])
     \<and> (\<not> hasUserName m \<longrightarrow> userName m = []) \<and> (\<not> hasPassword m \<longrightarrow> password m = [])"

lemma connect_decode:
  assumes ok: "connect_ok m" and can: "connect_canonical m"
  shows "decode connect_cerealise (new_connect mem h) (enc_connect_with (flags_byte m) m) = Inr m"
proof -
  let ?u = "new_connect mem h"
  let ?t9 = "if hasPassword m then enc_string (password m) else []"
  let ?t8 = "(if hasUserName m then enc_string (userName m) else []) @ ?t9"
  let ?t7 = "(if hasWill m then enc_string (willMessage m) else []) @ ?t8"
  let ?t6 = "(if hasWill m then enc_string (willTopic m) else []) @ ?t7"
  let ?t5 = "enc_string (clientId m) @ ?t6"
  let ?t3 = "flags_byte m # be16 (keepAlive m) @ ?t5"
  let ?t1 = "enc_string (protoName m) @ protoVersion m # ?t3"
  let ?d0 = "decerealiser_of (enc_connect_with (flags_byte m) m)"
  note ok' = ok [unfolded connect_ok_def]
  obtain d1 where 1: "header_cerealise (cn_header ?u) (Read ?d0) = Inr (cn_header m, Read d1)"
    "rest d1 = ?t1" "d_bitIndex d1 = 8"
    using ok header_read_fresh [of "cn_header m" "cn_header ?u" ?t1]
    by (simp add: enc_connect_with_def connect_ok_def)
  obtain d2 where 2: "grain_string (protoName ?u) (Read d1) = Inr (protoName m, Read d2)"
    "rest d2 = protoVersion m # ?t3" "d_bitIndex d2 = 8"
    using ok' 1 str.read_step [of "protoName m" d1 _ "protoName ?u"] by metis
  obtain d3 where 3: "grain_u8 (protoVersion ?u) (Read d2) = Inr (protoVersion m, Read d3)"
    "rest d3 = ?t3" "d_bitIndex d3 = 8"
    using 2 byte.read_step [of d2 "protoVersion m" ?t3 "protoVersion ?u"] by auto
  define u3 where "u3 = ?u\<lparr>cn_header := cn_header m, protoName := protoName m,
    protoVersion := protoVersion m\<rparr>"
  define u4 where "u4 = u3\<lparr>hasUserName := hasUserName m,
    hasPassword := hasPassword m, hasWillRetain := hasWillRetain m, willQos := willQos m,
    hasWill := hasWill m, hasClear := hasClear m, cn_reserved := cn_reserved m\<rparr>"
  obtain d4 where 4: "connect_flags u3 (Read d3) = Inr (u4, Read d4)"
    "rest d4 = be16 (keepAlive m) @ ?t5"
    using 3 ok' flags_read [of d3 m _ u3] by (simp add: u4_def)
  obtain d5 where 5: "grain_u16 (keepAlive u4) (Read d4) = Inr (keepAlive m, Read d5)"
    "rest d5 = ?t5"
    using 4 short.read_step [of d4 "keepAlive m" ?t5 "keepAlive u4"] by auto
  obtain d6 where 6: "grain_string (clientId u4) (Read d5) = Inr (clientId m, Read d6)"
    "rest d6 = ?t6"
    using ok' 5 str.read_step [of "clientId m" d5 _ "clientId u4"] by metis
  have w: "hasWill u4 = hasWill m" "hasUserName u4 = hasUserName m" "hasPassword u4 = hasPassword m"
    by (simp_all add: u4_def)
  obtain d7 where 7: "grain_if (hasWill m) grain_string (willTopic u4) (Read d6)
      = Inr (if hasWill m then willTopic m else willTopic u4, Read d7)" "rest d7 = ?t7"
    using ok' 6 by (elim conjE str_read_if [of "willTopic m"]) auto
  obtain d8 where 8: "grain_if (hasWill m) grain_string (willMessage u4) (Read d7)
      = Inr (if hasWill m then willMessage m else willMessage u4, Read d8)" "rest d8 = ?t8"
    using ok' 7 by (elim conjE str_read_if [of "willMessage m"]) auto
  obtain d9 where 9: "grain_if (hasUserName m) grain_string (userName u4) (Read d8)
      = Inr (if hasUserName m then userName m else userName u4, Read d9)" "rest d9 = ?t9"
    using ok' 8 by (elim conjE str_read_if [of "userName m"]) auto
  obtain d10 where 10: "grain_if (hasPassword m) grain_string (password u4) (Read d9)
      = Inr (if hasPassword m then password m else password u4, Read d10)"
    using ok' 9 by (elim conjE str_read_if [of "password m" d9 _ "[]"]) auto
  have "decode connect_cerealise ?u (enc_connect_with (flags_byte m) m)
      = Inr (u4\<lparr>keepAlive := keepAlive m, clientId := clientId m,
      willTopic := (if hasWill m then willTopic m else willTopic u4),
      willMessage := (if hasWill m then willMessage m else willMessage u4),
      userName := (if hasUserName m then userName m else userName u4),
      password := (if hasPassword m then password m else password u4)\<rparr>)"
    using 1 2 3 4 5 6 7 8 9 10 w
    by (simp add: decode_def connect_cerealise_def u3_def)
  then show ?thesis
    using can by (cases m) (simp add: new_connect_def connect_canonical_def u4_def u3_def)
qed

section \<open>Properties\<close>

text \<open>Concrete messages for the witnesses.\<close>

definition a_header :: "mqtt_type \<Rightarrow> ubyte \<Rightarrow> uint \<Rightarrow> mqtt_fixed_header" where
  "a_header ty q n = \<lparr>h_type = ty, h_dup = False, h_qos = q, h_retain = False, h_remaining = n\<rparr>"

definition a_subscribe :: mqtt_subscribe where
  "a_subscribe = \<lparr>sub_header = a_header SUBSCRIBE 1 12, sub_msgId = 7,
     sub_topics = [\<lparr>topic_topic = ''a/b'', topic_qos = 1\<rparr>, \<lparr>topic_topic = ''#'', topic_qos = 0\<rparr>]\<rparr>"

definition a_unsubscribe :: mqtt_unsubscribe where
  "a_unsubscribe = \<lparr>unsub_header = a_header UNSUBSCRIBE 1 7, unsub_msgId = 8, unsub_topics = [''a/b'']\<rparr>"

definition a_connect :: mqtt_connect where
  "a_connect = \<lparr>cn_header = a_header CONNECT 0 17, protoName = ''MQIsdp'', protoVersion = 3,
     hasUserName = True, hasPassword = False, hasWillRetain = False, willQos = 0, hasWill = False,
     hasClear = True, cn_reserved = False, keepAlive = 60, clientId = ''c'', willTopic = [],
     willMessage = [], userName = ''u'', password = []\<rparr>"

lemma a_header_ok: "q < 4 \<Longrightarrow> n < 2 ^ 28 \<Longrightarrow> header_ok (a_header ty q n)"
  by (simp add: a_header_def header_ok_def)

text \<open>
  C19. A SUBSCRIBE that is encoded and decoded again gives the same message, into whatever object
  it is read.
\<close>

theorem subscribe_roundtrip:
  assumes "header_ok (sub_header m)" "list_all topic_ok (sub_topics m)"
  shows "bindE (encode subscribe_cerealise m) (decode subscribe_cerealise u) = Inr m"
  using assms by (simp add: subscribe_encode subscribe_decode)

theorem subscribe_roundtrip_witness:
  "bindE (encode subscribe_cerealise a_subscribe) (decode subscribe_cerealise (new_subscribe new_fixed_header))
     = Inr a_subscribe"
  by (rule subscribe_roundtrip) (simp_all add: a_subscribe_def a_header_ok topic_ok_def string_ok_def)

text \<open>The same for UNSUBSCRIBE.\<close>

lemma unsubscribe_roundtrip:
  assumes "header_ok (unsub_header m)" "list_all string_ok (unsub_topics m)"
  shows "bindE (encode unsubscribe_cerealise m) (decode unsubscribe_cerealise u) = Inr m"
  using assms by (simp add: unsubscribe_encode unsubscribe_decode)

lemma unsubscribe_roundtrip_witness:
  "bindE (encode unsubscribe_cerealise a_unsubscribe)
     (decode unsubscribe_cerealise (new_unsubscribe 99 new_fixed_header)) = Inr a_unsubscribe"
  by (rule unsubscribe_roundtrip) (simp_all add: a_unsubscribe_def a_header_ok string_ok_def)

text \<open>
  C20. A PUBLISH made by its constructor is encoded and decoded again: header, topic, payload
  and, with QoS, the message id. With QoS the remaining length has to be at least seven; without
  it the message id of the object that is read into stays.
\<close>

theorem publish_roundtrip:
  fixes t :: string and p :: "ubyte list" and q :: ubyte and d r :: bool and mid :: ushort
  assumes "string_ok t" "q < 4" "length t + length p + 4 < 2 ^ 28" "q \<noteq> 0 \<Longrightarrow> 3 \<le> length t + length p"
    and "pub_payload u = []"
  defines "m \<equiv> new_publish d q r t p mid"
  shows "bindE (encode publish_cerealise m) (decode publish_cerealise u)
    = Inr (if q = 0 then m\<lparr>pub_msgId := pub_msgId u\<rparr> else m)"
proof -
  have len: "length t + length p + 4 < 2 ^ 32" using assms(3) by simp
  note rem = new_publish_remaining [OF len, of d q r mid]
  have "h_remaining (pub_header m) < 2 ^ 28"
    using rem assms(3) by (simp add: m_def word_less_nat_alt)
  then have h: "header_ok (pub_header m)" using assms(2) by (simp add: header_ok_def m_def)
  have e: "enc_publish m = enc_header (pub_header m) @ enc_string t @ (if q \<noteq> 0 then be16 mid @ p else p)"
    by (simp add: enc_publish_def m_def)
  show ?thesis
  proof (cases "q = 0")
    case True
    with rem publish_decode_no_id [OF h assms(1) _ assms(5), of p]
      publish_encode [of m] h assms(1) e show ?thesis by (simp add: m_def)
  next
    case False
    then have "7 \<le> h_remaining (pub_header m)"
      using rem assms(4) by (simp add: m_def word_le_nat_alt)
    with False rem publish_decode_id [OF h assms(1), of p u mid] assms(5)
      publish_encode [of m] h assms(1) e show ?thesis by (simp add: m_def)
  qed
qed

theorem publish_roundtrip_witness:
  "bindE (encode publish_cerealise (new_publish False 1 False ''a/b'' [1, 2] 33))
     (decode publish_cerealise \<lparr>pub_header = new_fixed_header, pub_topic = [], pub_payload = [], pub_msgId = 0\<rparr>)
   = Inr (new_publish False 1 False ''a/b'' [1, 2] 33)"
  using publish_roundtrip [of "''a/b''" 1 "[1, 2]"
      "\<lparr>pub_header = new_fixed_header, pub_topic = [], pub_payload = [], pub_msgId = 0\<rparr>" False False 33]
  by (simp add: string_ok_def)

text \<open>
  C31. A PUBLISH with QoS whose topic and payload together have fewer than three bytes comes
  back without its message id: the two bytes of the id are read as payload.
\<close>

theorem publish_id_lost:
  fixes t :: string and p :: "ubyte list" and q :: ubyte and d r :: bool and mid :: ushort
  assumes "q < 4" "q \<noteq> 0" "length t + length p < 3" "pub_payload u = []"
  defines "m \<equiv> new_publish d q r t p mid"
  shows "bindE (encode publish_cerealise m) (decode publish_cerealise u)
    = Inr (m\<lparr>pub_payload := be16 mid @ p, pub_msgId := pub_msgId u\<rparr>)"
proof -
  have len: "length t + length p + 4 < 2 ^ 32" and t: "string_ok t" using assms(3) by (simp_all add: string_ok_def)
  note rem = new_publish_remaining [OF len, of d q r mid]
  have "h_remaining (pub_header m) < 7" "h_remaining (pub_header m) < 2 ^ 28"
    using rem assms(2,3) by (simp_all add: m_def word_less_nat_alt)
  then have h: "header_ok (pub_header m)" "h_remaining (pub_header m) < 7"
    using assms(1) by (simp_all add: header_ok_def m_def)
  have "enc_publish m = enc_header (pub_header m) @ enc_string t @ be16 mid @ p"
    using assms(2) by (simp add: enc_publish_def m_def)
  with rem publish_decode_no_id [OF h(1) t _ assms(4), of "be16 mid @ p"] h
    publish_encode [of m] t assms(2) show ?thesis by (simp add: m_def)
qed

theorem publish_id_lost_witness:
  "bindE (encode publish_cerealise (new_publish False 1 False ''a'' [] 33))
     (decode publish_cerealise \<lparr>pub_header = new_fixed_header, pub_topic = [], pub_payload = [], pub_msgId = 0\<rparr>)
   = Inr ((new_publish False 1 False ''a'' [] 33)\<lparr>pub_payload := be16 33, pub_msgId := 0\<rparr>)"
  using publish_id_lost [of 1 "''a''" "[]"
      "\<lparr>pub_header = new_fixed_header, pub_topic = [], pub_payload = [], pub_msgId = 0\<rparr>" False False 33]
  by simp

text \<open>
  C21. A CONNECT laid out as the protocol has it is decoded into the message it stands for,
  whatever the memory of the object held before.
\<close>

theorem connect_decoded:
  assumes "connect_ok m" "connect_canonical m"
  shows "decode connect_cerealise (new_connect mem h) (enc_connect_with (flags_byte m) m) = Inr m"
  using assms by (rule connect_decode)

theorem connect_decoded_witness:
  "decode connect_cerealise (new_connect a_connect new_fixed_header) (enc_connect_with 0x82 a_connect)
     = Inr a_connect"
  using connect_decoded [of a_connect a_connect new_fixed_header]
  by (simp add: a_connect_def connect_ok_def connect_canonical_def a_header_ok string_ok_def flags_byte_def)

text \<open>
  C30. The CONNECT the library writes is not the one of the protocol: the flags byte is shifted
  by one bit and has the retain flag of the header on top. Everything else is in place.
\<close>

theorem connect_flags_shifted:
  assumes "connect_ok m"
  shows "encode connect_cerealise m = Inr (enc_connect_with
    (push_bit 7 (of_bool (h_retain (cn_header m))) OR drop_bit 1 (flags_byte m)) m)"
  using connect_encode [OF assms] by (simp add: shifted_flags_def)

theorem connect_flags_shifted_witness:
  "flags_byte a_connect = 0x82 \<and> encode connect_cerealise a_connect = Inr (enc_connect_with 0x41 a_connect)"
proof -
  have "push_bit 7 (of_bool (h_retain (cn_header a_connect))) OR drop_bit 1 (flags_byte a_connect) = 0x41"
    by (simp add: a_connect_def flags_byte_def a_header_def)
  with connect_flags_shifted [of a_connect] show ?thesis
    by (simp add: a_connect_def connect_ok_def a_header_ok string_ok_def flags_byte_def)
qed

text \<open>A SUBACK made by its constructor survives encoding and decoding.\<close>

lemma suback_roundtrip:
  assumes "length qs + 2 < 2 ^ 28"
  shows "bindE (encode suback_cerealise (new_suback mid qs)) (decode suback_cerealise u) = Inr (new_suback mid qs)"
proof -
  have "unat (word_of_nat (length qs) + 2 :: uint) = length qs + 2"
    using assms by (simp add: unat_word_ariths unat_of_nat)
  then have "header_ok (suback_header (new_suback mid qs))"
    using assms by (simp add: header_ok_def new_suback_def word_less_nat_alt)
  then show ?thesis by (simp add: suback_encode suback_decode)
qed

lemma suback_roundtrip_witness:
  "bindE (encode suback_cerealise (new_suback 258 [0, 1, 2])) (decode suback_cerealise (new_suback 0 []))
     = Inr (new_suback 258 [0, 1, 2])"
  by (rule suback_roundtrip) simp

text \<open>A CONNACK with any of the codes survives encoding and decoding into a fresh object.\<close>

lemma connack_roundtrip:
  "bindE (encode connack_cerealise (new_connack c)) (decode connack_cerealise (new_connack c'))
     = Inr (new_connack c)"
proof -
  have "header_ok (ca_header (new_connack c))" "drop_bit 8 (ca_code (new_connack c')) = drop_bit 8 (ca_code (new_connack c))"
    by (cases c; cases c'; simp add: new_connack_def header_ok_def)+
  then show ?thesis by (simp add: connack_encode connack_decode)
qed

text \<open>The library's UNSUBACK for a message id.\<close>

lemma unsuback_bytes:
  "encode unsuback_cerealise (new_unsuback mid) = Inr ([0xb0, 2] @ be16 mid) \<and>
   decode unsuback_cerealise u ([0xb0, 2] @ be16 mid) = Inr (new_unsuback mid)"
proof -
  let ?m = "new_unsuback mid"
  have h: "header_ok (unsuback_header ?m)" by (simp add: new_unsuback_def header_ok_def)
  have "enc_unsuback ?m = [0xb0, 2] @ be16 mid"
    by (simp add: enc_unsuback_def new_unsuback_def enc_header_def header_byte_def remaining_digits_single)
  with unsuback_encode [OF h] unsuback_decode [OF h, of u] show ?thesis by simp
qed

text \<open>
  C32. A PUBLISH whose remaining length is smaller than what stands before its payload, the topic
  and, where there is a QoS and the remaining length is not below 7, the message id: the length of the
  payload wraps around, and the resize of the payload throws. It does not come to that where the message id
  is to be read and fewer than two bytes follow the topic: then the bytes are read beyond their end.
\<close>

theorem publish_length_wraps:
  assumes "header_ok h" "string_ok t"
  defines "reads_id \<equiv> h_qos h \<noteq> 0 \<and> \<not> h_remaining h < 7"
  assumes "unat (h_remaining h) < length t + 2 + (if reads_id then 2 else 0)"
  shows "decode publish_cerealise u (enc_header h @ enc_string t @ bs)
    = Inl (if reads_id \<and> length bs < 2 then Undefined else LengthError)"
proof -
  let ?l = "ucast (h_remaining h) - (word_of_nat (length t) + 2) :: ulong"
  let ?n = "if reads_id then ?l - 2 else ?l"
  have r: "unat (ucast (h_remaining h) :: ulong) = unat (h_remaining h)" "unat (h_remaining h) < 2 ^ 32"
    using unsigned_less [of "h_remaining h", where 'a = nat] by (simp_all add: unsigned_ucast_eq take_bit_nat_eq_self)
  have t: "unat (word_of_nat (length t) + k :: ulong) = length t + unat k" if "k \<le> 4" for k
    using that assms(2) by (simp add: string_ok_def unat_word_ariths unat_of_nat word_le_nat_alt)
  have "?n = ucast (h_remaining h) - (word_of_nat (length t) + (if reads_id then 4 else 2))" by simp
  then have "unat ?n = 2 ^ 64 + unat (h_remaining h) - (length t + (if reads_id then 4 else 2))"
    using assms(4) t [of "if reads_id then 4 else 2"] by (simp add: unat_sub_if' r split: if_splits)
  then have n: "vector_resize 0 p ?n = Inl LengthError" for p :: "ubyte list"
    using assms(2,4) r(2) by (simp add: vector_resize_def string_ok_def split: if_splits)
  show ?thesis
    using assms(1,2) n
    by (auto simp: decode_def publish_cerealise_def header_read_fresh Let_def is_read_def str.reads [of t _ bs]
        grain_u16_any reads_id_def split: list.splits if_splits)
qed

theorem publish_length_wraps_witness:
  "decode publish_cerealise \<lparr>pub_header = new_fixed_header, pub_topic = [], pub_payload = [], pub_msgId = 0\<rparr>
     (enc_header (a_header PUBLISH 1 8) @ enc_string ''abcdefg'' @ [0, 7]) = Inl LengthError"
  using publish_length_wraps [of "a_header PUBLISH 1 8" "''abcdefg''"
    "\<lparr>pub_header = new_fixed_header, pub_topic = [], pub_payload = [], pub_msgId = 0\<rparr>" "[0, 7]"]
  by (simp add: a_header_ok string_ok_def) (simp add: a_header_def)

end
