(* ===== verification/Broker.thy ===== *)
theory Broker
  imports Message "HOL-Library.AList"
begin

text \<open>
  The broker of \<^verbatim>\<open>src/src/broker.hpp\<close>: a tree of topic levels whose nodes hold
  subscriptions, and a cache from published topics to the subscribers they reached.

  The template parameter, the subscriber type, is the type variable \<open>'c\<close>; a value of it is
  the address of a subscriber. The code calls \<^verbatim>\<open>newMessage(bytes)\<close> on every subscriber it
  reaches, always with the bytes it was given, so publishing is modelled as the sequence of
  subscribers that are called. \<^verbatim>\<open>boost::split\<close> is not part of the repository: it is the
  parameter \<open>split\<close>. The order of an \<^verbatim>\<open>unordered_map\<close> is the order of an association
  list; the operations look a key up, or treat every entry alike.
\<close>

section \<open>Subscriptions and nodes\<close>

record 'c subscription =
  subscriber :: 'c
  sub_topic :: string

definition isSubscriber :: "'c subscription \<Rightarrow> 'c \<Rightarrow> string list \<Rightarrow> bool" where
  "isSubscriber a sub topics =
     (let isSameTopic = (length topics = 0 \<or> sub_topic a \<in> set topics) in
      isSameTopic \<and> subscriber a = sub)"

datatype 'c node = Node (children: "(string \<times> 'c node) list") (leaves: "'c subscription list")

section \<open>The tree\<close>

text \<open>
  \<^verbatim>\<open>addOrFindNode\<close> returns a reference into the tree, through which the caller changes the
  node: here the change is the argument \<open>f\<close>.
\<close>

fun addOrFindNode :: "('c node \<Rightarrow> 'c node) \<Rightarrow> 'c node \<Rightarrow> string list \<Rightarrow> 'c node" where
  "addOrFindNode f tree [] = f tree"
| "addOrFindNode f tree (part # parts) =
     (let ch = (if map_of (children tree) part = None
                then AList.update part (Node [] []) (children tree) else children tree) in
      Node (AList.update part (addOrFindNode f (the (map_of ch part)) parts) ch) (leaves tree))"

definition emplace_leaf :: "'c subscription \<Rightarrow> 'c node \<Rightarrow> 'c node" where
  "emplace_leaf s node = Node (children node) (leaves node @ [s])"

fun unsubscribeImpl :: "'c \<Rightarrow> string list \<Rightarrow> 'c node \<Rightarrow> 'c node" where
  "unsubscribeImpl sub topics (Node ch lv) =
     (let lv' = filter (\<lambda>a. \<not> isSubscriber a sub topics) lv in
      if length ch = 0 then Node ch lv'
      else Node (map (\<lambda>(k, item). (k, unsubscribeImpl sub topics item)) ch) lv')"

section \<open>Publishing\<close>

record 'c pub_state =
  pub_cache :: "string \<rightharpoonup> 'c list"
  pub_sent :: "'c list"

text \<open>\<^verbatim>\<open>_cache[topic].emplace_back(subscriber)\<close>: the entry is created where there is none.\<close>

definition cache_emplace :: "(string \<rightharpoonup> 'c list) \<Rightarrow> string \<Rightarrow> 'c \<Rightarrow> (string \<rightharpoonup> 'c list)" where
  "cache_emplace m topic s = m(topic \<mapsto> (case m topic of None \<Rightarrow> [] | Some l \<Rightarrow> l) @ [s])"

definition publish_leaf :: "bool \<Rightarrow> string \<Rightarrow> 'c subscription \<Rightarrow> 'c pub_state \<Rightarrow> 'c pub_state" where
  "publish_leaf useCache topic subscription st =
     (let st = st\<lparr>pub_sent := pub_sent st @ [subscriber subscription]\<rparr> in
      if useCache then st\<lparr>pub_cache := cache_emplace (pub_cache st) topic (subscriber subscription)\<rparr>
      else st)"

definition publishNode :: "bool \<Rightarrow> 'c node \<Rightarrow> string \<Rightarrow> 'c pub_state \<Rightarrow> 'c pub_state" where
  "publishNode useCache node topic st = fold (publish_leaf useCache topic) (leaves node) st"

fun publishImpl :: "bool \<Rightarrow> 'c node \<Rightarrow> string list \<Rightarrow> string \<Rightarrow> 'c pub_state \<Rightarrow> 'c pub_state" where
  "publishImpl useCache tree [] topic st = st"
| "publishImpl useCache tree (front # pubParts) topic st =
     fold (\<lambda>part st.
       (case map_of (children tree) part of
          None \<Rightarrow> st
        | Some node \<Rightarrow>
            let st = (if pubParts = [] \<or> part = ''#'' then publishNode useCache node topic st else st);
                st = (if pubParts = [] \<and> map_of (children node) ''#'' \<noteq> None
                      then publishNode useCache (the (map_of (children node) ''#'')) topic st
                      else st)
            in publishImpl useCache node pubParts topic st))
       [front, ''#'', ''+''] st"

section \<open>The broker\<close>

record 'c broker =
  useCache :: bool
  cache :: "string \<rightharpoonup> 'c list"
  tree :: "'c node"

definition new_broker :: "bool \<Rightarrow> 'c broker" where
  "new_broker uc = \<lparr>useCache = uc, cache = Map.empty, tree = Node [] []\<rparr>"

definition invalidateCache :: "'c broker \<Rightarrow> 'c broker" where
  "invalidateCache b = (if useCache b then b\<lparr>cache := Map.empty\<rparr> else b)"

definition subscribe_topic :: "(string \<Rightarrow> string list) \<Rightarrow> 'c \<Rightarrow> topic \<Rightarrow> 'c broker \<Rightarrow> 'c broker" where
  "subscribe_topic split sub t b =
     (let subParts = split (topic_topic t) in
      b\<lparr>tree := addOrFindNode (emplace_leaf \<lparr>subscriber = sub, sub_topic = topic_topic t\<rparr>)
                 (tree b) subParts\<rparr>)"

definition subscribe :: "(string \<Rightarrow> string list) \<Rightarrow> 'c \<Rightarrow> topic list \<Rightarrow> 'c broker \<Rightarrow> 'c broker" where
  "subscribe split sub topics b = fold (subscribe_topic split sub) topics (invalidateCache b)"

text \<open>The overload that takes topic strings.\<close>

definition subscribe_names :: "(string \<Rightarrow> string list) \<Rightarrow> 'c \<Rightarrow> string list \<Rightarrow> 'c broker \<Rightarrow> 'c broker" where
  "subscribe_names split sub topics b =
     subscribe split sub (map (\<lambda>t. \<lparr>topic_topic = t, topic_qos = 0\<rparr>) topics) b"

definition unsubscribe :: "'c \<Rightarrow> string list \<Rightarrow> 'c broker \<Rightarrow> 'c broker" where
  "unsubscribe sub topics b =
     (let b = invalidateCache b in b\<lparr>tree := unsubscribeImpl sub topics (tree b)\<rparr>)"

definition unsubscribe_all :: "'c \<Rightarrow> 'c broker \<Rightarrow> 'c broker" where
  "unsubscribe_all sub b = unsubscribe sub [] b"

text \<open>
  \<^verbatim>\<open>publish\<close> on a topic string: the new broker and the subscribers called, in order. The
  overloads convert the \<^verbatim>\<open>cstring_span\<close>, or the \<^verbatim>\<open>const char*\<close>, first.
\<close>

definition publish :: "(string \<Rightarrow> string list) \<Rightarrow> string \<Rightarrow> 'c broker \<Rightarrow> 'c broker \<times> 'c list" where
  "publish split topic b =
     (if useCache b \<and> cache b topic \<noteq> None then (b, the (cache b topic))
      else
        let pubParts = split topic;
            st = publishImpl (useCache b) (tree b) pubParts topic \<lparr>pub_cache = cache b, pub_sent = []\<rparr>
        in (b\<lparr>cache := pub_cache st\<rparr>, pub_sent st))"

definition publish_span :: "(string \<Rightarrow> string list) \<Rightarrow> ubyte span \<Rightarrow> 'c broker \<Rightarrow> ('c broker \<times> 'c list) result" where
  "publish_span split topicSpan b =
     bindE (to_string topicSpan) (\<lambda>topic. Inr (publish split topic b))"

definition publish_cstr :: "(string \<Rightarrow> string list) \<Rightarrow> ubyte ptr \<Rightarrow> 'c broker \<Rightarrow> ('c broker \<times> 'c list) result" where
  "publish_cstr split topic b =
     bindE (ensure_z topic) (\<lambda>topicSpan. publish_span split topicSpan b)"

end
