(* ===== verification/TopicTree.thy ===== *)
theory TopicTree
  imports Broker
begin

text \<open>
  The contract between the broker and its tree of topic levels. The tree stands for a list of
  entries, each a path of topic levels with a subscription; adding, removing and publishing are
  described on these entries, and \<open>hit_count\<close> says how often an entry is reached by a published
  topic. The locale \<open>topic_tree\<close> states the contract and what a client may conclude from
  it; the interpretation at the end discharges it for the functions of \<^verbatim>\<open>broker.hpp\<close>.
\<close>

section \<open>How often a filter is reached\<close>

fun hit_count :: "string list \<Rightarrow> string list \<Rightarrow> nat" where
  "hit_count f [] = 0"
| "hit_count [] (p # ps) = 0"
| "hit_count (x # fs) (p # ps) = count_list [p, ''#'', ''+''] x *
     (of_bool (fs = [] \<and> (ps = [] \<or> x = ''#'')) + of_bool (ps = [] \<and> fs = [''#'']) + hit_count fs ps)"

text \<open>The matching of the protocol: \<^verbatim>\<open>+\<close> is one level, a final \<^verbatim>\<open>#\<close> any number, also none.\<close>

fun mqtt_match :: "string list \<Rightarrow> string list \<Rightarrow> bool" where
  "mqtt_match [] ps = (ps = [])"
| "mqtt_match (x # fs) ps =
     ((x = ''#'' \<and> fs = []) \<or>
      (case ps of [] \<Rightarrow> False | p # ps' \<Rightarrow> (x = ''+'' \<or> x = p) \<and> mqtt_match fs ps'))"

definition valid_filter :: "string list \<Rightarrow> bool" where
  "valid_filter f \<longleftrightarrow> f \<noteq> [] \<and> ''#'' \<notin> set (butlast f)"

definition plain_topic :: "string list \<Rightarrow> bool" where
  "plain_topic t \<longleftrightarrow> t \<noteq> [] \<and> ''#'' \<notin> set t \<and> ''+'' \<notin> set t"

lemma hit_count_match:
  "''#'' \<notin> set (butlast f) \<Longrightarrow> f \<noteq> [] \<Longrightarrow> ''#'' \<notin> set t \<Longrightarrow> ''+'' \<notin> set t \<Longrightarrow> t \<noteq> [] \<Longrightarrow>
   hit_count f t = of_bool (mqtt_match f t)"
proof (induction f t rule: hit_count.induct)
  case (3 x fs p ps)
  show ?case
  proof (cases fs)
    case Nil
    with 3 show ?thesis by (cases ps) auto
  next
    case (Cons y gs)
    show ?thesis
    proof (cases ps)
      case Nil
      with 3 Cons show ?thesis by auto
    next
      case (Cons q qs)
      with 3 \<open>fs = y # gs\<close> show ?thesis by auto
    qed
  qed
qed auto

section \<open>The contract\<close>

type_synonym 'c entry = "string list \<times> 'c subscription"

definition reached :: "'c entry list \<Rightarrow> string list \<Rightarrow> 'c multiset" where
  "reached es ps = (\<Sum>(f, s) \<leftarrow> es. replicate_mset (hit_count f ps) (subscriber s))"

lemma reached_simps [simp]:
  "reached [] ps = {#}"
  "reached ((f, s) # es) ps = replicate_mset (hit_count f ps) (subscriber s) + reached es ps"
  "reached (es @ es') ps = reached es ps + reached es' ps"
  by (simp_all add: reached_def)

lemma reached_mset: "mset es = mset es' \<Longrightarrow> reached es ps = reached es' ps"
  by (simp add: reached_def flip: sum_mset_sum_list)

lemma set_reached: "c \<in># reached es ps \<longleftrightarrow> (\<exists>(f, s) \<in> set es. 0 < hit_count f ps \<and> subscriber s = c)"
  by (induction es) (auto split: if_splits)

locale topic_tree =
  fixes insert_at :: "'t \<Rightarrow> string list \<Rightarrow> 'c subscription \<Rightarrow> 't"
    and remove :: "'t \<Rightarrow> 'c \<Rightarrow> string list \<Rightarrow> 't"
    and deliver :: "'t \<Rightarrow> string list \<Rightarrow> 'c list"
    and entries :: "'t \<Rightarrow> 'c entry list"
    and invar :: "'t \<Rightarrow> bool"
  assumes entries_insert: "invar t \<Longrightarrow> mset (entries (insert_at t p s)) = mset (entries t) + {#(p, s)#}"
    and entries_remove: "entries (remove t c topics)
      = filter (\<lambda>(p, s). \<not> isSubscriber s c topics) (entries t)"
    and deliver_entries: "invar t \<Longrightarrow> mset (deliver t ps) = reached (entries t) ps"
    and invar_insert: "invar t \<Longrightarrow> invar (insert_at t p s)"
    and invar_remove: "invar t \<Longrightarrow> invar (remove t c topics)"
begin

lemma deliver_insert:
  "invar t \<Longrightarrow> mset (deliver (insert_at t p s) ps)
     = mset (deliver t ps) + replicate_mset (hit_count p ps) (subscriber s)"
  using reached_mset [of "entries (insert_at t p s)" "(p, s) # entries t"]
  by (simp add: deliver_entries invar_insert entries_insert)

lemma deliver_remove:
  "invar t \<Longrightarrow> mset (deliver (remove t c topics) ps)
     = reached (filter (\<lambda>(p, s). \<not> isSubscriber s c topics) (entries t)) ps"
  by (simp add: deliver_entries invar_remove entries_remove)

lemma deliver_iff:
  "invar t \<Longrightarrow> c \<in> set (deliver t ps) \<longleftrightarrow>
     (\<exists>(f, s) \<in> set (entries t). 0 < hit_count f ps \<and> subscriber s = c)"
  by (metis deliver_entries set_mset_mset set_reached)

lemma removed_not_delivered: "invar t \<Longrightarrow> c \<notin> set (deliver (remove t c []) ps)"
  by (auto simp: deliver_iff invar_remove entries_remove isSubscriber_def)

lemma others_still_delivered:
  "invar t \<Longrightarrow> c' \<noteq> c \<Longrightarrow> count (mset (deliver (remove t c topics) ps)) c' = count (mset (deliver t ps)) c'"
proof -
  assume inv: "invar t" and "c' \<noteq> c"
  then have "count (reached (filter (\<lambda>(p, s). \<not> isSubscriber s c topics) es) ps) c'
      = count (reached es ps) c'" for es
    by (induction es) (auto simp: isSubscriber_def)
  with inv show ?thesis by (simp add: deliver_remove deliver_entries)
qed

end

section \<open>The entries of a tree\<close>

fun subs :: "'c node \<Rightarrow> 'c entry list" where
  "subs (Node ch lv) = map (Pair []) lv
     @ concat (map (\<lambda>(k, n). map (\<lambda>(p, s). (k # p, s)) (subs n)) ch)"

fun node_ok :: "'c node \<Rightarrow> bool" where
  "node_ok (Node ch lv) \<longleftrightarrow> distinct (map fst ch) \<and> (\<forall>(k, n) \<in> set ch. node_ok n)"

text \<open>Weights of entries, summed over a tree.\<close>

definition weigh :: "(string list \<Rightarrow> nat) \<Rightarrow> 'c entry list \<Rightarrow> 'c multiset" where
  "weigh w es = (\<Sum>(f, s) \<leftarrow> es. replicate_mset (w f) (subscriber s))"

lemma weigh_simps [simp]:
  "weigh w [] = {#}"
  "weigh w (e # es) = replicate_mset (w (fst e)) (subscriber (snd e)) + weigh w es"
  "weigh w (es @ es') = weigh w es + weigh w es'"
  by (simp_all add: weigh_def split: prod.split)

lemma weigh_cong: "(\<And>f s. (f, s) \<in> set es \<Longrightarrow> w f = w' f) \<Longrightarrow> weigh w es = weigh w' es"
  unfolding weigh_def by (intro arg_cong [where f = sum_list] map_cong) auto

lemma replicate_mset_plus: "replicate_mset (m + n) x = replicate_mset m x + replicate_mset n x"
  by (induction m) simp_all

lemma weigh_add: "weigh (\<lambda>f. w f + w' f) es = weigh w es + weigh w' es"
  by (induction es) (simp_all add: replicate_mset_plus)

lemma replicate_mset_times: "replicate_mset (m * n) x = repeat_mset m (replicate_mset n x)"
  by (rule multiset_eqI) simp

lemma weigh_mult: "weigh (\<lambda>f. c * w f) es = repeat_mset c (weigh w es)"
  by (induction es) (simp_all add: replicate_mset_times)

lemma weigh_concat: "weigh w (concat (map g xs)) = (\<Sum>x \<leftarrow> xs. weigh w (g x))"
  by (induction xs) simp_all

lemma weigh_map: "weigh w (map (\<lambda>(p, s). (k # p, s)) es) = weigh (\<lambda>p. w (k # p)) es"
  by (induction es) auto

lemma weigh_subs:
  "weigh w (subs (Node ch lv)) = weigh w (map (Pair []) lv) + (\<Sum>(k, n) \<leftarrow> ch. weigh (\<lambda>p. w (k # p)) (subs n))"
  by (simp add: weigh_concat weigh_map [unfolded split_def] split_def)

lemma reached_weigh: "reached es ps = weigh (\<lambda>f. hit_count f ps) es"
  by (simp add: reached_def weigh_def)


section \<open>Publishing without the cache\<close>

text \<open>The subscribers \<^const>\<open>publishImpl\<close> calls, in order.\<close>

fun hits :: "'c node \<Rightarrow> string list \<Rightarrow> 'c list" where
  "hits t [] = []"
| "hits t (front # ps) = concat (map (\<lambda>part.
     (case map_of (children t) part of
        None \<Rightarrow> []
      | Some n \<Rightarrow> (if ps = [] \<or> part = ''#'' then map subscriber (leaves n) else [])
          @ (if ps = [] then (case map_of (children n) ''#'' of None \<Rightarrow> [] | Some m \<Rightarrow> map subscriber (leaves m))
             else [])
          @ hits n ps)) [front, ''#'', ''+''])"

definition publish_one :: "bool \<Rightarrow> string \<Rightarrow> 'c \<Rightarrow> 'c pub_state \<Rightarrow> 'c pub_state" where
  "publish_one uc topic c st = publish_leaf uc topic \<lparr>subscriber = c, sub_topic = topic\<rparr> st"

lemma publishNode_hits:
  "publishNode uc n topic st = fold (publish_one uc topic) (map subscriber (leaves n)) st"
  unfolding publishNode_def fold_map
  by (intro fold_cong)
     (simp_all add: publish_one_def [abs_def] publish_leaf_def [abs_def] comp_def fun_eq_iff Let_def)

lemma publishImpl_hits:
  "publishImpl uc t ps topic st = fold (publish_one uc topic) (hits t ps) st"
proof (induction ps arbitrary: t st)
  case (Cons front ps)
  have "fold (\<lambda>part st.
       (case map_of (children t) part of
          None \<Rightarrow> st
        | Some node \<Rightarrow>
            let st = (if ps = [] \<or> part = ''#'' then publishNode uc node topic st else st);
                st = (if ps = [] \<and> map_of (children node) ''#'' \<noteq> None
                      then publishNode uc (the (map_of (children node) ''#'')) topic st
                      else st)
            in publishImpl uc node ps topic st)) parts st
      = fold (publish_one uc topic) (concat (map (\<lambda>part.
     (case map_of (children t) part of
        None \<Rightarrow> []
      | Some n \<Rightarrow> (if ps = [] \<or> part = ''#'' then map subscriber (leaves n) else [])
          @ (if ps = [] then (case map_of (children n) ''#'' of None \<Rightarrow> [] | Some m \<Rightarrow> map subscriber (leaves m))
             else [])
          @ hits n ps)) parts)) st" for parts
    by (induction parts arbitrary: st)
       (auto simp: Cons.IH publishNode_hits Let_def split: option.split)
  from this [of "[front, ''#'', ''+'']"] show ?case
    by (simp only: publishImpl.simps hits.simps)
qed simp

lemma publish_many:
  "fold (publish_one uc topic) l st = \<lparr>
     pub_cache = (if uc \<and> l \<noteq> [] then (pub_cache st)(topic \<mapsto>
        (case pub_cache st topic of None \<Rightarrow> [] | Some l' \<Rightarrow> l') @ l) else pub_cache st),
     pub_sent = pub_sent st @ l\<rparr>"
  by (induction l arbitrary: st)
     (auto simp: publish_one_def publish_leaf_def cache_emplace_def Let_def)

section \<open>Publishing on the entries\<close>

lemma sum_alist:
  fixes g :: "'k \<Rightarrow> 'v \<Rightarrow> 'm multiset"
  assumes "distinct (map fst ch)"
  shows "(\<Sum>(k, n) \<leftarrow> ch. if k = part then g k n else {#})
    = (case map_of ch part of None \<Rightarrow> {#} | Some n \<Rightarrow> g part n)"
  using assms
proof (induction ch)
  case (Cons e ch)
  obtain k n where e: "e = (k, n)" by (cases e)
  have "(\<Sum>(k, n) \<leftarrow> ch. if k = part then g k n else {#}) = {#}" if "part \<notin> fst ` set ch"
    using that by (induction ch) auto
  with Cons e show ?case
    by (auto split: option.split simp: map_of_eq_None_iff)
qed simp

lemma sum_alist_count:
  fixes g :: "'k \<Rightarrow> 'v \<Rightarrow> 'm multiset"
  assumes "distinct (map fst ch)"
  shows "(\<Sum>(k, n) \<leftarrow> ch. repeat_mset (count_list parts k) (g k n))
    = (\<Sum>part \<leftarrow> parts. case map_of ch part of None \<Rightarrow> {#} | Some n \<Rightarrow> g part n)"
proof (induction parts)
  case (Cons part parts)
  have "(\<Sum>(k, n) \<leftarrow> ch. repeat_mset (count_list (part # parts) k) (g k n))
      = (\<Sum>(k, n) \<leftarrow> ch. if k = part then g k n else {#})
        + (\<Sum>(k, n) \<leftarrow> ch. repeat_mset (count_list parts k) (g k n))"
    by (induction ch) auto
  with Cons sum_alist [OF assms, of part g] show ?case by simp
qed (simp add: split_def)

lemma weigh_leaves: "weigh (\<lambda>f. of_bool (f = [])) (subs n) = mset (map subscriber (leaves n))"
proof (cases n)
  case (Node ch lv)
  have "weigh (\<lambda>f. of_bool (f = [])) (map (Pair []) lv) = mset (map subscriber lv)"
    by (induction lv) simp_all
  moreover have "weigh (\<lambda>_. 0) es = {#}" for es :: "'a entry list" by (induction es) simp_all
  ultimately show ?thesis
    by (simp only: Node weigh_subs) (simp add: split_def)
qed

lemma weigh_child:
  assumes "node_ok n"
  shows "weigh (\<lambda>f. of_bool (f = [k])) (subs n)
    = (case map_of (children n) k of None \<Rightarrow> {#} | Some m \<Rightarrow> mset (map subscriber (leaves m)))"
proof (cases n)
  case (Node ch lv)
  have "weigh (\<lambda>_. 0) es = {#}" for es :: "'a entry list" by (induction es) simp_all
  then have "weigh (\<lambda>f. of_bool (f = [k])) (subs n) =
      (\<Sum>(k', m) \<leftarrow> ch. if k' = k then mset (map subscriber (leaves m)) else {#})"
    unfolding Node weigh_subs
    by (induction lv) (auto simp: weigh_leaves [unfolded of_bool_def] of_bool_def intro!: arg_cong [where f = sum_list] map_cong)
  with sum_alist [of ch k "\<lambda>_ m. mset (map subscriber (leaves m))"] assms Node show ?thesis
    by simp
qed

lemma hits_reached:
  "node_ok t \<Longrightarrow> mset (hits t ps) = reached (subs t) ps"
proof (induction ps arbitrary: t)
  case Nil
  have "weigh (\<lambda>_. 0) es = {#}" for es :: "'a entry list" by (induction es) simp_all
  then show ?case by (simp add: reached_weigh)
next
  case (Cons q qs)
  obtain ch lv where t: "t = Node ch lv" by (cases t)
  let ?parts = "[q, ''#'', ''+'']"
  let ?g = "\<lambda>k n. weigh (\<lambda>p. of_bool (p = [] \<and> (qs = [] \<or> k = ''#'')) + of_bool (qs = [] \<and> p = [''#''])
      + hit_count p qs) (subs n)"
  have g: "?g k n = mset ((if qs = [] \<or> k = ''#'' then map subscriber (leaves n) else [])
          @ (if qs = [] then (case map_of (children n) ''#'' of None \<Rightarrow> [] | Some m \<Rightarrow> map subscriber (leaves m))
             else []) @ hits n qs)" if "(k, n) \<in> set ch" for k n
  proof -
    have n: "node_ok n" using Cons.prems t that by auto
    have z: "weigh (\<lambda>_. 0) es = {#}" for es :: "'a entry list" by (induction es) simp_all
    show ?thesis
      using n z by (auto simp: weigh_add Cons.IH reached_weigh weigh_leaves weigh_child
          split: option.split)
  qed
  have "reached (subs t) (q # qs) = (\<Sum>(k, n) \<leftarrow> ch. repeat_mset (count_list ?parts k) (?g k n))"
  proof -
    have "weigh (\<lambda>f. hit_count f (q # qs)) (map (Pair []) lv) = {#}" by (induction lv) simp_all
    then show ?thesis
      unfolding reached_weigh t weigh_subs
      by (simp only: hit_count.simps weigh_mult add_0)
  qed
  also have "\<dots> = (\<Sum>part \<leftarrow> ?parts. case map_of ch part of None \<Rightarrow> {#} | Some n \<Rightarrow> ?g part n)"
    using Cons.prems t by (intro sum_alist_count) simp
  also have "\<dots> = mset (hits t (q # qs))"
  proof -
    define G where "G part = (case map_of ch part of None \<Rightarrow> []
      | Some n \<Rightarrow> (if qs = [] \<or> part = ''#'' then map subscriber (leaves n) else [])
          @ (if qs = [] then (case map_of (children n) ''#'' of None \<Rightarrow> [] | Some m \<Rightarrow> map subscriber (leaves m))
             else []) @ hits n qs)" for part
    have "(case map_of ch part of None \<Rightarrow> {#} | Some n \<Rightarrow> ?g part n) = mset (G part)" for part
      using g [of part] by (cases "map_of ch part") (simp_all add: G_def map_of_SomeD)
    moreover have "hits t (q # qs) = concat (map G ?parts)"
      by (simp only: hits.simps G_def [abs_def] t node.sel)
    ultimately show ?thesis by (simp only: list.map mset_concat)
  qed
  finally show ?case ..
qed

section \<open>Adding and removing\<close>

lemma subs_child_update:
  assumes "distinct (map fst ch)" "map_of ch k = Some n"
  shows "mset (subs (Node (AList.update k n' ch) lv)) + mset (map (\<lambda>(p, s). (k # p, s)) (subs n))
    = mset (subs (Node ch lv)) + mset (map (\<lambda>(p, s). (k # p, s)) (subs n'))"
  using assms by (induction ch) (auto simp: ac_simps split: if_splits)

lemma subs_child_new:
  "map_of ch k = None \<Longrightarrow> subs (Node (AList.update k n ch) lv)
    = subs (Node ch lv) @ map (\<lambda>(p, s). (k # p, s)) (subs n)"
  by (induction ch) (auto split: if_splits)

lemma update_twice: "AList.update k n' (AList.update k n ch) = AList.update k n' ch"
  by (induction ch) auto

lemma addOrFindNode_Cons:
  "addOrFindNode f (Node ch lv) (k # ks)
    = Node (AList.update k (addOrFindNode f (case map_of ch k of None \<Rightarrow> Node [] [] | Some n \<Rightarrow> n) ks) ch) lv"
  by (cases "map_of ch k") (simp_all add: Let_def update_twice update_conv')

declare addOrFindNode.simps(2) [simp del]

lemma set_update: "(k, n) \<in> set (AList.update k' n' ch) \<Longrightarrow> (k, n) = (k', n') \<or> (k, n) \<in> set ch"
  by (induction ch) (auto split: if_splits)

lemma addOrFindNode_ok:
  assumes "node_ok t" "\<And>n. node_ok n \<Longrightarrow> node_ok (f n)"
  shows "node_ok (addOrFindNode f t ps)"
  using assms(1)
proof (induction ps arbitrary: t)
  case (Cons k ks)
  obtain ch lv where t: "t = Node ch lv" by (cases t)
  have "node_ok (case map_of ch k of None \<Rightarrow> Node [] [] | Some n \<Rightarrow> n)"
    using Cons.prems t by (auto split: option.split dest!: map_of_SomeD)
  from Cons.IH [OF this] Cons.prems show ?case
    by (auto simp: t addOrFindNode_Cons distinct_update dest!: set_update)
qed (simp add: assms)

lemma addOrFindNode_subs:
  "node_ok t \<Longrightarrow> mset (subs (addOrFindNode (emplace_leaf s) t ps)) = mset (subs t) + {#(ps, s)#}"
proof (induction ps arbitrary: t)
  case Nil
  then show ?case by (cases t) (simp add: emplace_leaf_def)
next
  case (Cons k ks)
  obtain ch lv where t: "t = Node ch lv" by (cases t)
  show ?case
  proof (cases "map_of ch k")
    case None
    with Cons.IH [of "Node [] []"] show ?thesis
      by (simp add: t addOrFindNode_Cons subs_child_new del: subs.simps) simp
  next
    case (Some n)
    with Cons.prems have "node_ok n" "distinct (map fst ch)"
      by (auto simp: t dest!: map_of_SomeD)
    with subs_child_update [OF this(2) Some, of "addOrFindNode (emplace_leaf s) n ks" lv] Cons.IH [OF this(1)]
    show ?thesis
      by (simp add: t addOrFindNode_Cons Some del: subs.simps)
  qed
qed

lemma unsubscribeImpl_Node:
  "unsubscribeImpl c topics (Node ch lv)
    = Node (map (\<lambda>(k, n). (k, unsubscribeImpl c topics n)) ch) (filter (\<lambda>a. \<not> isSubscriber a c topics) lv)"
  by (simp add: Let_def)

lemma unsubscribeImpl_ok: "node_ok t \<Longrightarrow> node_ok (unsubscribeImpl c topics t)"
  by (induction t rule: node_ok.induct) (auto simp: split_def comp_def unsubscribeImpl_Node simp del: unsubscribeImpl.simps)

lemma unsubscribeImpl_subs:
  "subs (unsubscribeImpl c topics t) = filter (\<lambda>(p, s). \<not> isSubscriber s c topics) (subs t)"
proof (induction t rule: subs.induct)
  case (1 ch lv)
  then show ?case
    by (auto simp: unsubscribeImpl_Node filter_concat filter_map comp_def split_def
        simp del: unsubscribeImpl.simps intro!: arg_cong [where f = concat] map_cong)
qed

lemma emplace_leaf_ok: "node_ok n \<Longrightarrow> node_ok (emplace_leaf s n)"
  by (cases n) (simp add: emplace_leaf_def)

interpretation bt: topic_tree "\<lambda>t p s. addOrFindNode (emplace_leaf s) t p"
  "\<lambda>t c topics. unsubscribeImpl c topics t" hits subs node_ok
  by unfold_locales
     (simp_all add: addOrFindNode_subs unsubscribeImpl_subs hits_reached addOrFindNode_ok
        emplace_leaf_ok unsubscribeImpl_ok)

section \<open>Topics without wildcards\<close>

lemma reached_once:
  assumes "\<forall>(f, s) \<in> set es. valid_filter f" "plain_topic t"
  shows "reached es t = mset (map (subscriber \<circ> snd) (filter (\<lambda>(f, s). mqtt_match f t) es))"
  using assms by (induction es) (auto simp: hit_count_match valid_filter_def plain_topic_def)

text \<open>
  In a tree whose filters the protocol allows, a topic without wildcards reaches the leaves
  whose filter matches it in the sense of the protocol, each of them once, and no other.
\<close>

lemma matching_leaves:
  assumes "node_ok n" "\<forall>(f, s) \<in> set (subs n). valid_filter f" "plain_topic t"
  shows "mset (hits n t) = mset (map (subscriber \<circ> snd) (filter (\<lambda>(f, s). mqtt_match f t) (subs n)))"
  using hits_reached [OF assms(1)] reached_once [OF assms(2,3)] by simp

definition a_tree :: "nat node" where
  "a_tree = Node
    [(''a'', Node [(''b'', Node [] [\<lparr>subscriber = 1, sub_topic = ''a/b''\<rparr>]),
                   (''+'', Node [] [\<lparr>subscriber = 2, sub_topic = ''a/+''\<rparr>])] []),
     (''#'', Node [] [\<lparr>subscriber = 1, sub_topic = ''#''\<rparr>])] []"

lemma matching_leaves_witness:
  "mset (hits a_tree [''a'', ''b'']) = {#1, 2, 1#} \<and> mset (hits a_tree [''c'']) = {#1#}"
proof -
  have "node_ok a_tree" "\<forall>(f, s) \<in> set (subs a_tree). valid_filter f"
    "plain_topic [''a'', ''b'']" "plain_topic [''c'']"
    by (simp_all add: a_tree_def valid_filter_def plain_topic_def)
  with matching_leaves [of a_tree] show ?thesis by (simp add: a_tree_def)
qed

end
