(* ===== verification/BrokerFacts.thy ===== *)
theory BrokerFacts
  imports TopicTree
begin

text \<open>
  The broker against its specification: a multiset of pairs of a subscriber and a topic filter.
  Subscribing adds pairs, unsubscribing removes them, and publishing calls a subscriber once for
  each way the topic reaches one of its filters. The cache is a copy of what the tree would
  deliver, so that it can not be observed.
\<close>

section \<open>The invariant\<close>

definition cache_ok :: "(string \<Rightarrow> string list) \<Rightarrow> 'c broker \<Rightarrow> bool" where
  "cache_ok split b \<longleftrightarrow> (\<forall>topic l. cache b topic = Some l \<longrightarrow> l = hits (tree b) (split topic))"

definition paths_ok :: "(string \<Rightarrow> string list) \<Rightarrow> 'c broker \<Rightarrow> bool" where
  "paths_ok split b \<longleftrightarrow> (\<forall>(p, s) \<in> set (subs (tree b)). p = split (sub_topic s))"

definition broker_ok :: "(string \<Rightarrow> string list) \<Rightarrow> 'c broker \<Rightarrow> bool" where
  "broker_ok split b \<longleftrightarrow> node_ok (tree b) \<and> paths_ok split b \<and> cache_ok split b
     \<and> (\<not> useCache b \<longrightarrow> cache b = Map.empty)"

text \<open>The abstraction: who is subscribed to what.\<close>

definition entry_of :: "'c entry \<Rightarrow> 'c \<times> string" where
  "entry_of e = (subscriber (snd e), sub_topic (snd e))"

definition subscriptions :: "'c broker \<Rightarrow> ('c \<times> string) multiset" where
  "subscriptions b = mset (map entry_of (subs (tree b)))"

text \<open>What a publication must do.\<close>

definition deliveries ::
  "(string \<Rightarrow> string list) \<Rightarrow> ('c \<times> string) multiset \<Rightarrow> string \<Rightarrow> 'c multiset" where
  "deliveries split ss topic =
     (\<Sum>(c, f) \<in># ss. replicate_mset (hit_count (split f) (split topic)) c)"

lemma deliveries_simps [simp]:
  "deliveries split {#} topic = {#}"
  "deliveries split (add_mset (c, f) ss) topic
     = replicate_mset (hit_count (split f) (split topic)) c + deliveries split ss topic"
  by (simp_all add: deliveries_def)

lemma deliveries_union [simp]:
  "deliveries split (ss + ss') topic = deliveries split ss topic + deliveries split ss' topic"
  by (simp add: deliveries_def)

lemma reached_deliveries:
  "\<forall>(p, s) \<in> set es. p = split (sub_topic s) \<Longrightarrow>
   reached es (split topic) = deliveries split (mset (map entry_of es)) topic"
  by (induction es) (auto simp: entry_of_def)

lemma tree_update [simp]: "tree (b\<lparr>tree := t\<rparr>) = t" "cache (b\<lparr>tree := t\<rparr>) = cache b" by simp_all

section \<open>The operations\<close>

lemma broker_ok_new: "broker_ok split (new_broker uc)"
  by (simp add: broker_ok_def new_broker_def cache_ok_def paths_ok_def)

lemma subscriptions_new: "subscriptions (new_broker uc) = {#}"
  by (simp add: subscriptions_def new_broker_def)

lemma invalidateCache_simps [simp]:
  "tree (invalidateCache b) = tree b" "useCache (invalidateCache b) = useCache b"
  by (simp_all add: invalidateCache_def)

lemma invalidateCache_empty: "broker_ok split b \<Longrightarrow> cache (invalidateCache b) = Map.empty"
  by (simp add: invalidateCache_def broker_ok_def)

lemma subscribe_topic_simps [simp]:
  "useCache (subscribe_topic split c t b) = useCache b" "cache (subscribe_topic split c t b) = cache b"
  "tree (subscribe_topic split c t b) = addOrFindNode (emplace_leaf \<lparr>subscriber = c, sub_topic = topic_topic t\<rparr>)
     (tree b) (split (topic_topic t))"
  by (simp_all add: subscribe_topic_def Let_def)

lemma subscribe_topic_ok:
  assumes "broker_ok split b" "cache b = Map.empty"
  shows "broker_ok split (subscribe_topic split c t b)"
    and "subscriptions (subscribe_topic split c t b) = add_mset (c, topic_topic t) (subscriptions b)"
proof -
  let ?s = "\<lparr>subscriber = c, sub_topic = topic_topic t\<rparr>"
  let ?b = "subscribe_topic split c t b"
  have "node_ok (tree b)" using assms by (simp add: broker_ok_def)
  from bt.entries_insert [OF this, of ?s "split (topic_topic t)"]
  have m: "mset (subs (tree ?b)) = mset (subs (tree b)) + {#(split (topic_topic t), ?s)#}" by simp
  then have "set (subs (tree ?b)) = insert (split (topic_topic t), ?s) (set (subs (tree b)))"
    using arg_cong [OF m, of set_mset] by (simp flip: set_mset_mset)
  then show "broker_ok split ?b"
    using assms bt.invar_insert [OF \<open>node_ok (tree b)\<close>]
    by (simp add: broker_ok_def paths_ok_def cache_ok_def)
  from m show "subscriptions ?b = add_mset (c, topic_topic t) (subscriptions b)"
    by (simp add: subscriptions_def entry_of_def)
qed

lemma subscribe_topics:
  "broker_ok split b \<Longrightarrow> cache b = Map.empty \<Longrightarrow>
   broker_ok split (fold (subscribe_topic split c) ts b) \<and>
   subscriptions (fold (subscribe_topic split c) ts b)
     = subscriptions b + mset (map (\<lambda>t. (c, topic_topic t)) ts)"
  by (induction ts arbitrary: b) (simp_all add: subscribe_topic_ok)

lemma invalidateCache_ok: "broker_ok split b \<Longrightarrow> broker_ok split (invalidateCache b)"
  by (simp add: broker_ok_def invalidateCache_def cache_ok_def paths_ok_def)

lemma subscriptions_invalidateCache [simp]: "subscriptions (invalidateCache b) = subscriptions b"
  by (simp add: subscriptions_def)

lemma subscribe_ok:
  assumes "broker_ok split b"
  shows "broker_ok split (subscribe split c ts b)"
    and "subscriptions (subscribe split c ts b) = subscriptions b + mset (map (\<lambda>t. (c, topic_topic t)) ts)"
  using subscribe_topics [OF invalidateCache_ok [OF assms] invalidateCache_empty [OF assms], of c ts]
  by (simp_all add: subscribe_def)

lemma subscribe_names_ok:
  assumes "broker_ok split b"
  shows "broker_ok split (subscribe_names split c fs b)"
    and "subscriptions (subscribe_names split c fs b) = subscriptions b + mset (map (Pair c) fs)"
  using subscribe_ok [OF assms] by (simp_all add: subscribe_names_def multiset.map_comp comp_def)

text \<open>The pairs an unsubscription takes away.\<close>

definition dropped :: "'c \<Rightarrow> string list \<Rightarrow> 'c \<times> string \<Rightarrow> bool" where
  "dropped c fs e \<longleftrightarrow> fst e = c \<and> (fs = [] \<or> snd e \<in> set fs)"

lemma isSubscriber_dropped: "dropped c fs (entry_of (p, s)) \<longleftrightarrow> isSubscriber s c fs"
  by (auto simp: isSubscriber_def dropped_def entry_of_def)

lemma unsubscribe_ok:
  assumes "broker_ok split b"
  shows "broker_ok split (unsubscribe c fs b)"
    and "subscriptions (unsubscribe c fs b) = filter_mset (\<lambda>e. \<not> dropped c fs e) (subscriptions b)"
proof -
  have t: "tree (unsubscribe c fs b) = unsubscribeImpl c fs (tree b)" by (simp add: unsubscribe_def Let_def)
  have "cache (unsubscribe c fs b) = Map.empty"
    using invalidateCache_empty [OF assms] by (simp add: unsubscribe_def Let_def)
  with assms t show "broker_ok split (unsubscribe c fs b)"
    by (auto simp: broker_ok_def bt.invar_remove cache_ok_def paths_ok_def bt.entries_remove)
  have "map entry_of (filter (\<lambda>(p, s). \<not> isSubscriber s c fs) es)
      = filter (\<lambda>e. \<not> dropped c fs e) (map entry_of es)" for es
    by (induction es) (auto simp: isSubscriber_dropped)
  then show "subscriptions (unsubscribe c fs b) = filter_mset (\<lambda>e. \<not> dropped c fs e) (subscriptions b)"
    by (simp add: subscriptions_def t bt.entries_remove)
qed

lemma publish_hits: "broker_ok split b \<Longrightarrow> snd (publish split topic b) = hits (tree b) (split topic)"
  by (auto simp: publish_def Let_def publishImpl_hits publish_many broker_ok_def cache_ok_def)

lemma publish_keeps [simp]:
  "tree (fst (publish split topic b)) = tree b"
  "useCache (fst (publish split topic b)) = useCache b"
  by (simp_all add: publish_def Let_def)

lemma publish_ok:
  assumes "broker_ok split b"
  shows "broker_ok split (fst (publish split topic b))"
    and "subscriptions (fst (publish split topic b)) = subscriptions b"
    and "mset (snd (publish split topic b)) = deliveries split (subscriptions b) topic"
proof -
  show "subscriptions (fst (publish split topic b)) = subscriptions b"
    by (simp add: subscriptions_def)
  have c: "cache (fst (publish split topic b)) = (if useCache b \<and> cache b topic = None \<and> hits (tree b) (split topic) \<noteq> []
      then (cache b)(topic \<mapsto> hits (tree b) (split topic)) else cache b)"
    by (simp add: publish_def Let_def publishImpl_hits publish_many)
  show "broker_ok split (fst (publish split topic b))"
    using assms by (simp add: broker_ok_def cache_ok_def paths_ok_def c)
  show "mset (snd (publish split topic b)) = deliveries split (subscriptions b) topic"
    using assms bt.deliver_entries [of "tree b" "split topic"]
      reached_deliveries [of "subs (tree b)" split topic]
    by (simp add: publish_hits broker_ok_def paths_ok_def subscriptions_def)
qed

section \<open>Runs\<close>

datatype 'c broker_op = Sub 'c "topic list" | Unsub 'c "string list" | Pub string

fun broker_step :: "(string \<Rightarrow> string list) \<Rightarrow> 'c broker_op \<Rightarrow> 'c broker \<Rightarrow> 'c broker \<times> 'c list" where
  "broker_step split (Sub c ts) b = (subscribe split c ts b, [])"
| "broker_step split (Unsub c fs) b = (unsubscribe c fs b, [])"
| "broker_step split (Pub topic) b = publish split topic b"

fun broker_run :: "(string \<Rightarrow> string list) \<Rightarrow> 'c broker_op list \<Rightarrow> 'c broker \<Rightarrow> 'c broker \<times> 'c list list" where
  "broker_run split [] b = (b, [])"
| "broker_run split (x # xs) b =
     (let (b, out) = broker_step split x b; (b, outs) = broker_run split xs b in (b, out # outs))"

text \<open>The same run on the specification.\<close>

fun spec_step :: "(string \<Rightarrow> string list) \<Rightarrow> 'c broker_op \<Rightarrow> ('c \<times> string) multiset
    \<Rightarrow> ('c \<times> string) multiset \<times> 'c multiset" where
  "spec_step split (Sub c ts) ss = (ss + mset (map (\<lambda>t. (c, topic_topic t)) ts), {#})"
| "spec_step split (Unsub c fs) ss = (filter_mset (\<lambda>e. \<not> dropped c fs e) ss, {#})"
| "spec_step split (Pub topic) ss = (ss, deliveries split ss topic)"

fun spec_run :: "(string \<Rightarrow> string list) \<Rightarrow> 'c broker_op list \<Rightarrow> ('c \<times> string) multiset
    \<Rightarrow> ('c \<times> string) multiset \<times> 'c multiset list" where
  "spec_run split [] ss = (ss, [])"
| "spec_run split (x # xs) ss =
     (let (ss, out) = spec_step split x ss; (ss, outs) = spec_run split xs ss in (ss, out # outs))"

lemma broker_step_ok:
  assumes "broker_ok split b"
  shows "broker_ok split (fst (broker_step split x b))"
    and "spec_step split x (subscriptions b)
      = (subscriptions (fst (broker_step split x b)), mset (snd (broker_step split x b)))"
  using assms by (cases x; simp add: subscribe_ok unsubscribe_ok publish_ok)+

lemma broker_run_ok:
  "broker_ok split b \<Longrightarrow> broker_ok split (fst (broker_run split xs b)) \<and>
   spec_run split xs (subscriptions b)
     = (subscriptions (fst (broker_run split xs b)), map mset (snd (broker_run split xs b)))"
  by (induction xs arbitrary: b) (simp_all add: broker_step_ok split_def Let_def)

text \<open>Two brokers with one tree, whatever their caches.\<close>

lemma subscribe_tree:
  "tree (fold (subscribe_topic split c) ts b) = fold (\<lambda>t n. addOrFindNode
     (emplace_leaf \<lparr>subscriber = c, sub_topic = topic_topic t\<rparr>) n (split (topic_topic t))) ts (tree b)"
  by (induction ts arbitrary: b) simp_all

lemma broker_step_same:
  assumes "broker_ok split b" "broker_ok split b'" "tree b = tree b'"
  shows "snd (broker_step split x b) = snd (broker_step split x b')"
    and "tree (fst (broker_step split x b)) = tree (fst (broker_step split x b'))"
proof -
  show "snd (broker_step split x b) = snd (broker_step split x b')"
    using assms by (cases x) (simp_all add: publish_hits)
  show "tree (fst (broker_step split x b)) = tree (fst (broker_step split x b'))"
    using assms(3) by (cases x) (simp_all add: subscribe_def subscribe_tree unsubscribe_def Let_def)
qed

lemma broker_run_same:
  "broker_ok split b \<Longrightarrow> broker_ok split b' \<Longrightarrow> tree b = tree b' \<Longrightarrow>
   snd (broker_run split xs b) = snd (broker_run split xs b')"
proof (induction xs arbitrary: b b')
  case (Cons x xs)
  from Cons.IH [OF broker_step_ok(1) broker_step_ok(1) broker_step_same(2), of b b'] Cons.prems
    broker_step_same(1) [of split b b' x]
  show ?case by (simp add: split_def Let_def)
qed simp

section \<open>The contract of the broker\<close>

text \<open>
  What a server may rely on: \<open>held\<close> is the multiset of subscriptions, and a publication
  reaches a subscriber as often as the weights \<open>reach\<close> of its filters say.
\<close>

locale message_broker =
  fixes sub :: "'c \<Rightarrow> string list \<Rightarrow> 'b \<Rightarrow> 'b"
    and unsub :: "'c \<Rightarrow> string list \<Rightarrow> 'b \<Rightarrow> 'b"
    and pub :: "string \<Rightarrow> 'b \<Rightarrow> 'b \<times> 'c list"
    and held :: "'b \<Rightarrow> ('c \<times> string) multiset"
    and reach :: "string \<Rightarrow> string \<Rightarrow> nat"
    and invar :: "'b \<Rightarrow> bool"
  assumes held_sub: "invar b \<Longrightarrow> held (sub c fs b) = held b + mset (map (Pair c) fs)"
    and held_unsub: "invar b \<Longrightarrow> held (unsub c fs b) = filter_mset (\<lambda>e. \<not> dropped c fs e) (held b)"
    and held_pub: "invar b \<Longrightarrow> held (fst (pub topic b)) = held b"
    and pub_held: "invar b \<Longrightarrow>
      mset (snd (pub topic b)) = (\<Sum>(c, f) \<in># held b. replicate_mset (reach f topic) c)"
    and invar_sub: "invar b \<Longrightarrow> invar (sub c fs b)"
    and invar_unsub: "invar b \<Longrightarrow> invar (unsub c fs b)"
    and invar_pub: "invar b \<Longrightarrow> invar (fst (pub topic b))"
begin

lemma in_weights: "c \<in># (\<Sum>(c, f) \<in># ss. replicate_mset (reach f topic) c)
    \<longleftrightarrow> (\<exists>f. (c, f) \<in># ss \<and> 0 < reach f topic)"
  by (induction ss) (auto split: if_splits)

lemma delivered_iff:
  "invar b \<Longrightarrow> c \<in> set (snd (pub topic b)) \<longleftrightarrow> (\<exists>f. (c, f) \<in># held b \<and> 0 < reach f topic)"
  by (metis in_weights pub_held set_mset_mset)

lemma subscribed_is_reached:
  "invar b \<Longrightarrow> f \<in> set fs \<Longrightarrow> 0 < reach f topic \<Longrightarrow> c \<in> set (snd (pub topic (sub c fs b)))"
  by (auto simp: delivered_iff invar_sub held_sub)

lemma others_unaffected_by_sub:
  assumes "invar b" "c' \<noteq> c"
  shows "count (mset (snd (pub topic (sub c fs b)))) c' = count (mset (snd (pub topic b))) c'"
proof -
  have "count (\<Sum>(c, f) \<in># mset (map (Pair c) fs). replicate_mset (reach f topic) c) c' = 0"
    using assms(2) by (induction fs) simp_all
  with assms(1) show ?thesis by (simp only: pub_held invar_sub held_sub) simp
qed

lemma others_unaffected_by_unsub:
  assumes "invar b" "c' \<noteq> c"
  shows "count (mset (snd (pub topic (unsub c fs b)))) c' = count (mset (snd (pub topic b))) c'"
proof -
  have "count (\<Sum>(c, f) \<in># filter_mset (\<lambda>e. \<not> dropped c fs e) ss. replicate_mset (reach f topic) c) c'
      = count (\<Sum>(c, f) \<in># ss. replicate_mset (reach f topic) c) c'" for ss
    using assms(2) by (induction ss) (auto simp: dropped_def)
  with assms(1) show ?thesis by (simp only: pub_held invar_unsub held_unsub)
qed

text \<open>A subscriber that left is not reached again before it subscribes again.\<close>

lemma unsub_all_gone: "invar b \<Longrightarrow> c \<notin> fst ` set_mset (held (unsub c [] b))"
  by (auto simp: held_unsub dropped_def)

lemma gone_not_reached: "invar b \<Longrightarrow> c \<notin> fst ` set_mset (held b) \<Longrightarrow> c \<notin> set (snd (pub topic b))"
  by (force simp: delivered_iff)

lemma gone_stays:
  "invar b \<Longrightarrow> c \<notin> fst ` set_mset (held b) \<Longrightarrow> c' \<noteq> c \<Longrightarrow> c \<notin> fst ` set_mset (held (sub c' fs b))"
  "invar b \<Longrightarrow> c \<notin> fst ` set_mset (held b) \<Longrightarrow> c \<notin> fst ` set_mset (held (unsub c' fs b))"
  "invar b \<Longrightarrow> c \<notin> fst ` set_mset (held b) \<Longrightarrow> c \<notin> fst ` set_mset (held (fst (pub topic b)))"
  by (auto simp: held_sub held_unsub held_pub)

end

text \<open>Filters the protocol allows, topics without wildcards.\<close>

definition match_count :: "(string \<Rightarrow> string list) \<Rightarrow> string \<Rightarrow> string \<Rightarrow> nat" where
  "match_count split f topic = hit_count (split f) (split topic)"

interpretation mb: message_broker "subscribe_names split" unsubscribe "publish split" subscriptions
  "match_count split" "broker_ok split" for split
  by unfold_locales
     (simp_all add: subscribe_names_ok unsubscribe_ok publish_ok deliveries_def match_count_def)

lemma subscribe_is_names: "subscribe split c ts b = subscribe_names split c (map topic_topic ts) b"
proof -
  have "fold (subscribe_topic split c) ts b
      = fold (subscribe_topic split c) (map (\<lambda>t. \<lparr>topic_topic = topic_topic t, topic_qos = 0\<rparr>) ts) b" for b
    by (induction ts arbitrary: b) (simp_all add: subscribe_topic_def)
  then show ?thesis by (simp add: subscribe_names_def subscribe_def comp_def)
qed

text \<open>No later delivery to a subscriber that left, in any run.\<close>

definition subscribes :: "'c \<Rightarrow> 'c broker_op \<Rightarrow> bool" where
  "subscribes c x = (case x of Sub c' ts \<Rightarrow> c' = c | _ \<Rightarrow> False)"

lemma broker_step_gone:
  assumes "broker_ok split b" "c \<notin> fst ` set_mset (subscriptions b)" "\<not> subscribes c x"
  shows "c \<notin> fst ` set_mset (subscriptions (fst (broker_step split x b)))"
    and "c \<notin> set (snd (broker_step split x b))"
  using assms mb.gone_stays [OF assms(1,2)] mb.gone_not_reached [OF assms(1,2)]
  by (cases x; simp add: subscribes_def subscribe_is_names)+

lemma broker_run_gone:
  "broker_ok split b \<Longrightarrow> c \<notin> fst ` set_mset (subscriptions b) \<Longrightarrow> \<not> (\<exists>x \<in> set xs. subscribes c x) \<Longrightarrow>
   c \<notin> \<Union> (set ` set (snd (broker_run split xs b)))"
proof (induction xs arbitrary: b)
  case (Cons x xs)
  from Cons.IH [OF broker_step_ok(1) broker_step_gone(1)] Cons.prems broker_step_gone(2) [of split b c x]
  show ?case by (auto simp: split_def Let_def)
qed simp

text \<open>Exactly once for each matching subscription.\<close>

lemma deliveries_once:
  assumes "\<forall>e \<in># ss. valid_filter (split (snd e))" "plain_topic (split topic)"
  shows "count (deliveries split ss topic) c
    = size {# e \<in># ss. fst e = c \<and> mqtt_match (split (snd e)) (split topic) #}"
  using assms by (induction ss)
    (auto simp: hit_count_match valid_filter_def plain_topic_def)

lemma publish_once:
  assumes "broker_ok split b" "\<forall>e \<in># subscriptions b. valid_filter (split (snd e))"
    "plain_topic (split topic)"
  shows "count (mset (snd (publish split topic b))) c
    = size {# e \<in># subscriptions b. fst e = c \<and> mqtt_match (split (snd e)) (split topic) #}"
  using assms by (simp add: publish_ok deliveries_once)

text \<open>A concrete \<^verbatim>\<open>boost::split\<close> at slashes, for the witnesses: it never returns an empty vector.\<close>

fun split_slash :: "string \<Rightarrow> string list" where
  "split_slash [] = [[]]"
| "split_slash (x # xs) = (let ys = split_slash xs in
     if x = CHR ''/'' then [] # ys else (x # hd ys) # tl ys)"

section \<open>Properties\<close>

text \<open>
  C6. Every sequence of operations of the broker, from the empty broker and with or without the
  cache, calls for every publication the subscribers that the specification of multisets says,
  as often as it says, and ends with the subscriptions it says.
\<close>

theorem broker_refines:
  "spec_run split xs {#} = (subscriptions (fst (broker_run split xs (new_broker uc))),
     map mset (snd (broker_run split xs (new_broker uc))))"
  using broker_run_ok [OF broker_ok_new, of split xs uc] by (simp add: subscriptions_new)

text \<open>
  C9. The cache can not be observed: any sequence of operations calls the same subscribers in
  the same order with it and without it.
\<close>

theorem cache_unobservable:
  "snd (broker_run split xs (new_broker True)) = snd (broker_run split xs (new_broker False))"
  by (rule broker_run_same) (simp_all add: broker_ok_new, simp add: new_broker_def)

text \<open>
  C10. After any sequence of operations that left only filters the protocol allows, publishing
  on a topic without wildcards calls a subscriber once for each of its subscriptions that match.
\<close>

theorem delivered_once_per_match:
  assumes "b = fst (broker_run split xs (new_broker uc))"
    and "\<forall>e \<in># subscriptions b. valid_filter (split (snd e))" "plain_topic (split topic)"
  shows "count (mset (snd (publish split topic b))) c
    = size {# e \<in># subscriptions b. fst e = c \<and> mqtt_match (split (snd e)) (split topic) #}"
  using assms broker_run_ok [OF broker_ok_new, of split xs uc] by (intro publish_once) simp_all

definition an_op_list :: "nat broker_op list" where
  "an_op_list = [Sub 5 [\<lparr>topic_topic = ''a/#'', topic_qos = 0\<rparr>], Sub 6 [\<lparr>topic_topic = ''a/+'', topic_qos = 1\<rparr>,
     \<lparr>topic_topic = ''b'', topic_qos = 1\<rparr>], Pub ''a/x'', Unsub 6 [''b'']]"

theorem delivered_once_per_match_witness:
  "count (mset (snd (publish split_slash ''a/b'' (fst (broker_run split_slash an_op_list (new_broker True)))))) 6 = 1"
proof -
  let ?b = "fst (broker_run split_slash an_op_list (new_broker True))"
  have "fst (spec_run split_slash an_op_list {#}) = {# (6, ''a/+''), (5, ''a/#'') #}"
    by (simp add: an_op_list_def dropped_def)
  then have ss: "subscriptions ?b = {# (6, ''a/+''), (5, ''a/#'') #}"
    using broker_run_ok [OF broker_ok_new [of split_slash True], of an_op_list] by (simp add: subscriptions_new)
  have "\<forall>e \<in># subscriptions ?b. valid_filter (split_slash (snd e))" "plain_topic (split_slash ''a/b'')"
    by (simp_all add: ss valid_filter_def plain_topic_def)
  from delivered_once_per_match [OF refl this, of 6] show ?thesis by (simp add: ss)
qed

text \<open>
  C17. Unsubscribing from a list of topics takes away exactly the subscriber's subscriptions
  with these topics, all of its subscriptions when the list is empty, and keeps the invariant.
\<close>

theorem unsubscribe_exact:
  assumes "broker_ok split b"
  shows "subscriptions (unsubscribe c fs b)
      = {# e \<in># subscriptions b. \<not> (fst e = c \<and> (fs = [] \<or> snd e \<in> set fs)) #}
    \<and> broker_ok split (unsubscribe c fs b)"
  using unsubscribe_ok [OF assms] by (simp_all add: dropped_def)

theorem unsubscribe_exact_witness:
  "subscriptions (unsubscribe 5 [] (subscribe_names split_slash (5 :: nat) [''a'', ''b''] (new_broker True))) = {#}"
  using unsubscribe_exact [OF subscribe_names_ok(1) [OF broker_ok_new], of "5 :: nat" "[]" split_slash "5 :: nat" "[''a'', ''b'']" True]
  by (simp add: subscribe_names_ok broker_ok_new subscriptions_new)

text \<open>
  Publishing on a topic whose last level is itself a wildcard calls a subscriber of this
  topic at least twice: the level is looked up as it is and as the wildcard.
\<close>

lemma wildcard_topic_twice:
  assumes "broker_ok split b" "split t = ps @ [w]" "w = ''#'' \<or> w = ''+''" "(c, t) \<in># subscriptions b"
  shows "2 \<le> count (mset (snd (publish split t b))) c"
proof -
  have "2 \<le> hit_count (ps @ [w]) (ps @ [w])"
  proof (induction ps)
    case (Cons p ps)
    have "hit_count (ps @ [w]) (ps @ [w]) \<le> hit_count (p # ps @ [w]) (p # ps @ [w])" by simp
    with Cons show ?case by simp
  qed (use assms(3) in auto)
  moreover obtain ss where "subscriptions b = add_mset (c, t) ss"
    using assms(4) by (metis insert_DiffM)
  ultimately show ?thesis
    using publish_ok(3) [OF assms(1), of t] assms(2) by simp
qed

lemma wildcard_topic_twice_witness:
  "2 \<le> count (mset (snd (publish split_slash ''a/+'' (subscribe_names split_slash (5 :: nat) [''a/+''] (new_broker False))))) 5"
  by (rule wildcard_topic_twice [where ps = "[''a'']" and w = "''+''"])
     (simp_all add: subscribe_names_ok broker_ok_new)

end
