(* ===== verification/Server.thy ===== *)
theory Server
  imports Codec BrokerFacts
begin

text \<open>
  The server of \<^verbatim>\<open>src/src/server.hpp\<close>: one message of a connection is looked at, the broker
  changed or asked, and connections are called. A call on a connection is an \<^verbatim>\<open>action\<close>; the
  server reacts to one message with a list of them, in the order in which they are made.
\<close>

section \<open>The server\<close>

datatype 'c action = NewMessage 'c "ubyte span" | Disconnect 'c

record 'c server =
  srv_broker :: "'c broker"

definition new_server :: "bool \<Rightarrow> 'c server" where
  "new_server uc = \<lparr>srv_broker = new_broker uc\<rparr>"

text \<open>\<^verbatim>\<open>connection.newMessage(bytes)\<close> on an array or vector, which becomes a span.\<close>

definition send_bytes :: "'c \<Rightarrow> ubyte list \<Rightarrow> 'c action result" where
  "send_bytes c bs = bindE (span_of_container bs) (\<lambda>sp. Inr (NewMessage c sp))"

definition connack_ok :: "ubyte list" where
  "connack_ok = [32, 2, 0, 0]"

definition ping_resp :: "ubyte list" where
  "ping_resp = [0xd0, 0]"

text \<open>
  \<^verbatim>\<open>Decerealiser dec{bytes}; hdr = dec.create<MqttFixedHeader>(); dec.reset();
  msg = dec.create<M>(hdr)\<close>: the constructor copies the bytes of the span.
\<close>

definition create_with_header ::
  "(mqtt_fixed_header \<Rightarrow> 'm) \<Rightarrow> 'm grain \<Rightarrow> ubyte span \<Rightarrow> 'm result" where
  "create_with_header new g bytes =
     bindE (span_elements bytes) (\<lambda>bs.
     bindE (header_cerealise new_fixed_header (Read (decerealiser_of bs))) (\<lambda>(hdr, c).
     case c of
       Write _ \<Rightarrow> Inl Undefined
     | Read d \<Rightarrow> bindE (g (new hdr) (Read (reset d))) (\<lambda>(msg, _). Inr msg)))"

text \<open>\<open>mem\<close> is what the memory of \<^verbatim>\<open>MqttUnsubscribe::msgId\<close> held before it was read.\<close>

definition handle_subscribe ::
  "(string \<Rightarrow> string list) \<Rightarrow> 'c \<Rightarrow> ubyte span \<Rightarrow> 'c server \<Rightarrow> ('c server \<times> 'c action list) result" where
  "handle_subscribe split connection bytes s =
     bindE (create_with_header new_subscribe subscribe_cerealise bytes) (\<lambda>msg.
     let s = s\<lparr>srv_broker := subscribe split connection (sub_topics msg) (srv_broker s)\<rparr>;
         suback = [0x90, 3, 0, 0, 0];
         suback = suback[2 := ucast (drop_bit 8 (sub_msgId msg))];
         suback = suback[3 := ucast (sub_msgId msg AND 0xff)] in
     bindE (send_bytes connection suback) (\<lambda>a. Inr (s, [a])))"

definition handle_unsubscribe ::
  "ushort \<Rightarrow> 'c \<Rightarrow> ubyte span \<Rightarrow> 'c server \<Rightarrow> ('c server \<times> 'c action list) result" where
  "handle_unsubscribe mem connection bytes s =
     bindE (create_with_header (new_unsubscribe mem) unsubscribe_cerealise bytes) (\<lambda>msg.
     let s = s\<lparr>srv_broker := unsubscribe connection (unsub_topics msg) (srv_broker s)\<rparr>;
         unsuback = [0xb0, 2, ucast (drop_bit 8 (unsub_msgId msg)), ucast (unsub_msgId msg AND 0xff)] in
     bindE (send_bytes connection unsuback) (\<lambda>a. Inr (s, [a])))"

definition handle_publish ::
  "(string \<Rightarrow> string list) \<Rightarrow> ubyte span \<Rightarrow> 'c server \<Rightarrow> ('c server \<times> 'c action list) result" where
  "handle_publish split bytes s =
     bindE (getPublishTopic bytes) (\<lambda>topicSpan.
     bindE (publish_span split topicSpan (srv_broker s)) (\<lambda>(b, subs).
     Inr (s\<lparr>srv_broker := b\<rparr>, map (\<lambda>c. NewMessage c bytes) subs)))"

text \<open>The other types are reported, which reads every byte of the message.\<close>

definition newMessage ::
  "(string \<Rightarrow> string list) \<Rightarrow> ushort \<Rightarrow> 'c \<Rightarrow> ubyte span \<Rightarrow> 'c server \<Rightarrow> ('c server \<times> 'c action list) result" where
  "newMessage split mem connection bytes s =
     bindE (getMessageType bytes) (\<lambda>type.
     case type of
       CONNECT \<Rightarrow> bindE (send_bytes connection connack_ok) (\<lambda>a. Inr (s, [a]))
     | PINGREQ \<Rightarrow> bindE (send_bytes connection ping_resp) (\<lambda>a. Inr (s, [a]))
     | PUBLISH \<Rightarrow> handle_publish split bytes s
     | SUBSCRIBE \<Rightarrow> handle_subscribe split connection bytes s
     | UNSUBSCRIBE \<Rightarrow> handle_unsubscribe mem connection bytes s
     | DISCONNECT \<Rightarrow>
         Inr (s\<lparr>srv_broker := unsubscribe_all connection (srv_broker s)\<rparr>, [Disconnect connection])
     | _ \<Rightarrow> bindE (span_elements bytes) (\<lambda>_. Inr (s, [])))"

section \<open>The bytes of an action\<close>

definition bytes_of :: "'c action \<Rightarrow> ubyte list" where
  "bytes_of a = (case a of NewMessage _ sp \<Rightarrow> view sp | Disconnect _ \<Rightarrow> [])"

fun target :: "'c action \<Rightarrow> 'c" where
  "target (NewMessage c _) = c" | "target (Disconnect c) = c"

definition server_ok :: "(string \<Rightarrow> string list) \<Rightarrow> 'c server \<Rightarrow> bool" where
  "server_ok split s \<longleftrightarrow> broker_ok split (srv_broker s)"

lemma server_ok_new: "server_ok split (new_server uc)"
  by (simp add: server_ok_def new_server_def broker_ok_new)

definition span_on :: "'a list \<Rightarrow> 'a span" where
  "span_on bs = \<lparr>m_pdata = Ptr bs 0, m_bounds = int (length bs)\<rparr>"

lemma span_on [simp]: "span_ok (span_on bs)" "view (span_on bs) = bs" "reach (span_on bs) = bs"
  by (simp_all add: span_on_def span_ok_container view_container reach_def)

lemma send_bytes [simp]: "send_bytes c bs = Inr (NewMessage c (span_on bs))"
  by (simp add: send_bytes_def span_on_def)

section \<open>Which handler runs\<close>

lemma getMessageType_view:
  "span_ok sp \<Longrightarrow> getMessageType sp = (case view sp of [] \<Rightarrow> Inl FailFast
     | b # _ \<Rightarrow> Inr (type_of_code (ucast (drop_bit 4 b))))"
  by (cases "view sp") (simp_all add: getMessageType_def span_at_view)

lemma type_of_header: "h_qos h < 4 \<Longrightarrow> type_of_code (ucast (drop_bit 4 (header_byte h))) = h_type h"
  using header_of_header_byte [of h] by (simp add: header_of_byte_def) (metis mqtt_fixed_header.select_convs(1))

lemma getMessageType_header:
  "span_ok sp \<Longrightarrow> view sp = enc_header h @ bs \<Longrightarrow> h_qos h < 4 \<Longrightarrow> getMessageType sp = Inr (h_type h)"
  by (simp add: getMessageType_view enc_header_def type_of_header)

section \<open>Decoding with a header read first\<close>

lemma remaining_loop_advance: "remaining_loop m v d = Inr (x, d') \<Longrightarrow> \<exists>k. d' = advance k d"
proof (induction m v d rule: remaining_loop.induct)
  case (1 m v d)
  from "1.prems" obtain b d1 where r: "read_byte d = Inr (b, d1)"
    by (subst (asm) remaining_loop.simps) (auto simp: returned)
  then have "d1 = advance 1 d" using read_byte_Inr by blast
  moreover have "d' = d1 \<or> (\<exists>k. d' = advance k d1)"
    using "1.prems" "1.IH" [OF r refl refl]
    unfolding remaining_loop.simps [of m v d] by (auto simp: r Let_def split: if_splits)
  ultimately show ?case by auto
qed

lemma remaining_loop_faults: "no_throw (remaining_loop m v d)"
proof (induction m v d rule: remaining_loop.induct)
  case (1 m v d)
  then show ?case
    by (subst remaining_loop.simps) (auto simp: no_throw_bindE read_byte_def Let_def)
qed

lemma reset_new [simp]:
  "reset (advance k (d\<lparr>d_currentByte := b, d_bitIndex := i\<rparr>)) = reset d"
  by (cases d) (simp add: reset_def advance_def)

lemma header_then_reset:
  assumes "header_cerealise u (Read (decerealiser_of bs)) = Inr (h, c)"
  shows "\<exists>d. c = Read d \<and> reset d = decerealiser_of bs"
proof (cases bs)
  case Nil
  with assms show ?thesis
    by (simp add: header_cerealise_def grainBits_type_def readBits_def read_byte_rest)
next
  case (Cons b cs)
  with assms obtain n d where d: "getRemainingSize ((advance 1 (decerealiser_of bs))
      \<lparr>d_currentByte := b, d_bitIndex := 8\<rparr>) = Inr (n, d)" and c: "c = Read d"
    by (auto simp: header_read returned)
  from d obtain k where "d = advance k ((advance 1 (decerealiser_of bs))\<lparr>d_currentByte := b, d_bitIndex := 8\<rparr>)"
    using remaining_loop_advance unfolding getRemainingSize_def by blast
  moreover have "reset (decerealiser_of bs) = decerealiser_of bs"
    by (simp add: reset_def decerealiser_of_def)
  ultimately show ?thesis
    using c by (auto simp: advance_def reset_def decerealiser_of_def)
qed

lemma create_decode:
  assumes "span_ok sp"
  shows "create_with_header new g sp = bindE (decode header_cerealise new_fixed_header (view sp))
    (\<lambda>h. decode g (new h) (view sp))"
proof (cases "header_cerealise new_fixed_header (Read (decerealiser_of (view sp)))")
  case (Inr r)
  obtain h c where r: "r = (h, c)" by (cases r)
  with Inr header_then_reset obtain d where "c = Read d" "reset d = decerealiser_of (view sp)" by blast
  with assms Inr r show ?thesis by (simp add: create_with_header_def decode_def)
qed (use assms in \<open>simp add: create_with_header_def decode_def\<close>)

lemma header_decode: "header_ok h \<Longrightarrow> decode header_cerealise u (enc_header h @ bs) = Inr h"
  by (simp add: decode_def header_read_fresh)

lemma create_encoded:
  assumes "span_ok sp" "header_ok h" "view sp = enc_header h @ bs" "decode g (new h) (view sp) = Inr m"
  shows "create_with_header new g sp = Inr m"
  using assms by (simp add: create_decode header_decode)

section \<open>The handlers on well-formed messages\<close>

abbreviation ack :: "ubyte \<Rightarrow> ubyte \<Rightarrow> ushort \<Rightarrow> ubyte list \<Rightarrow> ubyte list" where
  "ack t n mid bs \<equiv> [t, n] @ be16 mid @ bs"

lemma newMessage_subscribe:
  assumes "span_ok sp" "view sp = enc_subscribe m" "header_ok (sub_header m)"
    "h_type (sub_header m) = SUBSCRIBE" "list_all topic_ok (sub_topics m)"
  shows "newMessage split mem c sp s =
    Inr (s\<lparr>srv_broker := subscribe split c (sub_topics m) (srv_broker s)\<rparr>,
         [NewMessage c (span_on (ack 0x90 3 (sub_msgId m) [0]))])"
proof -
  have "getMessageType sp = Inr SUBSCRIBE"
    using assms getMessageType_header [of sp "sub_header m"] by (simp add: enc_subscribe_def header_ok_def)
  moreover have "create_with_header new_subscribe subscribe_cerealise sp = Inr m"
    using assms subscribe_decode [of m] by (intro create_encoded) (auto simp: enc_subscribe_def)
  ultimately show ?thesis
    by (simp add: newMessage_def handle_subscribe_def be16_def Let_def)
qed

lemma newMessage_unsubscribe:
  assumes "span_ok sp" "view sp = enc_unsubscribe m" "header_ok (unsub_header m)"
    "h_type (unsub_header m) = UNSUBSCRIBE" "list_all string_ok (unsub_topics m)"
  shows "newMessage split mem c sp s =
    Inr (s\<lparr>srv_broker := unsubscribe c (unsub_topics m) (srv_broker s)\<rparr>,
         [NewMessage c (span_on (ack 0xb0 2 (unsub_msgId m) []))])"
proof -
  have "getMessageType sp = Inr UNSUBSCRIBE"
    using assms getMessageType_header [of sp "unsub_header m"] by (simp add: enc_unsubscribe_def header_ok_def)
  moreover have "create_with_header (new_unsubscribe mem) unsubscribe_cerealise sp = Inr m"
    using assms unsubscribe_decode [of m] by (intro create_encoded) (auto simp: enc_unsubscribe_def)
  ultimately show ?thesis
    by (simp add: newMessage_def handle_unsubscribe_def be16_def Let_def)
qed

lemma newMessage_fixed:
  assumes "span_ok sp" "view sp = b # bs"
  shows "drop_bit 4 b = 1 \<Longrightarrow> newMessage split mem c sp s = Inr (s, [NewMessage c (span_on [32, 2, 0, 0])])"
    and "drop_bit 4 b = 12 \<Longrightarrow> newMessage split mem c sp s = Inr (s, [NewMessage c (span_on [0xd0, 0])])"
    and "drop_bit 4 b = 14 \<Longrightarrow> newMessage split mem c sp s =
      Inr (s\<lparr>srv_broker := unsubscribe_all c (srv_broker s)\<rparr>, [Disconnect c])"
    and "drop_bit 4 b \<in> {0, 2, 4, 5, 6, 7, 9, 11, 13, 15} \<Longrightarrow> newMessage split mem c sp s = Inr (s, [])"
  using assms
  by (auto simp: newMessage_def getMessageType_view type_of_code_def connack_ok_def ping_resp_def)

section \<open>PUBLISH on any bytes\<close>

text \<open>
  The topic is looked up at a fixed place; what is there beyond the end of the message is
  whatever follows in the array object.
\<close>

definition topic_length :: "ubyte list \<Rightarrow> nat" where
  "topic_length bs = 256 * unat (bs ! 2) + unat (bs ! 3)"

lemma getPublishTopic_short: "span_ok sp \<Longrightarrow> length (view sp) < 4 \<Longrightarrow> getPublishTopic sp = Inr default_span"
  using span_size_nonneg [of sp] by (simp add: getPublishTopic_def) linarith

lemma span_size_length: "span_ok sp \<Longrightarrow> span_size sp = n \<longleftrightarrow> int (length (view sp)) = n"
  using span_size_nonneg [of sp] by simp

lemma getPublishTopic_four:
  assumes "span_ok sp" "length (view sp) = 4"
  shows "getPublishTopic sp = Inl FailFast"
proof -
  have "span_size sp = 4" using assms by (simp add: span_size_length del: length_view)
  with assms show ?thesis
    by (simp add: getPublishTopic_def span_at_view span_ref_def linearize1_def Let_def)
qed

lemma getPublishTopic_span:
  assumes "span_ok sp" "4 < length (view sp)"
  shows "getPublishTopic sp = Inr \<lparr>m_pdata = ptr_add (m_pdata sp) 4, m_bounds = int (topic_length (view sp))\<rparr>"
proof -
  have size: "4 < span_size sp" using assms by simp
  then obtain m i where p: "m_pdata sp = Ptr m i"
    using assms(1) by (cases "m_pdata sp") (auto simp: span_ok_def)
  have len: "Word.uint (view sp ! 2) * 2 ^ 8 + Word.uint (view sp ! 3) = int (topic_length (view sp))"
    by (simp add: topic_length_def)
  have at: "span_at sp 2 = Inr (view sp ! 2)" "span_at sp 3 = Inr (view sp ! 3)"
    using assms size by (simp_all add: span_at_view)
  show ?thesis
    using size by (simp only: getPublishTopic_def at len bindE_Inr Let_def)
      (simp add: span_ref_def linearize1_def p ptr_add_def)
qed

lemma publish_topic_string:
  assumes "span_ok sp" "4 < length (view sp)"
  shows "bindE (getPublishTopic sp) to_string =
    (if 4 + topic_length (view sp) \<le> length (reach sp) \<or> topic_length (view sp) = 0
     then Inr (map char_of_byte (take (topic_length (view sp)) (drop 4 (reach sp)))) else Inl Undefined)"
  using load_many_reach [OF assms(1), of 4 "topic_length (view sp)"]
  by (simp add: getPublishTopic_span [OF assms] to_string_def)

lemma handle_publish_topic:
  assumes "bindE (getPublishTopic sp) to_string = Inr t"
  shows "handle_publish split sp s = (let (b, subs) = publish split t (srv_broker s) in
    Inr (s\<lparr>srv_broker := b\<rparr>, map (\<lambda>c. NewMessage c sp) subs))"
proof -
  from assms obtain tsp where "getPublishTopic sp = Inr tsp" "to_string tsp = Inr t"
    by (auto simp: returned)
  then show ?thesis by (simp add: handle_publish_def publish_span_def split_def Let_def)
qed

lemma newMessage_publish:
  assumes "span_ok sp" "view sp = b # bs" "drop_bit 4 b = 3"
  shows "newMessage split mem c sp s = handle_publish split sp s"
  using assms by (simp add: newMessage_def getMessageType_view type_of_code_def)

end
