(* ===== verification/ServerFacts.thy ===== *)
theory ServerFacts
  imports Server
begin

text \<open>
  What the server guarantees: its invariant and who is called, on messages of any bytes, and
  the refinement of a specification on well-formed messages. The specification keeps the
  multiset of subscriptions and gives for every request the connections that see bytes.
\<close>

lemma filter_mset_empty: "filter_mset P M = {#} \<longleftrightarrow> (\<forall>x \<in># M. \<not> P x)"
  by (induction M) auto

section \<open>The effect of one message, whatever its bytes\<close>

lemma handle_publish_effect:
  assumes "handle_publish split sp s = Inr (s', acts)"
  obtains t where "s' = s\<lparr>srv_broker := fst (publish split t (srv_broker s))\<rparr>"
    "acts = map (\<lambda>c. NewMessage c sp) (snd (publish split t (srv_broker s)))"
proof -
  from assms obtain t b l where "publish split t (srv_broker s) = (b, l)"
    "s' = s\<lparr>srv_broker := b\<rparr>" "acts = map (\<lambda>c. NewMessage c sp) l"
    by (auto simp: handle_publish_def publish_span_def returned)
  then show thesis using that [of t] by simp
qed

lemma newMessage_effect:
  assumes "newMessage split mem c sp s = Inr (s', acts)"
  obtains (reply) "s' = s" "target ` set acts \<subseteq> {c}"
  | (published) t where "s' = s\<lparr>srv_broker := fst (publish split t (srv_broker s))\<rparr>"
      "acts = map (\<lambda>c. NewMessage c sp) (snd (publish split t (srv_broker s)))"
  | (subscribed) ts where "s' = s\<lparr>srv_broker := subscribe split c ts (srv_broker s)\<rparr>"
      "target ` set acts \<subseteq> {c}"
  | (unsubscribed) fs where "s' = s\<lparr>srv_broker := unsubscribe c fs (srv_broker s)\<rparr>"
      "target ` set acts \<subseteq> {c}"
proof -
  from assms obtain ty where ty: "getMessageType sp = Inr ty"
    by (auto simp: newMessage_def returned)
  note run = assms [unfolded newMessage_def ty bindE_Inr]
  show thesis
  proof (cases ty)
    case PUBLISH
    with run show thesis by (auto elim: handle_publish_effect intro: published)
  next
    case SUBSCRIBE
    with run show thesis
      by (auto simp: handle_subscribe_def returned Let_def intro: subscribed)
  next
    case UNSUBSCRIBE
    with run show thesis
      by (auto simp: handle_unsubscribe_def returned Let_def intro: unsubscribed)
  next
    case DISCONNECT
    with run show thesis by (auto simp: unsubscribe_all_def intro: unsubscribed)
  qed (use run in \<open>auto simp: returned intro: reply\<close>)
qed

lemma newMessage_ok:
  assumes "server_ok split s" "newMessage split mem c sp s = Inr (s', acts)"
  shows "server_ok split s'"
  using assms(2) assms(1)
  by (cases rule: newMessage_effect) (auto simp: server_ok_def publish_ok subscribe_ok unsubscribe_ok)

text \<open>The subscriptions of other connections are left alone.\<close>

definition held_by :: "'c \<Rightarrow> 'c server \<Rightarrow> ('c \<times> string) multiset" where
  "held_by c s = filter_mset (\<lambda>e. fst e = c) (subscriptions (srv_broker s))"

lemma newMessage_isolated:
  assumes "server_ok split s" "newMessage split mem c sp s = Inr (s', acts)" "c' \<noteq> c"
  shows "held_by c' s' = held_by c' s"
proof -
  have 1: "filter_mset (\<lambda>e. fst e = c') (mset (map (\<lambda>t. (c, topic_topic t)) ts)) = {#}" for ts
    using assms(3) by (induction ts) auto
  have 2: "filter_mset (\<lambda>e. fst e = c') (filter_mset (\<lambda>e. \<not> dropped c fs e) ss)
      = filter_mset (\<lambda>e. fst e = c') ss" for fs ss
    using assms(3) by (induction ss) (auto simp: dropped_def)
  show ?thesis
    using assms(2)
    by (cases rule: newMessage_effect) (use assms(1) 1 2 in
       \<open>simp_all add: server_ok_def held_by_def publish_ok subscribe_ok unsubscribe_ok\<close>)
qed

text \<open>A connection is called on its own messages, and on a PUBLISH it is subscribed to.\<close>

lemma newMessage_targets:
  assumes "server_ok split s" "newMessage split mem c sp s = Inr (s', acts)" "a \<in> set acts" "target a \<noteq> c"
  shows "a = NewMessage (target a) sp" "held_by (target a) s \<noteq> {#}"
proof -
  obtain t where acts: "acts = map (\<lambda>c. NewMessage c sp) (snd (publish split t (srv_broker s)))"
    using assms(2-4) by (cases rule: newMessage_effect) auto
  with assms(3) show a: "a = NewMessage (target a) sp" by auto
  with acts assms(3) have "target a \<in> set (snd (publish split t (srv_broker s)))" by auto
  then show "held_by (target a) s \<noteq> {#}"
    using assms(1) mb.delivered_iff [of split "srv_broker s" "target a" t]
    by (auto simp: held_by_def server_ok_def filter_mset_empty)
qed

section \<open>Runs of the server\<close>

type_synonym 'c inputs = "('c \<times> ubyte span) list"

fun server_run :: "(string \<Rightarrow> string list) \<Rightarrow> ushort \<Rightarrow> 'c inputs \<Rightarrow> 'c server
    \<Rightarrow> ('c server \<times> 'c action list list) result" where
  "server_run split mem [] s = Inr (s, [])"
| "server_run split mem ((c, sp) # xs) s =
     bindE (newMessage split mem c sp s) (\<lambda>(s, acts).
     bindE (server_run split mem xs s) (\<lambda>(s, outs). Inr (s, acts # outs)))"

lemma server_run_ok:
  "server_ok split s \<Longrightarrow> server_run split mem xs s = Inr (s', outs) \<Longrightarrow> server_ok split s'"
proof (induction xs arbitrary: s outs)
  case (Cons x xs)
  then obtain c sp s1 acts outs1 where "newMessage split mem c sp s = Inr (s1, acts)"
    "server_run split mem xs s1 = Inr (s', outs1)"
    by (cases x) (auto simp: returned)
  with Cons newMessage_ok show ?case by metis
qed simp

lemma server_run_gone:
  "server_ok split s \<Longrightarrow> held_by c s = {#} \<Longrightarrow> server_run split mem xs s = Inr (s', outs) \<Longrightarrow>
   c \<notin> fst ` set xs \<Longrightarrow> c \<notin> target ` \<Union> (set ` set outs)"
proof (induction xs arbitrary: s outs)
  case (Cons x xs)
  obtain c0 sp where x: "x = (c0, sp)" by (cases x)
  with Cons.prems obtain s1 acts outs1 where 1: "newMessage split mem c0 sp s = Inr (s1, acts)"
    and 2: "server_run split mem xs s1 = Inr (s', outs1)" and outs: "outs = acts # outs1"
    by (auto simp: returned)
  have c: "c \<noteq> c0" using Cons.prems x by auto
  have "held_by c s1 = {#}"
    using newMessage_isolated [OF Cons.prems(1) 1 c] Cons.prems(2) by simp
  from Cons.IH [OF newMessage_ok [OF Cons.prems(1) 1] this 2] Cons.prems(4)
  have "c \<notin> target ` \<Union> (set ` set outs1)" by simp
  moreover have "c \<notin> target ` set acts"
    using newMessage_targets(2) [OF Cons.prems(1) 1] Cons.prems(2) c by (metis imageE)
  ultimately show ?case by (auto simp: outs)
qed simp

lemma disconnect_gone:
  assumes "server_ok split s" "span_ok sp" "view sp = b # bs" "drop_bit 4 b = 14"
    "newMessage split mem c sp s = Inr (s1, acts)"
  shows "server_ok split s1" "held_by c s1 = {#}" "acts = [Disconnect c]"
  using assms newMessage_fixed(3) [OF assms(2,3,4), of split mem c s]
  by (auto simp: server_ok_def held_by_def unsubscribe_all_def unsubscribe_ok dropped_def filter_mset_empty)

section \<open>Well-formed requests and the specification\<close>

datatype request = Connect mqtt_fixed_header "ubyte list" | Pingreq | Publish mqtt_publish
  | Subscribe mqtt_subscribe | Unsubscribe mqtt_unsubscribe | Disc

fun wire :: "request \<Rightarrow> ubyte list" where
  "wire (Connect h bs) = enc_header h @ bs"
| "wire Pingreq = [0xc0, 0]"
| "wire (Publish m) = enc_publish m"
| "wire (Subscribe m) = enc_subscribe m"
| "wire (Unsubscribe m) = enc_unsubscribe m"
| "wire Disc = [0xe0, 0]"

text \<open>
  A PUBLISH whose header has a remaining length of one byte, and that has more than the four
  bytes of a header and an empty topic.
\<close>

fun request_ok :: "request \<Rightarrow> bool" where
  "request_ok (Connect h bs) \<longleftrightarrow> header_ok h \<and> h_type h = CONNECT"
| "request_ok (Publish m) \<longleftrightarrow> h_qos (pub_header m) < 4 \<and> h_type (pub_header m) = PUBLISH
     \<and> h_remaining (pub_header m) < 128 \<and> string_ok (pub_topic m) \<and> 4 < length (enc_publish m)"
| "request_ok (Subscribe m) \<longleftrightarrow> header_ok (sub_header m) \<and> h_type (sub_header m) = SUBSCRIBE
     \<and> list_all topic_ok (sub_topics m)"
| "request_ok (Unsubscribe m) \<longleftrightarrow> header_ok (unsub_header m) \<and> h_type (unsub_header m) = UNSUBSCRIBE
     \<and> list_all string_ok (unsub_topics m)"
| "request_ok _ \<longleftrightarrow> True"

text \<open>What a connection sees: bytes, or that it is disconnected.\<close>

fun seen :: "'c action \<Rightarrow> 'c \<times> ubyte list option" where
  "seen (NewMessage c sp) = (c, Some (view sp))"
| "seen (Disconnect c) = (c, None)"

fun serve_spec :: "(string \<Rightarrow> string list) \<Rightarrow> 'c \<Rightarrow> request \<Rightarrow> ('c \<times> string) multiset
    \<Rightarrow> ('c \<times> string) multiset \<times> ('c \<times> ubyte list option) multiset" where
  "serve_spec split c (Connect h bs) ss = (ss, {#(c, Some [0x20, 2, 0, 0])#})"
| "serve_spec split c Pingreq ss = (ss, {#(c, Some [0xd0, 0])#})"
| "serve_spec split c (Publish m) ss =
     (ss, image_mset (\<lambda>c. (c, Some (enc_publish m))) (deliveries split ss (pub_topic m)))"
| "serve_spec split c (Subscribe m) ss = (ss + mset (map (\<lambda>t. (c, topic_topic t)) (sub_topics m)),
     {#(c, Some ([0x90, 3] @ be16 (sub_msgId m) @ [0]))#})"
| "serve_spec split c (Unsubscribe m) ss = (filter_mset (\<lambda>e. \<not> dropped c (unsub_topics m) e) ss,
     {#(c, Some ([0xb0, 2] @ be16 (unsub_msgId m)))#})"
| "serve_spec split c Disc ss = (filter_mset (\<lambda>e. fst e \<noteq> c) ss, {#(c, None)#})"

fun run_spec :: "(string \<Rightarrow> string list) \<Rightarrow> ('c \<times> request) list \<Rightarrow> ('c \<times> string) multiset
    \<Rightarrow> ('c \<times> string) multiset \<times> ('c \<times> ubyte list option) multiset list" where
  "run_spec split [] ss = (ss, [])"
| "run_spec split ((c, r) # xs) ss =
     (let (ss, out) = serve_spec split c r ss; (ss, outs) = run_spec split xs ss in (ss, out # outs))"

lemma topic_length_string:
  "string_ok t \<Longrightarrow> topic_length (a # b # enc_string t @ bs) = length t"
proof -
  assume "string_ok t"
  then have "unat (word_of_nat (length t) :: ushort) = length t"
    by (simp add: string_ok_def unat_of_nat)
  moreover have "256 * unat (ucast (drop_bit 8 v) :: ubyte) + unat (ucast (v AND 255) :: ubyte) = unat v"
    for v :: ushort
  proof -
    have "unat v < 65536" using unsigned_less [of v] by simp
    then have "unat (ucast (drop_bit 8 v) :: ubyte) = unat v div 256"
      by (simp add: unsigned_ucast_eq unsigned_drop_bit_eq drop_bit_eq_div unat_div take_bit_nat_eq_self)
    moreover have "unat (ucast (v AND 255) :: ubyte) = unat v mod 256"
      unfolding low_byte_mask take_bit_eq_mask [symmetric]
      by (simp add: unsigned_ucast_eq unsigned_take_bit_eq take_bit_eq_mod unat_mod)
    ultimately show ?thesis by simp
  qed
  ultimately show ?thesis
    by (simp add: topic_length_def enc_string_def be16_def)
qed

lemma publish_wire_topic:
  assumes "request_ok (Publish m)" "span_ok sp" "view sp = enc_publish m"
  shows "bindE (getPublishTopic sp) to_string = Inr (pub_topic m)"
proof -
  define b where "b = header_byte (pub_header m)"
  define r :: ubyte where "r = ucast (h_remaining (pub_header m))"
  obtain bs where v: "view sp = b # r # enc_string (pub_topic m) @ bs"
    using assms by (simp add: enc_publish_def enc_header_def remaining_digits_single b_def r_def)
  then have len: "topic_length (view sp) = length (pub_topic m)"
    using assms(1) by (simp add: topic_length_string)
  obtain ys where "reach sp = view sp @ ys" using view_prefix_reach by blast
  then have "take (length (pub_topic m)) (drop 4 (reach sp)) = map byte_of_char (pub_topic m)"
    and "4 + length (pub_topic m) \<le> length (reach sp)"
    by (simp_all add: v enc_string_def be16_def)
  with publish_topic_string [OF assms(2)] assms(1,3) len show ?thesis by (simp add: comp_def)
qed

lemma newMessage_header_publish:
  assumes "request_ok (Publish m)" "span_ok sp" "view sp = enc_publish m"
  shows "newMessage split mem c sp s =
    Inr (s\<lparr>srv_broker := fst (publish split (pub_topic m) (srv_broker s))\<rparr>,
         map (\<lambda>c. NewMessage c sp) (snd (publish split (pub_topic m) (srv_broker s))))"
proof -
  have "getMessageType sp = Inr PUBLISH"
    using assms getMessageType_header [of sp "pub_header m"] by (simp add: enc_publish_def)
  then show ?thesis
    using handle_publish_topic [OF publish_wire_topic [OF assms], of split s]
    by (simp add: newMessage_def split_def Let_def)
qed

lemma newMessage_connect:
  assumes "request_ok (Connect h bs)" "span_ok sp" "view sp = wire (Connect h bs)"
  shows "newMessage split mem c sp s = Inr (s, [NewMessage c (span_on [32, 2, 0, 0])])"
  using assms getMessageType_header [of sp h bs]
  by (simp add: newMessage_def connack_ok_def header_ok_def)

lemma newMessage_refines:
  assumes "server_ok split s" "request_ok r" "span_ok sp" "view sp = wire r"
  shows "\<exists>s' acts. newMessage split mem c sp s = Inr (s', acts) \<and>
    serve_spec split c r (subscriptions (srv_broker s))
      = (subscriptions (srv_broker s'), image_mset seen (mset acts))"
proof (cases r)
  case (Connect h bs)
  with assms newMessage_connect [of h bs sp split mem c s] show ?thesis by simp
next
  case Pingreq
  with assms newMessage_fixed(2) [of sp "0xc0" "[0]" split mem c s] show ?thesis by simp
next
  case (Publish m)
  with assms newMessage_header_publish [of m sp split mem c s] show ?thesis
    by (simp add: server_ok_def publish_ok multiset.map_comp comp_def flip: publish_ok(3))
next
  case (Subscribe m)
  with assms newMessage_subscribe [of sp m split mem c s] show ?thesis by (simp add: server_ok_def subscribe_ok)
next
  case (Unsubscribe m)
  with assms newMessage_unsubscribe [of sp m split mem c s] show ?thesis by (simp add: server_ok_def unsubscribe_ok)
next
  case Disc
  with assms newMessage_fixed(3) [of sp "0xe0" "[0]" split mem c s] show ?thesis
    by (simp add: server_ok_def unsubscribe_all_def unsubscribe_ok dropped_def)
qed

lemma server_run_refines:
  "server_ok split s \<Longrightarrow> list_all2 (\<lambda>(c, r) (c', sp). c = c' \<and> request_ok r \<and> span_ok sp \<and> view sp = wire r) rs xs \<Longrightarrow>
   \<exists>s' outs. server_run split mem xs s = Inr (s', outs) \<and>
    run_spec split rs (subscriptions (srv_broker s))
      = (subscriptions (srv_broker s'), map (\<lambda>acts. image_mset seen (mset acts)) outs)"
proof (induction xs arbitrary: s rs)
  case (Cons x xs)
  then obtain c sp r rs' where x: "x = (c, sp)" "rs = (c, r) # rs'" and
    r: "request_ok r" "span_ok sp" "view sp = wire r" and
    rs': "list_all2 (\<lambda>(c, r) (c', sp). c = c' \<and> request_ok r \<and> span_ok sp \<and> view sp = wire r) rs' xs"
    by (cases x) (auto simp: list_all2_Cons2)
  from newMessage_refines [OF Cons.prems(1) r] obtain s1 acts where
    1: "newMessage split mem c sp s = Inr (s1, acts)"
      "serve_spec split c r (subscriptions (srv_broker s))
        = (subscriptions (srv_broker s1), image_mset seen (mset acts))" by blast
  from Cons.IH [OF newMessage_ok [OF Cons.prems(1) 1(1)] rs'] obtain s' outs where
    "server_run split mem xs s1 = Inr (s', outs)"
    "run_spec split rs' (subscriptions (srv_broker s1))
      = (subscriptions (srv_broker s'), map (\<lambda>acts. image_mset seen (mset acts)) outs)" by blast
  with 1 x show ?case by simp
qed simp

section \<open>Malformed messages\<close>

lemma header_faults: "no_throw (header_cerealise u (Read (decerealiser_of bs)))"
proof (cases bs)
  case Nil
  then show ?thesis
    by (simp add: header_cerealise_def grainBits_type_def readBits_def read_byte_rest)
next
  case (Cons b cs)
  then show ?thesis
    using remaining_loop_faults by (auto simp: header_read getRemainingSize_def no_throw_bindE)
qed

text \<open>After the header both read a message id and then a raw array.\<close>

lemma id_and_array_faults:
  assumes "header_cerealise u (Read (decerealiser_of bs)) = Inr (h, c)" and "\<And>d. no_throw (raw (Read d))"
  shows "no_throw (bindE (grain_u16 v c) (\<lambda>(mid, c). bindE (raw c) (\<lambda>(ts, c). Inr (k mid ts, c))))"
proof -
  obtain d where c: "c = Read d" using header_then_reset [OF assms(1)] by blast
  have "no_throw (raw c')" if "grain_u16 v (Read d) = Inr (mid, c')" for mid c'
    using short.progress [OF that] assms(2) by auto
  then show ?thesis using short.faults [of v d] by (auto simp: c no_throw_bindE)
qed

lemma decode_faults: "no_throw (decode g u bs) \<longleftrightarrow> no_throw (g u (Read (decerealiser_of bs)))"
  by (auto simp: decode_def no_throw_bindE)

lemma subscribe_faults: "no_throw (decode subscribe_cerealise u bs)"
proof (cases "header_cerealise (sub_header u) (Read (decerealiser_of bs))")
  case (Inr r)
  then have "no_throw (bindE (grain_u16 (sub_msgId u) (snd r)) (\<lambda>(mid, c).
      bindE (grainRawArray topic_cerealise new_topic (sub_topics u) c) (\<lambda>(ts, c).
      Inr (\<lparr>sub_header = fst r, sub_msgId = mid, sub_topics = ts\<rparr>, c))))"
    by (intro id_and_array_faults [of _ bs "fst r"]) (simp_all add: tpc.raw_faults)
  with Inr show ?thesis by (simp add: decode_faults subscribe_cerealise_def split_def)
qed (use header_faults [of "sub_header u" bs] in \<open>simp add: decode_faults subscribe_cerealise_def\<close>)

lemma unsubscribe_faults: "no_throw (decode unsubscribe_cerealise u bs)"
proof (cases "header_cerealise (unsub_header u) (Read (decerealiser_of bs))")
  case (Inr r)
  then have "no_throw (bindE (grain_u16 (unsub_msgId u) (snd r)) (\<lambda>(mid, c).
      bindE (grainRawArray grain_string [] (unsub_topics u) c) (\<lambda>(ts, c).
      Inr (\<lparr>unsub_header = fst r, unsub_msgId = mid, unsub_topics = ts\<rparr>, c))))"
    by (intro id_and_array_faults [of _ bs "fst r"]) (simp_all add: str.raw_faults)
  with Inr show ?thesis by (simp add: decode_faults unsubscribe_cerealise_def split_def)
qed (use header_faults [of "unsub_header u" bs] in \<open>simp add: decode_faults unsubscribe_cerealise_def\<close>)

lemma load_many_faults: "no_throw (load_many p n)"
  by (induction n arbitrary: p) (auto simp: no_throw_bindE load_def split: ptr.split)

lemma getPublishTopic_faults: "span_ok sp \<Longrightarrow> no_throw (getPublishTopic sp)"
  using getPublishTopic_short [of sp] getPublishTopic_four [of sp] getPublishTopic_span [of sp]
  by (cases "length (view sp) < 4"; cases "length (view sp) = 4") auto

lemma newMessage_faults:
  assumes "span_ok sp"
  shows "no_throw (newMessage split mem c sp s)"
proof (cases "view sp")
  case Nil
  with assms show ?thesis by (simp add: newMessage_def getMessageType_view)
next
  case (Cons b bs)
  with assms obtain ty where ty: "getMessageType sp = Inr ty" by (simp add: getMessageType_view)
  have "no_throw (create_with_header new_subscribe subscribe_cerealise sp)"
    "no_throw (create_with_header (new_unsubscribe mem) unsubscribe_cerealise sp)"
    using assms header_faults subscribe_faults unsubscribe_faults
    by (auto simp: create_decode no_throw_bindE decode_faults)
  then have "no_throw (handle_subscribe split c sp s)" "no_throw (handle_unsubscribe mem c sp s)"
    by (auto simp: handle_subscribe_def handle_unsubscribe_def no_throw_bindE Let_def)
  moreover have "no_throw (handle_publish split sp s)"
    using getPublishTopic_faults [OF assms] load_many_faults
    by (auto simp: handle_publish_def publish_span_def to_string_def no_throw_bindE)
  ultimately show ?thesis
    using assms by (cases ty) (simp_all add: newMessage_def ty)
qed

text \<open>A SUBSCRIBE that ends before its message id is read past its end.\<close>

lemma subscribe_truncated:
  assumes "span_ok sp" "header_ok h" "h_type h = SUBSCRIBE" "view sp = enc_header h @ bs" "length bs < 2"
  shows "newMessage split mem c sp s = Inl Undefined"
proof -
  let ?d = "advance (length (enc_header h)) (decerealiser_of (view sp))"
  have "grain_u16 v (Read (?d\<lparr>d_currentByte := b, d_bitIndex := i\<rparr>)) = Inl Undefined" for v b i
    using assms(4,5) by (cases bs)
      (auto simp: grain_u16_def read_byte_rest Let_def)
  then have "decode subscribe_cerealise (new_subscribe h) (view sp) = Inl Undefined"
    using assms header_read_fresh [of h _ bs] by (simp add: decode_def subscribe_cerealise_def)
  then have "create_with_header new_subscribe subscribe_cerealise sp = Inl Undefined"
    using assms header_decode [of h _ bs] by (simp add: create_decode)
  moreover have "getMessageType sp = Inr SUBSCRIBE"
    using assms getMessageType_header [of sp h bs] by (simp add: header_ok_def)
  ultimately show ?thesis by (simp add: newMessage_def handle_subscribe_def)
qed

lemma publish_four_bytes:
  assumes "span_ok sp" "view sp = [b0, b1, b2, b3]" "drop_bit 4 b0 = 3"
  shows "newMessage split mem c sp s = Inl FailFast"
  using assms newMessage_publish [OF assms(1,2,3), of split mem c s]
  by (simp add: handle_publish_def getPublishTopic_four)

text \<open>A topic that is longer than the message runs on behind it.\<close>

lemma publish_over_read:
  assumes "span_ok sp" "view sp = b # bs" "drop_bit 4 b = 3" "4 < length (view sp)"
  defines "n \<equiv> topic_length (view sp)"
  shows "newMessage split mem c sp s =
    (if 4 + n \<le> length (reach sp) \<or> n = 0
     then let (b', subs) = publish split (map char_of_byte (take n (drop 4 (reach sp)))) (srv_broker s)
          in Inr (s\<lparr>srv_broker := b'\<rparr>, map (\<lambda>c. NewMessage c sp) subs)
     else Inl Undefined)"
  using handle_publish_topic [of sp _ split s] publish_topic_string [OF assms(1,4)]
  unfolding newMessage_publish [OF assms(1-3)] n_def
  by (auto simp: handle_publish_def publish_span_def getPublishTopic_span [OF assms(1,4)] split: if_splits)

lemma publish_short_topic:
  assumes "span_ok sp" "view sp = b # bs" "drop_bit 4 b = 3" "length (view sp) < 4"
  shows "newMessage split mem c sp s = (let (b', subs) = publish split [] (srv_broker s) in
    Inr (s\<lparr>srv_broker := b'\<rparr>, map (\<lambda>c. NewMessage c sp) subs))"
proof -
  have "bindE (getPublishTopic sp) to_string = Inr []"
    using getPublishTopic_short [OF assms(1,4)] by (simp add: to_string_def default_span_def)
  then show ?thesis
    by (simp add: newMessage_publish [OF assms(1-3)] handle_publish_topic)
qed

section \<open>Properties\<close>

text \<open>
  C5. On any sequence of well-formed messages of any connections, each message in a span of its
  own, the server meets no fault, and for every message the connections see what the
  specification says: the acknowledgements, the published bytes at every subscriber, the
  disconnection; the subscriptions at the end are the ones of the specification.
\<close>

theorem server_refines:
  assumes "list_all2 (\<lambda>(c, r) (c', sp). c = c' \<and> request_ok r \<and> span_ok sp \<and> view sp = wire r) rs xs"
  shows "\<exists>s outs. server_run split mem xs (new_server uc) = Inr (s, outs) \<and>
    run_spec split rs {#} = (subscriptions (srv_broker s), map (\<lambda>acts. image_mset seen (mset acts)) outs)"
  using server_run_refines [OF server_ok_new assms, of split mem uc]
  by (simp add: new_server_def subscriptions_new)

definition a_publish :: mqtt_publish where
  "a_publish = \<lparr>pub_header = a_header PUBLISH 0 7, pub_topic = ''a/b'', pub_payload = [1, 2], pub_msgId = 0\<rparr>"

lemma a_publish_ok: "request_ok (Publish a_publish)"
  by (simp add: a_publish_def a_header_def string_ok_def enc_publish_def enc_header_def remaining_digits_single)

lemma a_subscribe_ok: "request_ok (Subscribe a_subscribe)"
  by (simp add: a_subscribe_def a_header_ok topic_ok_def string_ok_def) (simp add: a_header_def)

theorem server_refines_witness:
  "\<exists>s outs. server_run split_slash 0 [(5, span_on (wire (Subscribe a_subscribe))), (6, span_on (wire (Publish a_publish))),
      (5, span_on (wire Disc))] (new_server True) = Inr (s, outs) \<and>
    subscriptions (srv_broker s) = {#} \<and>
    map (\<lambda>acts. image_mset seen (mset acts)) outs = [{#(5 :: nat, Some [0x90, 3, 0, 7, 0])#},
      {#(5, Some (enc_publish a_publish)), (5, Some (enc_publish a_publish))#}, {#(5, None)#}]"
proof -
  let ?rs = "[(5 :: nat, Subscribe a_subscribe), (6, Publish a_publish), (5, Disc)]"
  let ?xs = "[(5 :: nat, span_on (wire (Subscribe a_subscribe))), (6, span_on (wire (Publish a_publish))), (5, span_on (wire Disc))]"
  have spec: "run_spec split_slash ?rs {#} = ({#}, [{#(5, Some [0x90, 3, 0, 7, 0])#},
      {#(5, Some (enc_publish a_publish)), (5, Some (enc_publish a_publish))#}, {#(5, None)#}])"
    by (simp add: a_subscribe_def be16_def) (simp add: a_publish_def)
  have "list_all2 (\<lambda>(c, r) (c', sp). c = c' \<and> request_ok r \<and> span_ok sp \<and> view sp = wire r) ?rs ?xs"
    using a_publish_ok a_subscribe_ok by (simp del: wire.simps request_ok.simps add: request_ok.simps(6))
  from server_refines [OF this, of split_slash 0 True] show ?thesis
    unfolding spec prod.inject by metis
qed

text \<open>
  C11. After the DISCONNECT of a connection the server does not call it again, on messages of any
  bytes of the other connections.
\<close>

theorem no_call_after_disconnect:
  assumes "server_ok split s" "span_ok sp" "view sp = b # bs" "drop_bit 4 b = 14"
    and "server_run split mem ((c, sp) # xs) s = Inr (s', acts # outs)" "c \<notin> fst ` set xs"
  shows "acts = [Disconnect c] \<and> c \<notin> target ` \<Union> (set ` set outs)"
proof -
  obtain s1 where 1: "newMessage split mem c sp s = Inr (s1, acts)" "server_run split mem xs s1 = Inr (s', outs)"
    using assms(5) by (auto simp: returned)
  note gone = disconnect_gone [OF assms(1-4) 1(1)]
  from gone(3) server_run_gone [OF gone(1,2) 1(2) assms(6)] show ?thesis by simp
qed

theorem no_call_after_disconnect_witness:
  "\<exists>s' outs. server_run split_slash 0 [(5 :: nat, span_on [0xe0, 0]), (6, span_on [0xc0, 0])] (new_server True)
      = Inr (s', [Disconnect 5] # outs) \<and> 5 \<notin> target ` \<Union> (set ` set outs)"
proof -
  have "newMessage split_slash 0 (5 :: nat) (span_on [0xe0, 0]) (new_server True)
      = Inr ((new_server True)\<lparr>srv_broker := unsubscribe_all 5 (srv_broker (new_server True))\<rparr>, [Disconnect 5])"
    by (rule newMessage_fixed(3) [where b = "0xe0" and bs = "[0]"]) simp_all
  moreover have "newMessage split_slash 0 (6 :: nat) (span_on [0xc0, 0]) s
      = Inr (s, [NewMessage 6 (span_on [0xd0, 0])])" for s
    by (rule newMessage_fixed(2) [where b = "0xc0" and bs = "[0]"]) simp_all
  ultimately have "\<exists>s'. server_run split_slash 0 [(5, span_on [0xe0, 0]), (6, span_on [0xc0, 0])] (new_server True)
      = Inr (s', [[Disconnect (5 :: nat)], [NewMessage 6 (span_on [0xd0, 0])]])" by simp
  with no_call_after_disconnect [OF server_ok_new, of "span_on [0xe0, 0]" "0xe0" "[0]" split_slash 0 5]
  show ?thesis by fastforce
qed

text \<open>
  C12. A message of one connection, of any bytes, leaves the subscriptions of every other
  connection as they were, and keeps the invariant of the server.
\<close>

theorem messages_isolated:
  assumes "server_ok split s" "newMessage split mem c sp s = Inr (s', acts)" "c' \<noteq> c"
  shows "held_by c' s' = held_by c' s \<and> server_ok split s'"
  using newMessage_isolated [OF assms] newMessage_ok [OF assms(1,2)] by simp

theorem messages_isolated_witness:
  "\<exists>s' acts. newMessage split_slash 0 (5 :: nat) (span_on [0xe0, 0]) (new_server True) = Inr (s', acts)
     \<and> held_by 6 s' = held_by 6 (new_server True) \<and> server_ok split_slash s'"
proof -
  have "newMessage split_slash 0 (5 :: nat) (span_on [0xe0, 0]) (new_server True)
      = Inr ((new_server True)\<lparr>srv_broker := unsubscribe_all 5 (srv_broker (new_server True))\<rparr>, [Disconnect 5])"
    by (rule newMessage_fixed(3) [where b = "0xe0" and bs = "[0]"]) simp_all
  with messages_isolated [OF server_ok_new this, of 6] show ?thesis by simp
qed

text \<open>
  A connection other than the sender is called only with the very bytes of the message, and
  only when it holds a subscription.
\<close>

lemma calls_only_subscribers:
  assumes "server_ok split s" "newMessage split mem c sp s = Inr (s', acts)" "a \<in> set acts" "target a \<noteq> c"
  shows "a = NewMessage (target a) sp \<and> held_by (target a) s \<noteq> {#}"
  using newMessage_targets [OF assms] by simp

lemma calls_only_subscribers_witness:
  "held_by (5 :: nat) \<lparr>srv_broker = subscribe_names split_slash 5 [''a/b''] (new_broker True)\<rparr> \<noteq> {#}"
proof -
  let ?b = "subscribe_names split_slash (5 :: nat) [''a/b''] (new_broker True)"
  let ?s = "\<lparr>srv_broker = ?b\<rparr>" and ?sp = "span_on (enc_publish a_publish)"
  have b: "broker_ok split_slash ?b" "subscriptions ?b = {#(5, ''a/b'')#}"
    by (simp_all add: subscribe_names_ok broker_ok_new subscriptions_new)
  have run: "newMessage split_slash 0 6 ?sp ?s = Inr (?s\<lparr>srv_broker := fst (publish split_slash (pub_topic a_publish) ?b)\<rparr>,
      map (\<lambda>c. NewMessage c ?sp) (snd (publish split_slash (pub_topic a_publish) ?b)))"
    using newMessage_header_publish [OF a_publish_ok, of ?sp split_slash 0 6 ?s] by simp
  have "mset (snd (publish split_slash (pub_topic a_publish) ?b)) = {#5#}"
    using publish_ok(3) [OF b(1), of "pub_topic a_publish"] by (simp add: b(2) a_publish_def)
  then have "NewMessage 5 ?sp \<in> set (map (\<lambda>c. NewMessage c ?sp) (snd (publish split_slash (pub_topic a_publish) ?b)))"
    by (metis imageI list.set_map set_mset_mset set_mset_single singletonI)
  with calls_only_subscribers [OF _ run this] b(1) show ?thesis by (simp add: server_ok_def)
qed

text \<open>
  C16. On every span the server comes to an end and throws no exception: no message makes one of
  its loops run forever, and where it does not return, an assertion failed or the behaviour is
  undefined.
\<close>

theorem server_returns:
  assumes "span_ok sp" "newMessage split mem c sp s = Inl e"
  shows "e = FailFast \<or> e = Undefined"
  using newMessage_faults [OF assms(1), of split mem c s] assms(2) by simp

theorem server_returns_witness:
  "\<exists>e. newMessage split_slash 0 (5 :: nat) default_span (new_server False) = Inl e \<and> (e = FailFast \<or> e = Undefined)"
proof -
  have "newMessage split_slash 0 (5 :: nat) default_span (new_server False) = Inl FailFast"
    by (simp add: newMessage_def getMessageType_view span_ok_def view_def default_span_def)
  with server_returns [OF _ this] show ?thesis by (simp add: span_ok_def default_span_def)
qed

text \<open>
  C28. The length of a PUBLISH's topic is believed: where it reaches beyond the message, the
  topic is made of what follows in the buffer, and beyond the buffer the read is undefined.
\<close>

theorem publish_reads_past_message:
  assumes "span_ok sp" "view sp = b # bs" "drop_bit 4 b = 3" "4 < length (view sp)"
  shows "newMessage split mem c sp s =
    (if 4 + topic_length (view sp) \<le> length (reach sp) \<or> topic_length (view sp) = 0
     then let (b', subs) = publish split
            (map char_of_byte (take (topic_length (view sp)) (drop 4 (reach sp)))) (srv_broker s)
          in Inr (s\<lparr>srv_broker := b'\<rparr>, map (\<lambda>c. NewMessage c sp) subs)
     else Inl Undefined)"
  by (rule publish_over_read [OF assms])

theorem publish_reads_past_message_witness:
  "newMessage split_slash 0 (5 :: nat) (span_on [0x30, 3, 0, 9, 97]) (new_server True) = Inl Undefined"
  using publish_reads_past_message [of "span_on [0x30, 3, 0, 9, 97]" "0x30" "[3, 0, 9, 97]" split_slash 0 5 "new_server True"]
  by (simp add: topic_length_def)

text \<open>A PUBLISH of four bytes, an empty topic and nothing else, terminates the program.\<close>

lemma publish_of_four_bytes:
  assumes "span_ok sp" "view sp = [b0, b1, b2, b3]" "drop_bit 4 b0 = 3"
  shows "newMessage split mem c sp s = Inl FailFast"
  using assms by (rule publish_four_bytes)

lemma publish_of_four_bytes_witness:
  "newMessage split_slash 0 (5 :: nat) (span_on [0x30, 2, 0, 0]) (new_server True) = Inl FailFast"
  by (rule publish_of_four_bytes [where ?b0.0 = "0x30" and ?b1.0 = 2 and ?b2.0 = 0 and ?b3.0 = 0]) simp_all

text \<open>A PUBLISH of fewer than four bytes is reported, and then published on the empty topic.\<close>

lemma publish_without_topic:
  assumes "span_ok sp" "view sp = b # bs" "drop_bit 4 b = 3" "length (view sp) < 4"
  shows "newMessage split mem c sp s = (let (b', subs) = publish split [] (srv_broker s) in
    Inr (s\<lparr>srv_broker := b'\<rparr>, map (\<lambda>c. NewMessage c sp) subs))"
  using assms by (rule publish_short_topic)

lemma publish_without_topic_witness:
  "newMessage split_slash 0 (5 :: nat) (span_on [0x30, 0]) (new_server True) =
     (let (b', subs) = publish split_slash [] (new_broker True) in
      Inr (\<lparr>srv_broker = b'\<rparr>, map (\<lambda>c. NewMessage c (span_on [0x30, 0])) subs))"
  using publish_without_topic [of "span_on [0x30, 0]" "0x30" "[0]" split_slash 0 5 "new_server True"]
  by (simp add: new_server_def)

text \<open>A SUBSCRIBE that ends inside its message id is read beyond its end.\<close>

lemma truncated_subscribe:
  assumes "span_ok sp" "header_ok h" "h_type h = SUBSCRIBE" "view sp = enc_header h @ bs" "length bs < 2"
  shows "newMessage split mem c sp s = Inl Undefined"
  using assms by (rule subscribe_truncated)

lemma truncated_subscribe_witness:
  "newMessage split_slash 0 (5 :: nat) (span_on (enc_header (a_header SUBSCRIBE 1 1) @ [0])) (new_server True) = Inl Undefined"
  by (rule truncated_subscribe [where h = "a_header SUBSCRIBE 1 1" and bs = "[0]"])
     (simp_all add: a_header_ok, simp add: a_header_def)

end
