(* ===== verification/ByteStream.thy ===== *)
theory ByteStream
  imports ServerFacts
begin

text \<open>
  The byte stream of a connection, \<^verbatim>\<open>src/src/stream.hpp\<close>: a buffer of fixed size that the
  socket fills, a loop that cuts messages off its front and hands them to the server, and a copy
  that moves what is left to the front.
\<close>

section \<open>The stream\<close>

text \<open>\<^verbatim>\<open>_begin\<close> is the distance of the iterator from the beginning of the buffer.\<close>

record stream =
  st_buffer :: "ubyte list"
  st_begin :: int

text \<open>A negative size becomes a \<^verbatim>\<open>size_t\<close> above the vector's \<^verbatim>\<open>max_size()\<close>.\<close>

definition new_stream :: "int \<Rightarrow> stream result" where
  "new_stream numStreamBytes = (if numStreamBytes < 0 then Inl LengthError
     else Inr \<lparr>st_buffer = replicate (nat numStreamBytes) 0, st_begin = 0\<rparr>)"

definition readableData :: "stream \<Rightarrow> ubyte ptr" where
  "readableData st = ptr_add (Ptr (st_buffer st) 0) (st_begin st)"

definition readableDataSize :: "stream \<Rightarrow> int" where
  "readableDataSize st = int (length (st_buffer st)) - st_begin st"

definition remainingLength :: "ubyte span \<Rightarrow> int result" where
  "remainingLength bytes = bindE (span_at bytes 1) (\<lambda>b. Inr (Word.uint b))"

definition totalLength :: "ubyte span \<Rightarrow> int result" where
  "totalLength bytes =
     (if span_size bytes \<ge> header_size
      then bindE (remainingLength bytes) (\<lambda>n. Inr (n + header_size))
      else Inr header_size)"

lemma totalLength_pos: "totalLength sp = Inr n \<Longrightarrow> 2 \<le> n"
  by (auto simp: totalLength_def remainingLength_def header_size_def returned split: if_splits)

lemma span_sub_size: "span_sub sp k dynamic_range = Inr sp' \<Longrightarrow> span_size sp' = span_size sp - k"
  by (auto simp: span_sub_def span_of_def dynamic_bounds_def returned)

text \<open>
  The loop. The call of the server is the argument \<open>h\<close>: a message and the state, to the new
  state and the calls it made.
\<close>

type_synonym ('s, 'a) handler = "ubyte span \<Rightarrow> 's \<Rightarrow> ('s \<times> 'a list) result"

function message_loop ::
  "('s, 'a) handler \<Rightarrow> ubyte span \<Rightarrow> int \<Rightarrow> 's \<Rightarrow> 'a list \<Rightarrow> (ubyte span \<times> 's \<times> 'a list) result" where
  "message_loop h part totLen s acts =
     (if span_size part \<ge> totLen then
        bindE (span_sub part 0 totLen) (\<lambda>msg.
        bindE (span_sub part totLen dynamic_range) (\<lambda>part'.
        bindE (h msg s) (\<lambda>(s', out).
        bindE (totalLength part') (\<lambda>totLen'.
        if totLen > 0 then message_loop h part' totLen' s' (acts @ out) else Inl Diverges))))
      else Inr (part, s, acts))"
  by pat_completeness auto
termination
  by (relation "measure (\<lambda>(h, part, totLen, s, acts). nat (span_size part + 1))")
     (auto dest!: span_sub_size)

declare message_loop.simps [simp del]

text \<open>
  \<^verbatim>\<open>copy(part.cbegin(), part.cend(), _buffer.begin())\<close>, element by element on the buffer
  the span looks into, so that a write may change what is read later.
\<close>

definition pointer_offset :: "'a span \<Rightarrow> int" where
  "pointer_offset sp = (case m_pdata sp of Null \<Rightarrow> 0 | Ptr _ i \<Rightarrow> i)"

function copy_from :: "nat \<Rightarrow> nat \<Rightarrow> int \<Rightarrow> 'a list \<Rightarrow> 'a list result" where
  "copy_from k n off buffer =
     (if k < n then
        bindE (load (Ptr buffer (off + int k))) (\<lambda>x.
        if k < length buffer then copy_from (Suc k) n off (buffer[k := x]) else Inl Undefined)
      else Inr buffer)"
  by pat_completeness auto
termination
  by (relation "measure (\<lambda>(k, n, off, buffer). n - k)") auto

declare copy_from.simps [simp del]

definition handle_messages :: "('s, 'a) handler \<Rightarrow> int \<Rightarrow> stream \<Rightarrow> 's \<Rightarrow> (stream \<times> 's \<times> 'a list) result" where
  "handle_messages h numBytes st s =
     bindE (as_span (st_buffer st) (st_begin st + numBytes)) (\<lambda>part.
     bindE (totalLength part) (\<lambda>totLen.
     bindE (fail_fast_assert (totLen > 0)) (\<lambda>_.
     bindE (message_loop h part totLen s []) (\<lambda>(part, s, acts).
     bindE (copy_from 0 (nat (span_size part)) (pointer_offset part) (st_buffer st)) (\<lambda>buffer.
     Inr (\<lparr>st_buffer = buffer, st_begin = span_size part\<rparr>, s, acts))))))"

text \<open>\<^verbatim>\<open>handleMessages(numBytes, server, connection)\<close>.\<close>

definition handleMessages ::
  "(string \<Rightarrow> string list) \<Rightarrow> ushort \<Rightarrow> int \<Rightarrow> 'c \<Rightarrow> stream \<Rightarrow> 'c server
    \<Rightarrow> (stream \<times> 'c server \<times> 'c action list) result" where
  "handleMessages split mem numBytes connection st server =
     handle_messages (newMessage split mem connection) numBytes st server"

text \<open>The socket's read of a chunk into \<^verbatim>\<open>readableData()\<close>, then \<open>handle_messages\<close>.\<close>

definition store_chunk :: "ubyte list \<Rightarrow> stream \<Rightarrow> stream" where
  "store_chunk chunk st = st\<lparr>st_buffer := take (nat (st_begin st)) (st_buffer st) @ chunk
     @ drop (nat (st_begin st) + length chunk) (st_buffer st)\<rparr>"

section \<open>Moving the rest to the front\<close>

lemma copy_from_snapshot:
  "k \<le> n \<Longrightarrow> off + n \<le> length buf \<Longrightarrow>
   (\<forall>i<k. buf ! i = orig ! (off + i)) \<Longrightarrow> (\<forall>i. k \<le> i \<longrightarrow> i < length buf \<longrightarrow> buf ! i = orig ! i) \<Longrightarrow>
   length orig = length buf \<Longrightarrow>
   copy_from k n (int off) buf = Inr (take n (drop off orig) @ drop n orig)"
proof (induction k n "int off" buf rule: copy_from.induct)
  case (1 k n buf)
  show ?case
  proof (cases "k < n")
    case True
    then have ld: "load (Ptr buf (int off + int k)) = Inr (orig ! (off + k))"
      using "1.prems" by (simp add: load_def nat_add_distrib)
    have "copy_from (Suc k) n (int off) (buf[k := orig ! (off + k)]) = Inr (take n (drop off orig) @ drop n orig)"
      using "1.prems" True by (intro "1.hyps" [OF True ld]) (auto simp: nth_list_update less_Suc_eq)
    then show ?thesis
      using True "1.prems"(2) by (subst copy_from.simps) (simp add: ld)
  next
    case False
    with "1.prems" have "buf = take n (drop off orig) @ drop n orig"
      by (intro nth_equalityI) (auto simp: nth_append)
    with False show ?thesis by (subst copy_from.simps) simp
  qed
qed

lemma copy_to_front:
  "off + n \<le> length buf \<Longrightarrow> copy_from 0 n (int off) buf = Inr (take n (drop off buf) @ drop n buf)"
  by (rule copy_from_snapshot) simp_all

section \<open>Frames\<close>

text \<open>The messages at the front of a sequence of bytes, and what is left.\<close>

definition frame_length :: "ubyte list \<Rightarrow> nat" where
  "frame_length bs = (if 2 \<le> length bs then unat (bs ! 1) + 2 else 2)"

function frames :: "ubyte list \<Rightarrow> ubyte list list \<times> ubyte list" where
  "frames bs = (if frame_length bs \<le> length bs
     then (let (ms, left) = frames (drop (frame_length bs) bs) in (take (frame_length bs) bs # ms, left))
     else ([], bs))"
  by pat_completeness auto
termination
  by (relation "measure length") (auto simp: frame_length_def)

declare frames.simps [simp del]

lemma frame_length_pos: "2 \<le> frame_length bs" by (simp add: frame_length_def)

lemma frame_length_bound: "frame_length bs \<le> 257"
  using unsigned_less [of "bs ! 1", where 'a = nat] by (simp add: frame_length_def)

lemma frames_more: "frame_length bs \<le> length bs \<Longrightarrow>
   frames bs = (take (frame_length bs) bs # fst (frames (drop (frame_length bs) bs)),
     snd (frames (drop (frame_length bs) bs)))"
  by (subst frames.simps) (simp add: split_def Let_def)

lemma frames_none: "length bs < frame_length bs \<Longrightarrow> frames bs = ([], bs)"
  by (subst frames.simps) simp

lemma frames_concat: "concat (fst (frames bs)) @ snd (frames bs) = bs"
proof (induction bs rule: frames.induct)
  case (1 bs)
  then show ?case by (cases "frame_length bs \<le> length bs") (simp_all add: frames_more frames_none)
qed

lemma frames_rest: "length (snd (frames bs)) < frame_length (snd (frames bs))"
proof (induction bs rule: frames.induct)
  case (1 bs)
  then show ?case by (cases "frame_length bs \<le> length bs") (simp_all add: frames_more frames_none)
qed

lemma frames_rest_bound: "length (snd (frames bs)) < 257"
  using frames_rest [of bs] frame_length_bound [of "snd (frames bs)"] by simp

lemma frame_length_append: "frame_length bs \<le> length bs \<Longrightarrow> frame_length (bs @ cs) = frame_length bs"
  by (auto simp: frame_length_def nth_append split: if_splits)

text \<open>Cutting the bytes differently gives the same messages.\<close>

lemma frames_append:
  "frames (bs @ cs) = (fst (frames bs) @ fst (frames (snd (frames bs) @ cs)), snd (frames (snd (frames bs) @ cs)))"
proof (induction bs rule: frames.induct)
  case (1 bs)
  show ?case
  proof (cases "frame_length bs \<le> length bs")
    case True
    with 1 show ?thesis by (simp add: frames_more frame_length_append)
  qed (simp add: frames_none)
qed

lemma frames_single: "frame_length m = length m \<Longrightarrow> frames (m @ bs) = (m # fst (frames bs), snd (frames bs))"
  by (simp add: frames_more frame_length_append)

lemma frames_of_messages:
  "list_all (\<lambda>m. frame_length m = length m) ms \<Longrightarrow> frames (concat ms @ bs) = (ms @ fst (frames bs), snd (frames bs))"
  by (induction ms) (simp_all add: frames_single)

section \<open>The copy\<close>

text \<open>
  The copy to the front of the buffer may overlap with what it copies: going forward, it
  still puts there what the buffer held before.
\<close>

lemma overlapping_copy:
  assumes "off + n \<le> length buf"
  shows "copy_from 0 n (int off) buf = Inr (take n (drop off buf) @ drop n buf)"
  using assms by (rule copy_to_front)

lemma overlapping_copy_witness: "copy_from 0 3 1 [1, 2, 3, 4 :: ubyte] = Inr [2, 3, 4, 4]"
  using overlapping_copy [of 1 3 "[1, 2, 3, 4 :: ubyte]"] by simp

end
