(* ===== verification/StreamFacts.thy ===== *)
theory StreamFacts
  imports ByteStream
begin

text \<open>
  The stream against its specification, the cutting of a byte sequence into \<^const>\<open>frames\<close>.
  The locale \<open>message_handler\<close> is what the stream relies on: the server looks only at the bytes of
  the message it is given. Under it the stream hands over the frames of everything that arrived,
  however it was cut into reads. The interpretation at the end is for \<^const>\<open>newMessage\<close>.
\<close>

section \<open>Serving a list of messages\<close>

fun serve_all :: "(ubyte list \<Rightarrow> 's \<Rightarrow> ('s \<times> 'o list) result) \<Rightarrow> ubyte list list \<Rightarrow> 's \<Rightarrow> ('s \<times> 'o list) result" where
  "serve_all f [] s = Inr (s, [])"
| "serve_all f (m # ms) s =
     bindE (f m s) (\<lambda>(s, out). bindE (serve_all f ms s) (\<lambda>(s, outs). Inr (s, out @ outs)))"

lemma bindE_pair_assoc:
  "bindE (bindE r (\<lambda>(x, y). f x y)) g = bindE r (\<lambda>(x, y). bindE (f x y) g)"
  by (cases r) (simp_all add: split_def)

lemma serve_all_append:
  "serve_all f (ms @ ns) s = bindE (serve_all f ms s) (\<lambda>(s, out).
     bindE (serve_all f ns s) (\<lambda>(s, outs). Inr (s, out @ outs)))"
proof (induction ms arbitrary: s)
  case Nil
  show ?case by (cases "serve_all f ns s") auto
next
  case (Cons m ms)
  then show ?case by (simp add: bindE_pair_assoc)
qed

definition observe :: "('a \<Rightarrow> 'o) \<Rightarrow> ('s \<times> 'a list) result \<Rightarrow> ('s \<times> 'o list) result" where
  "observe see r = bindE r (\<lambda>(s, acts). Inr (s, map see acts))"

definition observe_stream ::
  "('a \<Rightarrow> 'o) \<Rightarrow> ('x \<times> 's \<times> 'a list) result \<Rightarrow> ('x \<times> 's \<times> 'o list) result" where
  "observe_stream see r = bindE r (\<lambda>(x, s, acts). Inr (x, s, map see acts))"

lemma observe_stream_Inl: "observe_stream see (Inl e) = Inl e"
  by (simp add: observe_stream_def)

section \<open>Windows of the buffer\<close>

definition window :: "'a list \<Rightarrow> nat \<Rightarrow> nat \<Rightarrow> 'a span" where
  "window buf off n = \<lparr>m_pdata = Ptr buf (int off), m_bounds = int n\<rparr>"

lemma window_sel [simp]:
  "m_bounds (window buf off n) = int n" "pointer_offset (window buf off n) = int off"
  by (simp_all add: window_def pointer_offset_def)

lemma window_ok: "off + n \<le> length buf \<Longrightarrow> span_ok (window buf off n)"
  by (simp add: window_def span_ok_def)

lemma window_view: "view (window buf off n) = take n (drop off buf)"
  by (simp add: window_def view_def)

lemma window_sub: "k \<le> n \<Longrightarrow> span_sub (window buf off n) 0 (int k) = Inr (window buf off k)"
  by (simp add: window_def span_sub_def dynamic_range_def ptr_add_def)

lemma window_drop:
  "k \<le> n \<Longrightarrow> span_sub (window buf off n) (int k) dynamic_range = Inr (window buf (off + k) (n - k))"
  by (simp add: window_def span_sub_def dynamic_range_def ptr_add_def of_nat_diff)

lemma totalLength_view: "span_ok sp \<Longrightarrow> totalLength sp = Inr (int (frame_length (view sp)))"
  using span_size_nonneg [of sp]
  by (auto simp: totalLength_def remainingLength_def header_size_def frame_length_def span_at_view nat_le_iff le_nat_iff)

section \<open>Reads\<close>

text \<open>The bytes of a stream that wait for the rest of their message.\<close>

definition pending :: "stream \<Rightarrow> ubyte list" where
  "pending st = take (nat (st_begin st)) (st_buffer st)"

definition stream_ok :: "stream \<Rightarrow> bool" where
  "stream_ok st \<longleftrightarrow> 0 \<le> st_begin st \<and> st_begin st \<le> int (length (st_buffer st))
     \<and> length (pending st) < frame_length (pending st)"

text \<open>The stream after the messages were handed over.\<close>

definition keep :: "ubyte list \<Rightarrow> stream \<Rightarrow> stream" where
  "keep left st = \<lparr>st_buffer = left @ drop (length left) (st_buffer st), st_begin = int (length left)\<rparr>"

fun receive_all :: "('s, 'a) handler \<Rightarrow> ubyte list list \<Rightarrow> stream \<Rightarrow> 's \<Rightarrow> (stream \<times> 's \<times> 'a list) result" where
  "receive_all h [] st s = Inr (st, s, [])"
| "receive_all h (c # cs) st s =
     bindE (handle_messages h (int (length c)) (store_chunk c st) s) (\<lambda>(st, s, acts).
     bindE (receive_all h cs st s) (\<lambda>(st, s, acts'). Inr (st, s, acts @ acts')))"

text \<open>Every read is of at most \<^const>\<open>readableDataSize\<close> bytes.\<close>

fun fits :: "nat \<Rightarrow> ubyte list \<Rightarrow> ubyte list list \<Rightarrow> bool" where
  "fits n left [] = True"
| "fits n left (c # cs) = (length left + length c \<le> n \<and> fits n (snd (frames (left @ c))) cs)"

lemma length_pending: "stream_ok st \<Longrightarrow> int (length (pending st)) = st_begin st"
  by (auto simp: pending_def stream_ok_def min_def)

lemma readableDataSize_pending:
  "stream_ok st \<Longrightarrow> readableDataSize st = int (length (st_buffer st)) - int (length (pending st))"
  by (simp add: readableDataSize_def length_pending)

lemma store_chunk_ok:
  assumes "stream_ok st" "int (length chunk) \<le> readableDataSize st"
  shows "st_begin (store_chunk chunk st) = st_begin st"
    and "length (st_buffer (store_chunk chunk st)) = length (st_buffer st)"
    and "take (nat (st_begin st) + length chunk) (st_buffer (store_chunk chunk st)) = pending st @ chunk"
proof -
  obtain b where "st_begin st = int b" using assms(1) by (auto simp: stream_ok_def elim: nonneg_int_cases)
  with assms show "st_begin (store_chunk chunk st) = st_begin st"
    "length (st_buffer (store_chunk chunk st)) = length (st_buffer st)"
    "take (nat (st_begin st) + length chunk) (st_buffer (store_chunk chunk st)) = pending st @ chunk"
    by (simp_all add: store_chunk_def stream_ok_def readableDataSize_def pending_def)
qed

lemma keep_ok:
  assumes "length left \<le> length (st_buffer st)" "length left < frame_length left"
  shows "stream_ok (keep left st)" "pending (keep left st) = left"
    "length (st_buffer (keep left st)) = length (st_buffer st)"
  using assms by (simp_all add: stream_ok_def keep_def pending_def)

lemma frames_left_length: "length (snd (frames bs)) \<le> length bs"
  by (metis frames_concat le_add2 length_append)

section \<open>The loop\<close>

lemma message_loop_none:
  assumes "off + n \<le> length buf" "bs = take n (drop off buf)" "length bs < frame_length bs"
  shows "message_loop h (window buf off n) (int (frame_length bs)) s acts = Inr (window buf off n, s, acts)"
proof -
  have "length bs = n" using assms(1,2) by simp
  with assms(3) show ?thesis by (subst message_loop.simps) simp
qed

lemma message_loop_more:
  assumes "off + n \<le> length buf" "bs = take n (drop off buf)" "frame_length bs \<le> length bs"
  defines "k \<equiv> frame_length bs"
  shows "message_loop h (window buf off n) (int (frame_length bs)) s acts
    = bindE (h (window buf off k) s) (\<lambda>(s', out).
        message_loop h (window buf (off + k) (n - k)) (int (frame_length (drop k bs))) s' (acts @ out))"
    and "k \<le> n" "0 < k" "drop k bs = take (n - k) (drop (off + k) buf)"
    and "span_ok (window buf off k)" "view (window buf off k) = take k bs"
proof -
  have "length bs = n" using assms(1,2) by simp
  then show k: "k \<le> n" "0 < k" using assms(3) frame_length_pos [of bs] by (simp_all add: k_def)
  show d: "drop k bs = take (n - k) (drop (off + k) buf)"
    using assms(2) by (simp add: drop_take add.commute)
  show "span_ok (window buf off k)" "view (window buf off k) = take k bs"
    using assms(1,2) k by (simp_all add: window_ok window_view min_def)
  have "totalLength (window buf (off + k) (n - k)) = Inr (int (frame_length (drop k bs)))"
    using assms(1) k d by (simp add: totalLength_view window_ok window_view)
  then show "message_loop h (window buf off n) (int (frame_length bs)) s acts
    = bindE (h (window buf off k) s) (\<lambda>(s', out).
        message_loop h (window buf (off + k) (n - k)) (int (frame_length (drop k bs))) s' (acts @ out))"
    using k by (subst message_loop.simps) (simp add: k_def [symmetric] window_sub window_drop)
qed

text \<open>The stream adds no fault of its own, and what it leaves is the part that is no frame.\<close>

lemma message_loop_outcome:
  "off + n \<le> length buf \<Longrightarrow> bs = take n (drop off buf) \<Longrightarrow>
   case message_loop h (window buf off n) (int (frame_length bs)) s acts of
     Inl e \<Rightarrow> \<exists>m s0. span_ok m \<and> h m s0 = Inl e
   | Inr (sp, _, _) \<Rightarrow> let k = length (snd (frames bs)) in sp = window buf (off + n - k) k"
proof (induction bs arbitrary: off n s acts rule: frames.induct)
  case (1 bs)
  show ?case
  proof (cases "frame_length bs \<le> length bs")
    case False
    with "1.prems" show ?thesis by (simp add: message_loop_none frames_none)
  next
    case True
    note step = message_loop_more [OF "1.prems" True]
    let ?k = "frame_length bs"
    show ?thesis
    proof (cases "h (window buf off ?k) s")
      case (Inl e)
      then show ?thesis using step(1) [of h s acts] step(5) by auto
    next
      case (Inr r)
      have e: "off + ?k + (n - ?k) \<le> length buf" "off + ?k + (n - ?k) = off + n"
        using "1.prems"(1) step(2) by simp_all
      have fr: "snd (frames bs) = snd (frames (drop ?k bs))" by (simp add: frames_more [OF True])
      obtain s1 o1 where r: "r = (s1, o1)" by (cases r)
      from "1.IH" [OF True e(1) step(4), of s1 "acts @ o1"] show ?thesis
        unfolding step(1) [of h s acts] Inr r bindE_Inr prod.case fr e(2) .
    qed
  qed
qed

text \<open>A read of a chunk: what the loop starts with, and what the copy makes of its end.\<close>

lemma handle_messages_loop:
  assumes "0 \<le> st_begin st" "0 \<le> n" "st_begin st + n \<le> int (length (st_buffer st))"
    and "bs = take (nat (st_begin st + n)) (st_buffer st)"
  defines "N \<equiv> nat (st_begin st + n)" and "k \<equiv> length (snd (frames bs))"
  shows "handle_messages h n st s = bindE (message_loop h (window (st_buffer st) 0 N) (int (frame_length bs)) s [])
      (\<lambda>(sp, s, acts). bindE (copy_from 0 (nat (span_size sp)) (pointer_offset sp) (st_buffer st)) (\<lambda>buffer.
        Inr (\<lparr>st_buffer = buffer, st_begin = span_size sp\<rparr>, s, acts)))"
    and "copy_from 0 k (int (N - k)) (st_buffer st) = Inr (snd (frames bs) @ drop k (st_buffer st))"
    and "0 + N \<le> length (st_buffer st)" "bs = take N (drop 0 (st_buffer st))"
proof -
  show N: "0 + N \<le> length (st_buffer st)" using assms(3) by (simp add: N_def)
  show bs: "bs = take N (drop 0 (st_buffer st))" using assms(4) by (simp add: N_def)
  have w: "as_span (st_buffer st) (st_begin st + n) = Inr (window (st_buffer st) 0 N)"
    using assms(1,2) by (simp add: as_span_def window_def N_def)
  have t: "totalLength (window (st_buffer st) 0 N) = Inr (int (frame_length bs))"
    using N bs by (simp add: totalLength_view window_view window_ok)
  have pos: "fail_fast_assert (int (frame_length bs) > 0) = Inr ()"
    using frame_length_pos [of bs] by simp
  show "handle_messages h n st s = bindE (message_loop h (window (st_buffer st) 0 N) (int (frame_length bs)) s [])
      (\<lambda>(sp, s, acts). bindE (copy_from 0 (nat (span_size sp)) (pointer_offset sp) (st_buffer st)) (\<lambda>buffer.
        Inr (\<lparr>st_buffer = buffer, st_begin = span_size sp\<rparr>, s, acts)))"
    unfolding handle_messages_def w t bindE_Inr pos ..
  have lenbs: "length bs = N" using N bs by simp
  then have k: "k \<le> N" using frames_left_length [of bs] by (simp add: k_def)
  have "drop (N - k) bs = snd (frames bs)"
    using frames_concat [of bs] lenbs by (metis append_eq_conv_conj length_append add_diff_cancel_right' k_def)
  then show "copy_from 0 k (int (N - k)) (st_buffer st) = Inr (snd (frames bs) @ drop k (st_buffer st))"
    using copy_to_front [of "N - k" k "st_buffer st"] N k bs by (simp add: drop_take)
qed

lemma chunk_bounds:
  assumes "stream_ok st" "int (length chunk) \<le> readableDataSize st"
  defines "st1 \<equiv> store_chunk chunk st" and "n \<equiv> int (length chunk)"
  shows "0 \<le> st_begin st1" "0 \<le> n" "st_begin st1 + n \<le> int (length (st_buffer st1))"
    and "pending st @ chunk = take (nat (st_begin st1 + n)) (st_buffer st1)"
proof -
  note st = store_chunk_ok [OF assms(1,2)]
  show b: "0 \<le> st_begin st1" "0 \<le> n" "st_begin st1 + n \<le> int (length (st_buffer st1))"
    using assms(1,2) by (simp_all add: st st1_def n_def stream_ok_def readableDataSize_def)
  then have "nat (st_begin st1 + n) = nat (st_begin st) + length chunk"
    by (simp add: nat_add_distrib st st1_def n_def)
  then show "pending st @ chunk = take (nat (st_begin st1 + n)) (st_buffer st1)"
    by (simp only: st st1_def)
qed

lemma handle_messages_outcome:
  assumes "stream_ok st" "int (length chunk) \<le> readableDataSize st"
  shows "case handle_messages h (int (length chunk)) (store_chunk chunk st) s of
     Inl e \<Rightarrow> \<exists>m s0. span_ok m \<and> h m s0 = Inl e
   | Inr (st', _, _) \<Rightarrow> st' = keep (snd (frames (pending st @ chunk))) (store_chunk chunk st)"
proof -
  note hm = handle_messages_loop [OF chunk_bounds [OF assms]]
  let ?N = "nat (st_begin (store_chunk chunk st) + int (length chunk))"
  let ?loop = "message_loop h (window (st_buffer (store_chunk chunk st)) 0 ?N)
    (int (frame_length (pending st @ chunk))) s []"
  note out = message_loop_outcome [OF hm(3,4), of h s "[]"]
  show ?thesis
  proof (cases ?loop)
    case (Inl e)
    with out hm(1) [of h s] show ?thesis by simp
  next
    case (Inr r)
    obtain sp s1 acts where "r = (sp, s1, acts)" by (cases r)
    with Inr out hm(1) [of h s] hm(2) show ?thesis by (simp add: keep_def Let_def)
  qed
qed

locale message_handler =
  fixes h :: "('s, 'a) handler"
    and see :: "'a \<Rightarrow> 'o"
    and good :: "ubyte list \<Rightarrow> bool"
    and f :: "ubyte list \<Rightarrow> 's \<Rightarrow> ('s \<times> 'o list) result"
  assumes handles: "span_ok sp \<Longrightarrow> good (view sp) \<Longrightarrow> observe see (h sp s) = f (view sp) s"
begin

lemma loop_step:
  assumes "span_ok sp" "good (view sp)"
  shows "observe_stream see (bindE (h sp s) (\<lambda>(s', out). g s' (acts @ out)))
    = bindE (h sp s) (\<lambda>(s', out). observe_stream see (g s' (acts @ out)))"
  by (cases "h sp s") (simp_all add: observe_stream_def split_def)

lemma message_loop_frames:
  "off + n \<le> length buf \<Longrightarrow> bs = take n (drop off buf) \<Longrightarrow> list_all good (fst (frames bs)) \<Longrightarrow>
   observe_stream see (message_loop h (window buf off n) (int (frame_length bs)) s acts)
     = bindE (serve_all f (fst (frames bs)) s) (\<lambda>(s', out). let k = length (snd (frames bs)) in
         Inr (window buf (off + n - k) k, s', map see acts @ out))"
proof (induction bs arbitrary: off n s acts rule: frames.induct)
  case (1 bs)
  show ?case
  proof (cases "frame_length bs \<le> length bs")
    case False
    with "1.prems" show ?thesis
      by (simp add: message_loop_none frames_none observe_stream_def)
  next
    case True
    define k where "k = frame_length bs"
    note step = message_loop_more [OF "1.prems"(1,2) True, folded k_def]
    let ?m = "window buf off k"
    let ?w = "window buf (off + k) (n - k)"
    have fr: "frames bs = (take k bs # fst (frames (drop k bs)), snd (frames (drop k bs)))"
      using True by (simp add: frames_more k_def)
    have good: "good (take k bs)" "list_all good (fst (frames (drop k bs)))"
      using "1.prems"(3) by (simp_all add: fr)
    have IH: "observe_stream see (message_loop h ?w (int (frame_length (drop k bs))) s' (acts @ out))
        = bindE (serve_all f (fst (frames (drop k bs))) s') (\<lambda>(s'', out'). let j = length (snd (frames (drop k bs))) in
            Inr (window buf (off + n - j) j, s'', map see (acts @ out) @ out'))" for s' out
    proof -
      have "off + k + (n - k) \<le> length buf" "off + k + (n - k) = off + n" using "1.prems"(1) step(2) by simp_all
      with "1.IH" [OF True, folded k_def, OF _ step(4) good(2), of s' "acts @ out"] show ?thesis by simp
    qed
    have "observe_stream see (message_loop h (window buf off n) (int (frame_length bs)) s acts)
        = bindE (observe see (h ?m s)) (\<lambda>(s', o1).
            bindE (serve_all f (fst (frames (drop k bs))) s') (\<lambda>(s'', out'). let j = length (snd (frames (drop k bs))) in
            Inr (window buf (off + n - j) j, s'', map see acts @ o1 @ out')))"
      unfolding k_def [symmetric] step(1)
      by (cases "h ?m s") (auto simp: IH observe_def observe_stream_Inl simp del: Let_def)
    also have "observe see (h ?m s) = f (take k bs) s"
      using handles [OF step(5)] step(6) good(1) by simp
    finally show ?thesis
      by (simp add: fr bindE_pair_assoc Let_def)
  qed
qed

lemma handle_messages_frames:
  assumes "0 \<le> st_begin st" "0 \<le> n" "st_begin st + n \<le> int (length (st_buffer st))"
    and "bs = take (nat (st_begin st + n)) (st_buffer st)" "list_all good (fst (frames bs))"
  shows "observe_stream see (handle_messages h n st s) = bindE (serve_all f (fst (frames bs)) s) (\<lambda>(s', out).
    let left = snd (frames bs) in
    Inr (\<lparr>st_buffer = left @ drop (length left) (st_buffer st), st_begin = int (length left)\<rparr>, s', out))"
proof -
  note hm = handle_messages_loop [OF assms(1-4)]
  let ?N = "nat (st_begin st + n)"
  let ?left = "snd (frames bs)"
  have loop: "observe_stream see (message_loop h (window (st_buffer st) 0 ?N) (int (frame_length bs)) s [])
      = bindE (serve_all f (fst (frames bs)) s) (\<lambda>(s', out).
          Inr (window (st_buffer st) (?N - length ?left) (length ?left), s', out))"
    using message_loop_frames [OF hm(3,4) assms(5), of s "[]"] by (simp add: Let_def)
  have split: "observe_stream see (bindE r (\<lambda>(sp, s', acts). bindE (g sp) (\<lambda>b. Inr (k b sp, s', acts))))
      = bindE (observe_stream see r) (\<lambda>(sp, s', out). bindE (g sp) (\<lambda>b. Inr (k b sp, s', out)))"
    for r :: "(ubyte span \<times> 's \<times> 'a list) result" and g :: "ubyte span \<Rightarrow> ubyte list result"
      and k :: "ubyte list \<Rightarrow> ubyte span \<Rightarrow> stream"
    by (cases r) (auto simp: observe_stream_def bindE_def split: sum.split)
  show ?thesis
    unfolding hm(1) [of h s] split by (simp only: loop bindE_pair_assoc) (simp add: Let_def hm(2))
qed

lemma receive_frames:
  assumes "stream_ok st" "int (length chunk) \<le> readableDataSize st"
    and "list_all good (fst (frames (pending st @ chunk)))"
  shows "observe_stream see (handle_messages h (int (length chunk)) (store_chunk chunk st) s)
    = bindE (serve_all f (fst (frames (pending st @ chunk))) s) (\<lambda>(s', out).
        let left = snd (frames (pending st @ chunk)) in
        Inr (keep left (store_chunk chunk st), s', out))"
  using handle_messages_frames [OF chunk_bounds [OF assms(1,2)] assms(3), of s] by (simp add: keep_def)

text \<open>All reads of a connection.\<close>

lemma receive_all_frames:
  "stream_ok st \<Longrightarrow> fits (length (st_buffer st)) (pending st) chunks \<Longrightarrow>
   list_all good (fst (frames (pending st @ concat chunks))) \<Longrightarrow>
   bindE (observe_stream see (receive_all h chunks st s)) (\<lambda>(st', s', out). Inr (pending st', s', out))
     = bindE (serve_all f (fst (frames (pending st @ concat chunks))) s) (\<lambda>(s', out).
        Inr (snd (frames (pending st @ concat chunks)), s', out))"
proof (induction chunks arbitrary: st s)
  case Nil
  then show ?case by (simp add: observe_stream_def stream_ok_def frames_none)
next
  case (Cons c cs)
  let ?p = "pending st @ c"
  let ?st = "keep (snd (frames ?p)) (store_chunk c st)"
  have c: "int (length c) \<le> readableDataSize st"
    using Cons.prems(1,2) by (simp add: readableDataSize_pending)
  have all: "frames (?p @ concat cs) = (fst (frames ?p) @ fst (frames (snd (frames ?p) @ concat cs)),
      snd (frames (snd (frames ?p) @ concat cs)))"
    by (rule frames_append)
  have "length (snd (frames ?p)) \<le> length (st_buffer (store_chunk c st))"
    using frames_left_length [of ?p] c store_chunk_ok(2) [OF Cons.prems(1) c]
    by (simp add: readableDataSize_pending [OF Cons.prems(1)])
  note ok = keep_ok [OF this frames_rest] store_chunk_ok(2) [OF Cons.prems(1) c]
  have g: "list_all good (fst (frames ?p))" "list_all good (fst (frames (snd (frames ?p) @ concat cs)))"
    using Cons.prems(3) all by simp_all
  have IH: "bindE (observe_stream see (receive_all h cs ?st s')) (\<lambda>(st', s', out). Inr (pending st', s', out))
      = bindE (serve_all f (fst (frames (snd (frames ?p) @ concat cs))) s') (\<lambda>(s', out).
        Inr (snd (frames (snd (frames ?p) @ concat cs)), s', out))" for s'
    using Cons.IH [of ?st s'] ok g(2) Cons.prems(2) by (simp add: split_def)
  note step = receive_frames [OF Cons.prems(1) c g(1), of s]
  show ?case
  proof (cases "handle_messages h (int (length c)) (store_chunk c st) s")
    case (Inl e)
    with step have "serve_all f (fst (frames ?p)) s = Inl e"
      by (cases "serve_all f (fst (frames ?p)) s") (auto simp: observe_stream_def Let_def)
    with Inl all show ?thesis by (simp add: observe_stream_Inl serve_all_append)
  next
    case (Inr r)
    obtain st1 s1 acts where r: "r = (st1, s1, acts)" by (cases r)
    with Inr step have "st1 = ?st" "serve_all f (fst (frames ?p)) s = Inr (s1, map see acts)"
      by (cases "serve_all f (fst (frames ?p)) s"; auto simp: observe_stream_def Let_def)+
    with Inr r all IH [of s1] show ?thesis
      by (cases "receive_all h cs ?st s1";
          cases "serve_all f (fst (frames (snd (frames ?p) @ concat cs))) s1")
         (auto simp: observe_stream_def serve_all_append)
  qed
qed

end

section \<open>The server as handler\<close>

text \<open>
  What a PUBLISH says of its topic has to lie inside the message; no other type of message is
  looked at beyond its end.
\<close>

definition self_contained :: "ubyte list \<Rightarrow> bool" where
  "self_contained bs \<longleftrightarrow> (bs \<noteq> [] \<and> drop_bit 4 (hd bs) = 3 \<and> 4 < length bs \<longrightarrow> 4 + topic_length bs \<le> length bs)"

lemma type_of_code_publish: "type_of_code (ucast (b :: ubyte)) = PUBLISH \<longleftrightarrow> b = 3"
proof -
  have "(ucast b :: uint) = 3 \<longleftrightarrow> b = 3"
  proof
    assume *: "(ucast b :: uint) = 3"
    have "ucast (ucast b :: uint) = b" by (rule bit_word_eqI) (simp add: bit_simps)
    then show "b = 3" by (simp add: *)
  qed simp
  then show ?thesis by (auto simp: type_of_code_def)
qed

definition serve_bytes :: "(string \<Rightarrow> string list) \<Rightarrow> ushort \<Rightarrow> 'c \<Rightarrow> ubyte list \<Rightarrow> 'c server
    \<Rightarrow> ('c server \<times> ('c \<times> ubyte list option) list) result" where
  "serve_bytes split mem c bs s = observe seen (newMessage split mem c (span_on bs) s)"

lemma publish_contained:
  assumes "span_ok sp" "self_contained (view sp)" "view sp = b # bs" "drop_bit 4 b = 3"
  shows "observe seen (newMessage split mem c sp s) =
    (if length (view sp) = 4 then Inl FailFast
     else let t = (if length (view sp) < 4 then []
                   else map char_of_byte (take (topic_length (view sp)) (drop 4 (view sp))));
              (b', subs) = publish split t (srv_broker s)
          in Inr (s\<lparr>srv_broker := b'\<rparr>, map (\<lambda>c. (c, Some (view sp))) subs))"
proof -
  consider "length (view sp) < 4" | "length (view sp) = 4" | "4 < length (view sp)" by linarith
  then show ?thesis
  proof cases
    case 1
    then show ?thesis
      using publish_short_topic [OF assms(1,3,4), of split mem c s]
      by (simp add: observe_def split_def Let_def comp_def)
  next
    case 2
    then obtain b1 b2 b3 where "view sp = [b, b1, b2, b3]"
      using assms(3) by (auto simp: numeral_eq_Suc length_Suc_conv)
    then show ?thesis
      using publish_four_bytes [OF assms(1) _ assms(4), of b1 b2 b3 split mem c s] by (simp add: observe_def)
  next
    case 3
    then have len: "4 + topic_length (view sp) \<le> length (view sp)"
      using assms(2-4) by (simp add: self_contained_def)
    obtain ys where r: "reach sp = view sp @ ys" using view_prefix_reach by blast
    then have "take (topic_length (view sp)) (drop 4 (reach sp)) = take (topic_length (view sp)) (drop 4 (view sp))"
      using len by simp
    moreover have "4 + topic_length (view sp) \<le> length (reach sp)" using len r by simp
    ultimately show ?thesis
      using 3 publish_over_read [OF assms(1,3,4) 3, of split mem c s]
      by (simp add: observe_def split_def Let_def comp_def)
  qed
qed

lemma newMessage_view:
  assumes "span_ok sp" "self_contained (view sp)"
  shows "observe seen (newMessage split mem c sp s) = serve_bytes split mem c (view sp) s"
proof (cases "view sp")
  case Nil
  with assms show ?thesis
    by (simp add: serve_bytes_def newMessage_def getMessageType_view observe_def)
next
  case (Cons b bs)
  show ?thesis
  proof (cases "drop_bit 4 b = 3")
    case True
    have "observe seen (newMessage split mem c (span_on (view sp)) s) = observe seen (newMessage split mem c sp s)"
      using publish_contained [OF assms(1,2) Cons True, of split mem c s]
        publish_contained [of "span_on (view sp)" b bs split mem c s] assms(2) Cons True
      by simp
    then show ?thesis by (simp add: serve_bytes_def)
  next
    case False
    have "getMessageType sp = Inr (type_of_code (ucast (drop_bit 4 b)))"
      "getMessageType (span_on (view sp)) = Inr (type_of_code (ucast (drop_bit 4 b)))"
      using assms(1) Cons by (simp_all add: getMessageType_view)
    moreover have "type_of_code (ucast (drop_bit 4 b)) \<noteq> PUBLISH"
      using False by (simp add: type_of_code_publish)
    ultimately have "newMessage split mem c sp s = newMessage split mem c (span_on (view sp)) s"
      using assms(1)
      by (cases "type_of_code (ucast (drop_bit 4 b))")
         (simp_all add: newMessage_def handle_subscribe_def handle_unsubscribe_def create_decode)
    then show ?thesis by (simp add: serve_bytes_def)
  qed
qed

interpretation sv: message_handler "newMessage split mem c" seen self_contained "serve_bytes split mem c"
  for split mem c
  by unfold_locales (rule newMessage_view)

section \<open>From bytes to requests\<close>

text \<open>A request whose remaining length is one byte and is the number of bytes that follow.\<close>

definition framed :: "request \<Rightarrow> bool" where
  "framed r \<longleftrightarrow> request_ok r \<and> frame_length (wire r) = length (wire r)"

lemma wire_self_contained:
  assumes "request_ok r"
  shows "self_contained (wire r)"
proof (cases "\<exists>m. r = Publish m")
  case True
  then obtain m where r: "r = Publish m" by blast
  with assms obtain b x bs where "wire r = b # x # enc_string (pub_topic m) @ bs" "string_ok (pub_topic m)"
    by (simp add: enc_publish_def enc_header_def remaining_digits_single)
  then show ?thesis by (simp add: self_contained_def topic_length_string)
next
  case False
  have h: "drop_bit 4 (header_byte h) \<noteq> 3" if "h_qos h < 4" "h_type h \<noteq> PUBLISH" for h
    using type_of_header [OF that(1)] that(2) type_of_code_publish [of "drop_bit 4 (header_byte h)"] by auto
  from False assms show ?thesis
    by (cases r) (auto simp: self_contained_def enc_header_def header_ok_def h
        enc_subscribe_def enc_unsubscribe_def)
qed

lemma serve_bytes_refines:
  assumes "server_ok split s" "request_ok r"
  shows "\<exists>s' out. serve_bytes split mem c (wire r) s = Inr (s', out) \<and> server_ok split s' \<and>
    serve_spec split c r (subscriptions (srv_broker s)) = (subscriptions (srv_broker s'), mset out)"
  using newMessage_refines [OF assms, of "span_on (wire r)" mem c] newMessage_ok [OF assms(1)]
  by (fastforce simp: serve_bytes_def observe_def)

lemma serve_all_requests:
  "server_ok split s \<Longrightarrow> list_all request_ok rs \<Longrightarrow>
   \<exists>s' outs. serve_all (serve_bytes split mem c) (map wire rs) s = Inr (s', concat outs) \<and> server_ok split s' \<and>
    run_spec split (map (Pair c) rs) (subscriptions (srv_broker s)) = (subscriptions (srv_broker s'), map mset outs)"
proof (induction rs arbitrary: s)
  case Nil
  then show ?case by (auto intro: exI [of _ "[]"])
next
  case (Cons r rs)
  then obtain s1 out where 1: "serve_bytes split mem c (wire r) s = Inr (s1, out)" "server_ok split s1"
    "serve_spec split c r (subscriptions (srv_broker s)) = (subscriptions (srv_broker s1), mset out)"
    using serve_bytes_refines [of split s r mem c] by auto
  from Cons.IH [OF 1(2)] Cons.prems(2) obtain s2 outs where
    "serve_all (serve_bytes split mem c) (map wire rs) s1 = Inr (s2, concat outs)" "server_ok split s2"
    "run_spec split (map (Pair c) rs) (subscriptions (srv_broker s1)) = (subscriptions (srv_broker s2), map mset outs)"
    by auto
  with 1 show ?case by (intro exI [of _ s2] exI [of _ "out # outs"]) (simp add: Let_def)
qed

lemma serve_all_refines:
  assumes "server_ok split s" "list_all request_ok rs"
  shows "\<exists>s' out. serve_all (serve_bytes split mem c) (map wire rs) s = Inr (s', out) \<and>
    fst (run_spec split (map (Pair c) rs) (subscriptions (srv_broker s))) = subscriptions (srv_broker s') \<and>
    sum_list (snd (run_spec split (map (Pair c) rs) (subscriptions (srv_broker s)))) = mset out"
  using serve_all_requests [OF assms, of mem c] by (fastforce simp: mset_concat)

lemma run_spec_append:
  "run_spec split (xs @ ys) ss = (let (ss1, outs1) = run_spec split xs ss; (ss2, outs2) = run_spec split ys ss1
     in (ss2, outs1 @ outs2))"
proof (induction xs arbitrary: ss)
  case (Cons x xs)
  show ?case by (cases x) (simp add: Cons.IH split_def Let_def)
qed (simp add: split_def Let_def)

lemma bytes_to_requests:
  assumes "server_ok split s" "list_all framed rs" "concat chunks = concat (map wire rs)"
    and "stream_ok st" "pending st = []" "fits (length (st_buffer st)) [] chunks"
  shows "\<exists>st' s' acts. receive_all (newMessage split mem c) chunks st s = Inr (st', s', acts) \<and>
    pending st' = [] \<and>
    fst (run_spec split (map (Pair c) rs) (subscriptions (srv_broker s))) = subscriptions (srv_broker s') \<and>
    sum_list (snd (run_spec split (map (Pair c) rs) (subscriptions (srv_broker s)))) = mset (map seen acts)"
proof -
  have fr: "frames (concat (map wire rs)) = (map wire rs, [])"
    using frames_of_messages [of "map wire rs" "[]"] assms(2)
    by (simp add: list_all_iff framed_def frames_none frame_length_def)
  have ok: "list_all request_ok rs" "list_all self_contained (map wire rs)"
    using assms(2) wire_self_contained by (auto simp: list_all_iff framed_def)
  obtain s' out where s': "serve_all (serve_bytes split mem c) (map wire rs) s = Inr (s', out)"
    "fst (run_spec split (map (Pair c) rs) (subscriptions (srv_broker s))) = subscriptions (srv_broker s')"
    "sum_list (snd (run_spec split (map (Pair c) rs) (subscriptions (srv_broker s)))) = mset out"
    using serve_all_refines [OF assms(1) ok(1)] by blast
  have "bindE (observe_stream seen (receive_all (newMessage split mem c) chunks st s))
      (\<lambda>(st', s', out). Inr (pending st', s', out)) = Inr ([], s', out)"
    using sv.receive_all_frames [of st chunks split mem c s] assms ok fr s'(1) by simp
  then obtain st' acts where "receive_all (newMessage split mem c) chunks st s = Inr (st', s', acts)"
    "pending st' = []" "map seen acts = out"
    by (auto simp: returned observe_stream_def)
  with s' show ?thesis by auto
qed

section \<open>Properties\<close>

text \<open>
  C14. A read of a chunk that fits makes the server handle exactly the complete messages in what
  was pending and what arrived, in order, and keeps the incomplete one at the front of the
  buffer. The topic of a PUBLISH has to lie inside its message.
\<close>

theorem stream_hands_over_frames:
  assumes "stream_ok st" "int (length chunk) \<le> readableDataSize st"
    and "list_all self_contained (fst (frames (pending st @ chunk)))"
  shows "observe_stream seen (handleMessages split mem (int (length chunk)) c (store_chunk chunk st) s)
    = bindE (serve_all (serve_bytes split mem c) (fst (frames (pending st @ chunk))) s) (\<lambda>(s', out).
        let left = snd (frames (pending st @ chunk)) in Inr (keep left (store_chunk chunk st), s', out))"
  using sv.receive_frames [OF assms] by (simp add: handleMessages_def)

definition a_stream :: stream where
  "a_stream = \<lparr>st_buffer = replicate 300 0, st_begin = 0\<rparr>"

lemma a_stream_ok: "stream_ok a_stream" "pending a_stream = []" "readableDataSize a_stream = 300"
  "length (st_buffer a_stream) = 300"
  by (simp_all add: a_stream_def stream_ok_def pending_def readableDataSize_def frame_length_def)

lemma frames_example: "frames [0xc0, 0, 0xc0] = ([[0xc0, 0]], [0xc0])"
  by (simp add: frames.simps frame_length_def)

theorem stream_hands_over_frames_witness:
  "observe_stream seen (handleMessages split_slash 0 3 (5 :: nat) (store_chunk [0xc0, 0, 0xc0] a_stream) (new_server True))
     = Inr (keep [0xc0] (store_chunk [0xc0, 0, 0xc0] a_stream), new_server True, [(5, Some [0xd0, 0])])"
proof -
  have "newMessage split_slash 0 (5 :: nat) (span_on [0xc0, 0]) (new_server True)
      = Inr (new_server True, [NewMessage 5 (span_on [0xd0, 0])])"
    by (rule newMessage_fixed(2) [where b = "0xc0" and bs = "[0]"]) simp_all
  with stream_hands_over_frames [OF a_stream_ok(1), of "[0xc0, 0, 0xc0]" split_slash 0 "5 :: nat" "new_server True"]
  show ?thesis
    by (simp add: a_stream_ok frames_example self_contained_def serve_bytes_def observe_def)
qed

text \<open>
  How the bytes of a connection are cut into reads makes no difference: the same calls in
  the same order, the same state of the server, the same bytes left over, or the same fault.
\<close>

lemma reads_do_not_matter:
  assumes "stream_ok st" "concat chunks = concat chunks'"
    and "fits (length (st_buffer st)) (pending st) chunks" "fits (length (st_buffer st)) (pending st) chunks'"
    and "list_all self_contained (fst (frames (pending st @ concat chunks)))"
  shows "bindE (observe_stream seen (receive_all (newMessage split mem c) chunks st s)) (\<lambda>(st', s', out). Inr (pending st', s', out))
    = bindE (observe_stream seen (receive_all (newMessage split mem c) chunks' st s)) (\<lambda>(st', s', out). Inr (pending st', s', out))"
  using sv.receive_all_frames [OF assms(1,3,5), of split mem c s]
    sv.receive_all_frames [OF assms(1,4), of split mem c s] assms(2,5) by simp

lemma reads_do_not_matter_witness:
  "bindE (observe_stream seen (receive_all (newMessage split_slash 0 (5 :: nat)) [[0xc0, 0], [0xc0]] a_stream (new_server True)))
      (\<lambda>(st', s', out). Inr (pending st', s', out))
   = bindE (observe_stream seen (receive_all (newMessage split_slash 0 5) [[0xc0], [0, 0xc0]] a_stream (new_server True)))
      (\<lambda>(st', s', out). Inr (pending st', s', out))"
proof -
  have "frames [0xc0, 0] = ([[0xc0, 0]], [])" "frames [0xc0] = ([], [0xc0])"
    by (simp_all add: frames.simps frame_length_def)
  then show ?thesis
    by (intro reads_do_not_matter a_stream_ok(1)) (simp_all add: a_stream_ok frames_example self_contained_def)
qed

text \<open>
  C15. Whatever the server does with its messages, a read leaves the stream well-formed and all
  but 256 bytes of its buffer free, and where it ends in a fault, the server met it.
\<close>

theorem stream_keeps_room:
  assumes "stream_ok st" "int (length chunk) \<le> readableDataSize st"
  shows "case handle_messages h (int (length chunk)) (store_chunk chunk st) s of
     Inl e \<Rightarrow> \<exists>m s0. span_ok m \<and> h m s0 = Inl e
   | Inr (st', _, _) \<Rightarrow> stream_ok st' \<and> length (st_buffer st') = length (st_buffer st)
       \<and> int (length (st_buffer st)) - 256 \<le> readableDataSize st'"
proof -
  let ?left = "snd (frames (pending st @ chunk))"
  have b: "length ?left \<le> length (st_buffer (store_chunk chunk st))"
    using frames_left_length [of "pending st @ chunk"] assms
    by (simp add: store_chunk_ok readableDataSize_pending)
  note ok = keep_ok [OF b frames_rest]
  have "int (length (st_buffer st)) - 256 \<le> readableDataSize (keep ?left (store_chunk chunk st))"
    using frames_rest_bound [of "pending st @ chunk"] ok store_chunk_ok(2) [OF assms]
    by (simp add: readableDataSize_pending)
  with handle_messages_outcome [OF assms, of h s] ok store_chunk_ok(2) [OF assms]
  show ?thesis by (auto split: sum.splits)
qed

theorem stream_keeps_room_witness:
  "case handle_messages (newMessage split_slash 0 (5 :: nat)) 3 (store_chunk [0xc0, 0, 0xc0] a_stream) (new_server True) of
     Inl e \<Rightarrow> \<exists>m s0. span_ok m \<and> newMessage split_slash 0 (5 :: nat) m s0 = Inl e
   | Inr (st', _, _) \<Rightarrow> stream_ok st' \<and> length (st_buffer st') = length (st_buffer a_stream)
       \<and> int (length (st_buffer a_stream)) - 256 \<le> readableDataSize st'"
  using stream_keeps_room [OF a_stream_ok(1), of "[0xc0, 0, 0xc0]" "newMessage split_slash 0 (5 :: nat)" "new_server True"]
  by (simp add: a_stream_ok)

lemma two_digits: "128 \<le> (x :: uint) \<Longrightarrow>
  remaining_digits x = (ucast (x mod 128) OR 128) # remaining_digits (x div 128)"
proof -
  assume "128 \<le> x"
  then have "0 < x div 128" by (simp add: word_less_nat_alt word_le_nat_alt unat_div)
  then show ?thesis by (subst remaining_digits.simps) (simp add: Let_def)
qed

lemma first_digit_value: "unat (ucast (x mod 128 :: uint) OR 128 :: ubyte) = 128 + unat x mod 128"
proof -
  let ?d = "ucast (x mod 128 :: uint) :: ubyte"
  have d: "unat ?d = unat x mod 128"
    by (simp add: unsigned_ucast_eq unat_mod take_bit_nat_eq_self)
  have "x mod 128 = take_bit 7 x" by (simp add: take_bit_eq_mod)
  then have "?d + 128 = ?d OR 128"
    by (intro disjunctive_add) (auto simp: bit_simps bit_128)
  then have "?d OR 128 = ?d + 128" by simp
  then show ?thesis using d by (simp add: unat_word_ariths)
qed

lemma long_frame_length:
  assumes "128 \<le> h_remaining h" "length bs = unat (h_remaining h)"
  defines "m \<equiv> enc_header h @ bs" and "k \<equiv> 130 + unat (h_remaining h) mod 128"
  shows "frame_length m = k" and "k < length m"
proof -
  obtain d ds where ds: "remaining_digits (h_remaining h div 128) = d # ds"
    using remaining_digits_nonempty by (cases "remaining_digits (h_remaining h div 128)") auto
  have m: "m = header_byte h # (ucast (h_remaining h mod 128) OR 128) # d # ds @ bs"
    by (simp add: m_def enc_header_def two_digits [OF assms(1)] ds)
  then show fl: "frame_length m = k" by (simp add: frame_length_def first_digit_value k_def)
  have "128 \<le> unat (h_remaining h)" using assms(1) by (simp add: word_le_nat_alt)
  then have "unat (h_remaining h) mod 128 + 128 \<le> unat (h_remaining h)"
    by (metis le_mod_geq le_add_diff_inverse2 mod_less_eq_dividend add_le_mono1)
  then show "k < length m" using assms(2) by (simp add: m k_def)
qed

text \<open>
  C29. A message whose remaining length takes more than one digit, and that arrives in one read while nothing
  is waiting in the stream, is cut too short. The stream takes the byte of the first digit, which is 128 and the lowest seven bits of the length, for the whole remaining length:
  what it hands to the server as the message are the first \<open>k\<close> bytes, where \<open>k\<close> is that byte and 2, and
  with the bytes behind them it goes on as with another message. \<open>k\<close> is always below the length of the message.
\<close>

theorem long_message_misframed:
  assumes "128 \<le> h_remaining h" "length bs = unat (h_remaining h)"
  defines "m \<equiv> enc_header h @ bs" and "k \<equiv> 130 + unat (h_remaining h) mod 128"
  assumes "stream_ok st" "pending st = []" "int (length m) \<le> readableDataSize st"
  shows "k < length m \<and> (\<exists>whole message left t.
    view whole = m \<and> totalLength whole = Inr (int k) \<and> view message = take k m \<and>
    view left = drop k m \<and> totalLength left = Inr t \<and>
    handleMessages split mem (int (length m)) c (store_chunk m st) s =
      bindE (newMessage split mem c message s) (\<lambda>(s', out).
      bindE (message_loop (newMessage split mem c) left t s' out) (\<lambda>(sp, s'', acts).
      bindE (copy_from 0 (nat (span_size sp)) (pointer_offset sp) (st_buffer (store_chunk m st))) (\<lambda>buffer.
      Inr (\<lparr>st_buffer = buffer, st_begin = span_size sp\<rparr>, s'', acts)))))"
proof -
  note k = long_frame_length [OF assms(1,2), folded m_def k_def]
  let ?st = "store_chunk m st" and ?h = "newMessage split mem c"
  let ?buf = "st_buffer ?st" and ?n = "length m"
  note b = chunk_bounds [OF assms(5,7)]
  have m: "m = take (nat (st_begin ?st + int ?n)) ?buf" using b(4) assms(6) by simp
  note hm = handle_messages_loop [OF b(1-3) m]
  have "nat (st_begin ?st + int ?n) = ?n"
    using length_pending [OF assms(5)] assms(6) store_chunk_ok(1) [OF assms(5,7)] by simp
  note hm = hm [unfolded this]
  note more = message_loop_more [OF hm(3,4)]
  have le: "frame_length m \<le> length m" using k by simp
  have left: "span_ok (window ?buf k (?n - k))" "view (window ?buf k (?n - k)) = drop k m"
    using more(4) [OF le] hm(3) k by (simp_all add: window_ok window_view)
  have whole: "view (window ?buf 0 ?n) = m" "totalLength (window ?buf 0 ?n) = Inr (int k)"
    using hm(3,4) k(1) by (simp_all add: window_view window_ok totalLength_view)
  have hands: "handleMessages split mem (int ?n) c ?st s =
      bindE (?h (window ?buf 0 k) s) (\<lambda>(s', out).
      bindE (message_loop ?h (window ?buf k (?n - k)) (int (frame_length (drop k m))) s' out) (\<lambda>(sp, s'', acts).
      bindE (copy_from 0 (nat (span_size sp)) (pointer_offset sp) ?buf) (\<lambda>buffer.
      Inr (\<lparr>st_buffer = buffer, st_begin = span_size sp\<rparr>, s'', acts))))"
    unfolding handleMessages_def hm(1) more(1) [OF le]
    by (cases "?h (window ?buf 0 k) s") (auto simp: k(1))
  have first: "view (window ?buf 0 k) = take k m" using more(6) [OF le] k(1) by simp
  show ?thesis
    by (rule conjI [OF k(2)], intro exI conjI)
       (rule whole first left(2) totalLength_view [OF left(1), unfolded left(2)] hands)+
qed

theorem long_message_misframed_witness:
  "\<exists>message. view message = take 132 (enc_header (a_header PUBLISH 0 130) @ replicate 130 0) \<and>
     (\<forall>e. newMessage split_slash 0 (5 :: nat) message (new_server True) = Inl e \<longrightarrow>
        handleMessages split_slash 0 133 (5 :: nat)
          (store_chunk (enc_header (a_header PUBLISH 0 130) @ replicate 130 0) a_stream) (new_server True) = Inl e)"
proof -
  let ?h = "a_header PUBLISH 0 130" and ?b = "replicate 130 0 :: ubyte list"
  have "length (remaining_digits 130) = 2" by (simp add: remaining_digits.simps Let_def)
  then have n: "length (enc_header ?h @ ?b) = 133" by (simp add: enc_header_def a_header_def)
  have h: "128 \<le> h_remaining ?h" "length ?b = unat (h_remaining ?h)" "130 + unat (h_remaining ?h) mod 128 = 132"
    by (simp_all add: a_header_def)
  have fits: "int (length (enc_header ?h @ ?b)) \<le> readableDataSize a_stream" by (simp only: n a_stream_ok)
  obtain message l t where m: "view message = take 132 (enc_header ?h @ ?b)"
    "handleMessages split_slash 0 133 (5 :: nat) (store_chunk (enc_header ?h @ ?b) a_stream) (new_server True) =
      bindE (newMessage split_slash 0 5 message (new_server True)) (\<lambda>(s', out).
      bindE (message_loop (newMessage split_slash 0 5) l t s' out) (\<lambda>(sp, s'', acts).
      bindE (copy_from 0 (nat (span_size sp)) (pointer_offset sp) (st_buffer (store_chunk (enc_header ?h @ ?b) a_stream))) (\<lambda>buffer.
      Inr (\<lparr>st_buffer = buffer, st_begin = span_size sp\<rparr>, s'', acts))))"
    using long_message_misframed [OF h(1,2) a_stream_ok(1,2) fits, of split_slash 0 "5 :: nat" "new_server True"]
    unfolding n h(3) of_nat_numeral by blast
  show ?thesis by (intro exI [of _ message] conjI allI impI) (simp_all only: m bindE_Inl)
qed

end
