(* ===== verification/Parser.thy ===== *)
theory Parser
  imports StreamFacts
begin

text \<open>
  What the server does with a message of any bytes. Parsers on lists of bytes, which know
  nothing of positions and objects, say which message is in the bytes; the locale \<open>parsed\<close> states
  that an operation of the serialisation library reads what a parser finds and fails where it
  finds nothing. With them \<open>serve_any\<close> extends the specification of the server from requests to
  all bytes, and the server refines it, its faults included.
\<close>

section \<open>Parsers\<close>

type_synonym 'a parser = "ubyte list \<Rightarrow> ('a \<times> ubyte list) option"

fun parse_byte :: "ubyte parser" where
  "parse_byte [] = None" | "parse_byte (b # bs) = Some (b, bs)"

definition parse_char :: "char parser" where
  "parse_char bs = Option.bind (parse_byte bs) (\<lambda>(b, bs). Some (char_of_byte b, bs))"

fun parse_short :: "ushort parser" where
  "parse_short (h # l # bs) = Some (word_of_nat (256 * unat h + unat l), bs)"
| "parse_short _ = None"

text \<open>A string has its length in two bytes in front.\<close>

definition parse_string :: "string parser" where
  "parse_string bs = Option.bind (parse_short bs) (\<lambda>(n, bs).
     if unat n \<le> length bs then Some (map char_of_byte (take (unat n) bs), drop (unat n) bs) else None)"

definition parse_topic :: "topic parser" where
  "parse_topic bs = Option.bind (parse_string bs) (\<lambda>(s, bs).
     Option.bind (parse_byte bs) (\<lambda>(q, bs). Some (\<lparr>topic_topic = s, topic_qos = q\<rparr>, bs)))"

fun parse_times :: "'a parser \<Rightarrow> nat \<Rightarrow> 'a list parser" where
  "parse_times p 0 bs = Some ([], bs)"
| "parse_times p (Suc n) bs = Option.bind (p bs) (\<lambda>(v, bs).
     Option.bind (parse_times p n bs) (\<lambda>(vs, bs). Some (v # vs, bs)))"

definition parse_vector :: "'a parser \<Rightarrow> 'a list parser" where
  "parse_vector p bs = Option.bind (parse_short bs) (\<lambda>(n, bs). parse_times p (unat n) bs)"

text \<open>Elements up to the end of the bytes.\<close>

function parse_all :: "'a parser \<Rightarrow> ubyte list \<Rightarrow> 'a list option" where
  "parse_all p bs = (if bs = [] then Some [] else Option.bind (p bs) (\<lambda>(v, cs).
     if length cs < length bs then Option.bind (parse_all p cs) (\<lambda>vs. Some (v # vs)) else None))"
  by pat_completeness auto
termination by (relation "measure (\<lambda>(p, bs). length bs)") auto

declare parse_all.simps [simp del]

text \<open>The remaining length, of at most four digits.\<close>

fun parse_digits :: "nat \<Rightarrow> nat parser" where
  "parse_digits (Suc n) (b # bs) = (if unat b < 128 then Some (unat b, bs)
     else Option.bind (parse_digits n bs) (\<lambda>(v, bs). Some (unat b - 128 + 128 * v, bs)))"
| "parse_digits _ _ = None"

lemma parse_digits_numeral: "parse_digits (numeral k) (b # bs) = (if unat b < 128 then Some (unat b, bs)
    else Option.bind (parse_digits (pred_numeral k) bs) (\<lambda>(v, bs). Some (unat b - 128 + 128 * v, bs)))"
  by (simp add: numeral_eq_Suc)

fun parse_header :: "mqtt_fixed_header parser" where
  "parse_header [] = None"
| "parse_header (b # bs) = Option.bind (parse_digits 4 bs) (\<lambda>(n, bs). Some (header_of_byte b (word_of_nat n), bs))"

definition parse_subscribe :: "ubyte list \<Rightarrow> mqtt_subscribe option" where
  "parse_subscribe bs = Option.bind (parse_header bs) (\<lambda>(h, bs). Option.bind (parse_short bs) (\<lambda>(mid, bs).
     Option.bind (parse_all parse_topic bs) (\<lambda>ts. Some \<lparr>sub_header = h, sub_msgId = mid, sub_topics = ts\<rparr>)))"

definition parse_unsubscribe :: "ubyte list \<Rightarrow> mqtt_unsubscribe option" where
  "parse_unsubscribe bs = Option.bind (parse_header bs) (\<lambda>(h, bs). Option.bind (parse_short bs) (\<lambda>(mid, bs).
     Option.bind (parse_all parse_string bs) (\<lambda>ts. Some \<lparr>unsub_header = h, unsub_msgId = mid, unsub_topics = ts\<rparr>)))"

text \<open>Where a parser finds nothing, the code reads beyond the end of its bytes.\<close>

definition demand :: "'a option \<Rightarrow> 'a result" where
  "demand r = (case r of None \<Rightarrow> Inl Undefined | Some x \<Rightarrow> Inr x)"

lemma demand [simp]: "demand None = Inl Undefined" "demand (Some x) = Inr x"
  "demand (Option.bind r f) = bindE (demand r) (\<lambda>x. demand (f x))"
  by (simp_all add: demand_def split: Option.bind_split)

section \<open>Operations that read what a parser finds\<close>

text \<open>The reader when the bytes \<open>bs\<close> are left of it.\<close>

definition behind :: "decerealiser \<Rightarrow> ubyte list \<Rightarrow> decerealiser" where
  "behind d bs = advance (length (rest d) - length bs) d"

lemma behind_drop: "k \<le> length (rest d) \<Longrightarrow> behind d (drop k (rest d)) = advance k d"
  by (simp add: behind_def)

lemma behind_advance: "behind (advance k d) bs = advance (k + (length (rest d) - k - length bs)) d"
  by (simp add: behind_def)

locale parsed =
  fixes grain :: "'a grain" and p :: "'a parser"
  assumes reads_as: "grain u (Read d) = bindE (demand (p (rest d))) (\<lambda>(v, bs). Inr (v, Read (behind d bs)))"
    and consumes: "p bs = Some (v, cs) \<Longrightarrow> \<exists>k>0. k \<le> length bs \<and> cs = drop k bs"
begin

lemma parse_step:
  obtains (nothing) "p (rest d) = None" "\<And>u. grain u (Read d) = Inl Undefined"
  | (found) v k where "p (rest d) = Some (v, drop k (rest d))" "0 < k" "k \<le> length (rest d)"
      "\<And>u. grain u (Read d) = Inr (v, Read (advance k d))"
proof (cases "p (rest d)")
  case None
  then show thesis by (rule nothing) (simp add: reads_as None)
next
  case (Some r)
  obtain v cs where r: "p (rest d) = Some (v, cs)" using Some by (cases r) auto
  from consumes [OF r] obtain k where "k > 0" "k \<le> length (rest d)" "cs = drop k (rest d)" by blast
  with r show thesis by (intro found [of v k]) (simp_all add: reads_as behind_drop)
qed

lemma times_consumes: "parse_times p n bs = Some (vs, cs) \<Longrightarrow> \<exists>k\<le>length bs. cs = drop k bs"
proof (induction n arbitrary: bs vs cs)
  case (Suc n)
  then obtain v bs1 vs1 where 1: "p bs = Some (v, bs1)" "parse_times p n bs1 = Some (vs1, cs)"
    by (auto simp: bind_eq_Some_conv)
  from consumes [OF 1(1)] obtain j where j: "j \<le> length bs" "bs1 = drop j bs" by blast
  with Suc.IH [OF 1(2)] obtain k where "k \<le> length bs - j" "cs = drop (k + j) bs" by auto
  with j show ?case by (intro exI [of _ "k + j"]) auto
qed (auto intro: exI [of _ 0])

lemma each_reads_as:
  "grain_each grain us (Read d) = bindE (demand (parse_times p (length us) (rest d))) (\<lambda>(vs, bs). Inr (vs, Read (behind d bs)))"
proof (induction us arbitrary: d)
  case Nil
  then show ?case by (simp add: behind_def)
next
  case (Cons u us)
  show ?case
  proof (cases rule: parse_step [of d])
    case nothing
    then show ?thesis by simp
  next
    case (found v k)
    have "behind (advance k d) bs = behind d bs" if "parse_times p n (drop k (rest d)) = Some (vs, bs)" for n vs bs
      using times_consumes [OF that] found(3) by (auto simp: behind_def)
    then show ?thesis
      using found by (cases "parse_times p (length us) (drop k (rest d))") (auto simp: Cons.IH)
  qed
qed

lemma while_reads_as:
  "at_end d \<Longrightarrow> length (rest d) \<le> n \<Longrightarrow> read_while_left n grain u xs (Read d) =
   bindE (demand (parse_all p (rest d))) (\<lambda>vs. Inr (xs @ vs, Read (advance (length (rest d)) d)))"
proof (induction n arbitrary: d xs)
  case 0
  then show ?case
    by (subst read_while_left.simps, subst parse_all.simps) (simp add: bytesLeft_rest del: bytesLeft.simps)
next
  case (Suc n)
  note b = bytesLeft_rest [OF Suc.prems(1)]
  show ?case
  proof (cases "rest d = []")
    case True
    then show ?thesis
      by (subst read_while_left.simps, subst parse_all.simps) (simp add: b del: bytesLeft.simps)
  next
    case False
    show ?thesis
    proof (cases rule: parse_step [of d])
      case nothing
      with False show ?thesis
        by (subst read_while_left.simps, subst parse_all.simps) (simp add: b del: bytesLeft.simps)
    next
      case (found v k)
      have ae: "at_end (advance k d)" using Suc.prems(1) found(3) by (rule at_end_advance)
      have "read_while_left n grain u (xs @ [v]) (Read (advance k d))
          = bindE (demand (parse_all p (drop k (rest d)))) (\<lambda>vs. Inr ((xs @ [v]) @ vs,
              Read (advance (length (drop k (rest d))) (advance k d))))"
        using Suc.IH [OF ae] Suc.prems(2) found(2) False by (auto simp: Suc_le_eq)
      moreover have "bytesLeft (Read (advance k d)) \<ge> 0" using bytesLeft_rest [OF ae] by simp
      ultimately show ?thesis
        using False found
        by (subst read_while_left.simps, subst parse_all.simps)
           (simp add: b bindE_assoc del: bytesLeft.simps)
    qed
  qed
qed

lemma raw_reads_as:
  "at_end d \<Longrightarrow> grainRawArray grain u us (Read d) =
   bindE (demand (parse_all p (rest d))) (\<lambda>vs. Inr (vs, Read (advance (length (rest d)) d)))"
  using while_reads_as [of d "nat (bytesLeft (Read d))" u "[]"]
  by (simp add: grainRawArray_def bytesLeft_rest del: bytesLeft.simps)

end

interpretation pbyte: parsed grain_u8 parse_byte
proof unfold_locales
  show "grain_u8 u (Read d) = bindE (demand (parse_byte (rest d))) (\<lambda>(v, bs). Inr (v, Read (behind d bs)))" for u d
    by (cases "rest d") (simp_all add: grain_u8_def read_byte_rest behind_def)
  show "\<exists>k>0. k \<le> length bs \<and> cs = drop k bs" if "parse_byte bs = Some (v, cs)" for bs v cs
    using that by (cases bs) (auto intro: exI [of _ 1])
qed

interpretation pchar: parsed grain_char parse_char
proof unfold_locales
  show "grain_char u (Read d) = bindE (demand (parse_char (rest d))) (\<lambda>(v, bs). Inr (v, Read (behind d bs)))" for u d
    by (cases "rest d") (simp_all add: grain_char_def parse_char_def read_byte_rest behind_def)
  show "\<exists>k>0. k \<le> length bs \<and> cs = drop k bs" if "parse_char bs = Some (v, cs)" for bs v cs
    using that by (cases bs) (auto simp: parse_char_def intro: exI [of _ 1])
qed

interpretation pshort: parsed grain_u16 parse_short
proof unfold_locales
  show "grain_u16 u (Read d) = bindE (demand (parse_short (rest d))) (\<lambda>(v, bs). Inr (v, Read (behind d bs)))" for u d
    by (cases "rest d" rule: parse_short.cases)
       (simp_all add: grain_u16_def Let_def read_byte_rest behind_def push_bit_eq_mult mult.commute)
  show "\<exists>k>0. k \<le> length bs \<and> cs = drop k bs" if "parse_short bs = Some (v, cs)" for bs v cs
    using that by (cases bs rule: parse_short.cases) (auto intro: exI [of _ 2])
qed

text \<open>A container with its length in front is parsed when its elements are.\<close>

context parsed begin

lemma vector_parsed: "parsed (grain_vector grain z) (parse_vector p)"
proof
  fix us d
  show "grain_vector grain z us (Read d) = bindE (demand (parse_vector p (rest d))) (\<lambda>(v, bs). Inr (v, Read (behind d bs)))"
  proof (cases rule: pshort.parse_step [of d])
    case nothing
    then show ?thesis by (simp add: grain_vector_def grain_vector_as_def parse_vector_def)
  next
    case (found n k)
    have "behind (advance k d) bs = behind d bs" if "parse_times p (unat n) (drop k (rest d)) = Some (vs, bs)" for vs bs
      using times_consumes [OF that] found(3) by (auto simp: behind_def)
    with found show ?thesis
      by (cases "parse_times p (unat n) (drop k (rest d))")
         (auto simp: grain_vector_def grain_vector_as_def parse_vector_def each_reads_as Let_def)
  qed
next
  fix bs vs cs assume "parse_vector p bs = Some (vs, cs)"
  then obtain n bs1 where 1: "parse_short bs = Some (n, bs1)" "parse_times p (unat n) bs1 = Some (vs, cs)"
    by (auto simp: parse_vector_def bind_eq_Some_conv)
  from pshort.consumes [OF 1(1)] obtain j where j: "j > 0" "j \<le> length bs" "bs1 = drop j bs" by blast
  with times_consumes [OF 1(2)] obtain k where "k \<le> length bs - j" "cs = drop (k + j) bs" by auto
  with j show "\<exists>k>0. k \<le> length bs \<and> cs = drop k bs" by (intro exI [of _ "k + j"]) auto
qed

end

lemma parse_times_char: "parse_times parse_char n bs =
  (if n \<le> length bs then Some (map char_of_byte (take n bs), drop n bs) else None)"
proof (induction n arbitrary: bs)
  case (Suc n)
  then show ?case by (cases bs) (simp_all add: parse_char_def)
qed simp

lemma parse_vector_char: "parse_vector parse_char = parse_string"
  by (simp add: fun_eq_iff parse_vector_def parse_string_def parse_times_char)

interpretation pstring: parsed grain_string parse_string
  using pchar.vector_parsed [of "CHR 0x00"]
  by (simp add: grain_string_def [abs_def] parse_vector_char)

interpretation ptopic: parsed topic_cerealise parse_topic
proof unfold_locales
  fix u d
  show "topic_cerealise u (Read d) = bindE (demand (parse_topic (rest d))) (\<lambda>(v, bs). Inr (v, Read (behind d bs)))"
  proof (cases rule: pstring.parse_step [of d])
    case nothing
    then show ?thesis by (simp add: topic_cerealise_def parse_topic_def)
  next
    case (found s k)
    note s = this
    show ?thesis
    proof (cases rule: pbyte.parse_step [of "advance k d"])
      case nothing
      with s show ?thesis by (simp add: topic_cerealise_def parse_topic_def)
    next
      case (found q j)
      with s show ?thesis by (simp add: topic_cerealise_def parse_topic_def behind_def)
    qed
  qed
next
  fix bs v cs assume "parse_topic bs = Some (v, cs)"
  then obtain s bs1 q where 1: "parse_string bs = Some (s, bs1)" "parse_byte bs1 = Some (q, cs)"
    by (auto simp: parse_topic_def bind_eq_Some_conv)
  from pstring.consumes [OF 1(1)] obtain j where j: "j > 0" "j \<le> length bs" "bs1 = drop j bs" by blast
  with pbyte.consumes [OF 1(2)] obtain k where "k \<le> length bs - j" "cs = drop (k + j) bs" by auto
  with j show "\<exists>k>0. k \<le> length bs \<and> cs = drop k bs" by (intro exI [of _ "k + j"]) auto
qed

section \<open>Headers and messages\<close>

lemma low_digit: "Word.uint ((b :: ubyte) AND 127) = int (unat b mod 128)"
proof -
  have "b AND 127 = take_bit 7 b" by (simp add: take_bit_eq_mask mask_eq_exp_minus_1)
  then show ?thesis by (simp add: take_bit_eq_mod uint_mod zmod_int)
qed

lemma last_digit: "(b :: ubyte) AND 128 = 0 \<longleftrightarrow> unat b < 128"
proof -
  have "b AND 128 = 0 \<longleftrightarrow> \<not> bit b 7"
  proof
    assume "b AND 128 = 0"
    moreover have "bit (b AND 128) 7 = bit b 7" by (simp add: bit_simps bit_128)
    ultimately show "\<not> bit b 7" by simp
  next
    assume "\<not> bit b 7"
    then show "b AND 128 = 0" by (intro bit_word_eqI) (auto simp: bit_simps bit_128)
  qed
  also have "\<not> bit b 7 \<longleftrightarrow> \<not> bit (unat b) 7" by (simp add: bit_unsigned_iff)
  also have "\<dots> \<longleftrightarrow> even (unat b div 128)" by (simp add: bit_iff_odd)
  also have "\<dots> \<longleftrightarrow> unat b < 128"
  proof -
    have "unat b div 128 < 2" using unat_ubyte_less [of b] by (intro less_mult_imp_div_less) simp
    then have "unat b div 128 = 0 \<or> unat b div 128 = 1" by linarith
    then show ?thesis by (auto simp: div_eq_0_iff)
  qed
  finally show ?thesis .
qed

lemma digits_consume: "parse_digits n bs = Some (v, cs) \<Longrightarrow> \<exists>k>0. k \<le> length bs \<and> cs = drop k bs"
proof (induction n bs arbitrary: v cs rule: parse_digits.induct)
  case (1 n b bs)
  show ?case
  proof (cases "unat b < 128")
    case True
    with "1.prems" show ?thesis by (intro exI [of _ 1]) auto
  next
    case False
    then obtain w where "parse_digits n bs = Some (w, cs)" using "1.prems" by (auto simp: bind_eq_Some_conv)
    with "1.IH" [OF False] obtain k where "k \<le> length bs" "cs = drop k bs" by blast
    then show ?thesis by (intro exI [of _ "Suc k"]) auto
  qed
qed simp_all

lemma remaining_loop_parse:
  "i + j = 4 \<Longrightarrow> remaining_loop (128 ^ i) v d = bindE (demand (parse_digits j (rest d)))
     (\<lambda>(n, bs). Inr (v + word_of_nat (128 ^ i * n), behind d bs))"
proof (induction j arbitrary: i v d)
  case 0
  then show ?case
    by (subst remaining_loop.simps) (simp add: read_byte_rest int_max_def Let_def split: list.split)
next
  case (Suc j)
  show ?case
  proof (cases "rest d")
    case Nil
    then show ?thesis by (subst remaining_loop.simps) (simp add: read_byte_rest)
  next
    case (Cons b bs)
    have p: "(128 :: int) ^ i \<le> 128 ^ 3" using Suc.prems by (intro power_increasing) auto
    have q: "int (unat b mod 128) * 128 ^ i \<le> 127 * 128 ^ 3"
      using p by (intro mult_mono) (auto simp: zmod_int)
    have part: "\<not> int_max < int (unat b mod 128) * 128 ^ i" "\<not> int_max < 128 ^ i * 128"
      using p q by (simp_all add: int_max_def)
    have step: "remaining_loop (128 ^ i) v d = (if unat b < 128
        then Inr (v + word_of_nat (unat b mod 128 * 128 ^ i), advance 1 d)
        else remaining_loop (128 ^ Suc i) (v + word_of_nat (unat b mod 128 * 128 ^ i)) (advance 1 d))"
      using Cons part
      by (subst remaining_loop.simps) (simp add: read_byte_rest low_digit last_digit Let_def mult.commute)
    show ?thesis
    proof (cases "unat b < 128")
      case True
      with Cons step show ?thesis by (simp add: behind_def mult.commute)
    next
      case False
      have m: "unat b mod 128 = unat b - 128"
        using False unat_ubyte_less [of b] by (simp add: mod_if)
      have IH: "remaining_loop (128 ^ Suc i) w (advance 1 d) = bindE (demand (parse_digits j bs))
          (\<lambda>(n, cs). Inr (w + word_of_nat (128 ^ Suc i * n), behind (advance 1 d) cs))" for w
        using Suc.IH [of "Suc i" w "advance 1 d"] Suc.prems Cons by simp
      have "behind (advance 1 d) cs = behind d cs" if "parse_digits j bs = Some (n, cs)" for n cs
        using digits_consume [OF that] Cons by (auto simp: behind_def)
      then show ?thesis
        using False Cons step IH m
        by (cases "parse_digits j bs") (auto simp: algebra_simps)
    qed
  qed
qed

lemma header_reads_as:
  assumes "d_bitIndex d = 0"
  shows "header_cerealise u (Read d) = bindE (demand (parse_header (rest d))) (\<lambda>(h, bs). Inr (h,
    Read ((behind d bs)\<lparr>d_currentByte := hd (rest d), d_bitIndex := 8\<rparr>)))"
proof (cases "rest d")
  case Nil
  with assms show ?thesis
    by (simp add: header_cerealise_def grainBits_type_def readBits_def read_byte_rest)
next
  case (Cons b bs)
  have "behind (advance 1 d) cs = behind d cs" if "parse_digits 4 bs = Some (n, cs)" for n cs
    using digits_consume [OF that] Cons by (auto simp: behind_def)
  then show ?thesis
    using remaining_loop_parse [of 0 4 0 "(advance 1 d)\<lparr>d_currentByte := b, d_bitIndex := 8\<rparr>"] Cons
    by (cases "parse_digits 4 bs") (auto simp: header_read [OF disjI1 [OF assms] Cons] getRemainingSize_def behind_def)
qed

lemma header_consumes: "parse_header bs = Some (h, cs) \<Longrightarrow> \<exists>k\<le>length bs. cs = drop k bs"
proof (cases bs)
  case (Cons b bs')
  assume "parse_header bs = Some (h, cs)"
  with Cons obtain n where "parse_digits 4 bs' = Some (n, cs)" by (auto simp: bind_eq_Some_conv)
  from digits_consume [OF this] obtain k where "k \<le> length bs'" "cs = drop k bs'" by blast
  with Cons show ?thesis by (intro exI [of _ "Suc k"]) simp
qed simp

text \<open>A message with an id and elements up to its end, which \<open>k\<close> puts together.\<close>

context parsed begin

lemma body_reads_as:
  "bindE (bindE (header_cerealise u (Read (decerealiser_of bs))) (\<lambda>(h, c). bindE (grain_u16 v c) (\<lambda>(mid, c).
     bindE (grainRawArray grain z us c) (\<lambda>(ts, c). Inr (k h mid ts, c))))) (\<lambda>(m, _). Inr m)
   = demand (Option.bind (parse_header bs) (\<lambda>(h, bs). Option.bind (parse_short bs) (\<lambda>(mid, bs).
       Option.bind (parse_all p bs) (\<lambda>ts. Some (k h mid ts)))))"
proof (cases "parse_header bs")
  case None
  then show ?thesis by (simp add: header_reads_as)
next
  case (Some r)
  obtain h cs where h: "parse_header bs = Some (h, cs)" using Some by (cases r) simp
  from header_consumes [OF h] obtain j where j: "j \<le> length bs" "cs = drop j bs" by blast
  define d where "d = (advance j (decerealiser_of bs))\<lparr>d_currentByte := hd bs, d_bitIndex := 8\<rparr>"
  have hd: "header_cerealise u (Read (decerealiser_of bs)) = Inr (h, Read d)"
    using h j by (simp add: header_reads_as behind_def d_def)
  have d: "rest d = cs" "at_end d" using j by (simp_all add: d_def at_end_advance)
  show ?thesis
  proof (cases rule: pshort.parse_step [of d])
    case nothing
    then show ?thesis by (simp add: hd h d(1))
  next
    case (found mid i)
    have "at_end (advance i d)" using d(2) found(3) by (rule at_end_advance)
    then show ?thesis
      using found by (cases "parse_all p (drop i cs)") (simp_all add: hd h d(1) raw_reads_as)
  qed
qed

end

lemma subscribe_reads_as: "decode subscribe_cerealise u bs = demand (parse_subscribe bs)"
  using ptopic.body_reads_as [of "sub_header u" bs "sub_msgId u" new_topic "sub_topics u" "\<lambda>h mid ts. \<lparr>sub_header = h, sub_msgId = mid, sub_topics = ts\<rparr>"]
  by (simp only: decode_def subscribe_cerealise_def parse_subscribe_def)

lemma unsubscribe_reads_as: "decode unsubscribe_cerealise u bs = demand (parse_unsubscribe bs)"
  using pstring.body_reads_as [of "unsub_header u" bs "unsub_msgId u" "[]" "unsub_topics u" "\<lambda>h mid ts. \<lparr>unsub_header = h, unsub_msgId = mid, unsub_topics = ts\<rparr>"]
  by (simp only: decode_def unsubscribe_cerealise_def parse_unsubscribe_def)

lemma header_decoded: "decode header_cerealise u bs = bindE (demand (parse_header bs)) (\<lambda>(h, _). Inr h)"
  by (cases "parse_header bs") (auto simp: decode_def header_reads_as)

text \<open>The server reads the header twice, and finds the same message.\<close>

lemma create_subscribe:
  "span_ok sp \<Longrightarrow> create_with_header new_subscribe subscribe_cerealise sp = demand (parse_subscribe (view sp))"
  by (cases "parse_header (view sp)")
     (auto simp: create_decode header_decoded subscribe_reads_as parse_subscribe_def)

lemma create_unsubscribe:
  "span_ok sp \<Longrightarrow> create_with_header (new_unsubscribe mem) unsubscribe_cerealise sp = demand (parse_unsubscribe (view sp))"
  by (cases "parse_header (view sp)")
     (auto simp: create_decode header_decoded unsubscribe_reads_as parse_unsubscribe_def)

section \<open>The specification on all bytes\<close>

text \<open>
  The topic of a PUBLISH is where the code looks for it: at a fixed place, with a length that may
  reach beyond the message \<open>bs\<close> into the memory behind it, \<open>memory\<close>, which begins with \<open>bs\<close>.
\<close>

definition topic_of :: "ubyte list \<Rightarrow> ubyte list \<Rightarrow> string result" where
  "topic_of bs memory = (if length bs < 4 then Inr [] else if length bs = 4 then Inl FailFast
     else let n = topic_length bs in
       if 4 + n \<le> length memory \<or> n = 0 then Inr (map char_of_byte (take n (drop 4 memory))) else Inl Undefined)"

definition serve_any :: "(string \<Rightarrow> string list) \<Rightarrow> 'c \<Rightarrow> ubyte list \<Rightarrow> ubyte list \<Rightarrow> ('c \<times> string) multiset
    \<Rightarrow> (('c \<times> string) multiset \<times> ('c \<times> ubyte list option) multiset) result" where
  "serve_any split c bs memory ss = (case bs of [] \<Rightarrow> Inl FailFast | b # _ \<Rightarrow>
     (case type_of_code (ucast (drop_bit 4 b)) of
        CONNECT \<Rightarrow> Inr (ss, {#(c, Some [0x20, 2, 0, 0])#})
      | PINGREQ \<Rightarrow> Inr (serve_spec split c Pingreq ss)
      | PUBLISH \<Rightarrow> bindE (topic_of bs memory) (\<lambda>t.
          Inr (ss, image_mset (\<lambda>c. (c, Some bs)) (deliveries split ss t)))
      | SUBSCRIBE \<Rightarrow> bindE (demand (parse_subscribe bs)) (\<lambda>m. Inr (serve_spec split c (Subscribe m) ss))
      | UNSUBSCRIBE \<Rightarrow> bindE (demand (parse_unsubscribe bs)) (\<lambda>m. Inr (serve_spec split c (Unsubscribe m) ss))
      | DISCONNECT \<Rightarrow> Inr (serve_spec split c Disc ss)
      | _ \<Rightarrow> Inr (ss, {#})))"

lemma publish_topic_of:
  assumes "span_ok sp"
  shows "bindE (getPublishTopic sp) to_string = topic_of (view sp) (reach sp)"
proof -
  consider "length (view sp) < 4" | "length (view sp) = 4" | "4 < length (view sp)" by linarith
  then show ?thesis
  proof cases
    case 1
    with getPublishTopic_short [OF assms 1] show ?thesis by (simp add: topic_of_def to_string_def default_span_def del: length_view)
  next
    case 2
    with getPublishTopic_four [OF assms 2] show ?thesis by (simp add: topic_of_def del: length_view)
  next
    case 3
    with publish_topic_string [OF assms 3] show ?thesis by (simp add: topic_of_def Let_def del: length_view)
  qed
qed

lemma newMessage_any:
  assumes "server_ok split s" "span_ok sp"
  shows "case newMessage split mem c sp s of
      Inl f \<Rightarrow> serve_any split c (view sp) (reach sp) (subscriptions (srv_broker s)) = Inl f
    | Inr (s', acts) \<Rightarrow> serve_any split c (view sp) (reach sp) (subscriptions (srv_broker s))
        = Inr (subscriptions (srv_broker s'), image_mset seen (mset acts))"
proof (cases "view sp")
  case Nil
  with assms(2) show ?thesis by (simp add: newMessage_def getMessageType_view serve_any_def)
next
  case (Cons b bs)
  have ok: "broker_ok split (srv_broker s)" using assms(1) by (simp add: server_ok_def)
  have ty: "getMessageType sp = Inr (type_of_code (ucast (drop_bit 4 b)))"
    using assms(2) Cons by (simp add: getMessageType_view)
  show ?thesis
  proof (cases "type_of_code (ucast (drop_bit 4 b))")
    case CONNECT
    then show ?thesis by (simp add: newMessage_def ty serve_any_def Cons connack_ok_def)
  next
    case PINGREQ
    then show ?thesis by (simp add: newMessage_def ty serve_any_def Cons ping_resp_def)
  next
    case PUBLISH
    have spec: "serve_any split c (view sp) (reach sp) ss = bindE (bindE (getPublishTopic sp) to_string) (\<lambda>t.
          Inr (ss, image_mset (\<lambda>c. (c, Some (view sp))) (deliveries split ss t)))" for ss
      unfolding publish_topic_of [OF assms(2)] using PUBLISH by (simp add: serve_any_def Cons)
    have new: "newMessage split mem c sp s = handle_publish split sp s" by (simp add: newMessage_def ty PUBLISH)
    show ?thesis
    proof (cases "bindE (getPublishTopic sp) to_string")
      case (Inl f)
      then show ?thesis
        unfolding spec new handle_publish_def publish_span_def
        by (auto simp: bindE_eq_Inl bindE_assoc [symmetric])
    next
      case (Inr t)
      with handle_publish_topic [OF Inr, of split s] publish_ok(2,3) [OF ok, of t] show ?thesis
        unfolding spec new
        by (simp add: split_def Let_def multiset.map_comp comp_def flip: publish_ok(3) [OF ok])
    qed
  next
    case SUBSCRIBE
    with assms(2) show ?thesis
      by (cases "parse_subscribe (b # bs)")
         (simp_all add: newMessage_def ty serve_any_def Cons handle_subscribe_def create_subscribe Let_def
           be16_def subscribe_ok [OF ok])
  next
    case UNSUBSCRIBE
    with assms(2) show ?thesis
      by (cases "parse_unsubscribe (b # bs)")
         (simp_all add: newMessage_def ty serve_any_def Cons handle_unsubscribe_def create_unsubscribe Let_def
           be16_def unsubscribe_ok [OF ok])
  next
    case DISCONNECT
    then show ?thesis
      by (simp add: newMessage_def ty serve_any_def Cons unsubscribe_all_def unsubscribe_ok [OF ok] dropped_def)
  qed (use assms(2) in \<open>simp_all add: newMessage_def ty serve_any_def Cons\<close>)
qed

section \<open>Sequences of messages\<close>

lemma serve_bytes_any:
  assumes "server_ok split s"
  shows "case serve_bytes split mem c bs s of
      Inl f \<Rightarrow> serve_any split c bs bs (subscriptions (srv_broker s)) = Inl f
    | Inr (s', out) \<Rightarrow> server_ok split s' \<and>
        serve_any split c bs bs (subscriptions (srv_broker s)) = Inr (subscriptions (srv_broker s'), mset out)"
  using newMessage_any [OF assms, of "span_on bs" c mem] newMessage_ok [OF assms, of mem c "span_on bs"]
  by (cases "newMessage split mem c (span_on bs) s") (auto simp: serve_bytes_def observe_def)

text \<open>
  The messages of any connections, each of them in memory of its own. A fault ends the run.
\<close>

fun run_any :: "(string \<Rightarrow> string list) \<Rightarrow> ('c \<times> ubyte list) list \<Rightarrow> ('c \<times> string) multiset
    \<Rightarrow> (('c \<times> string) multiset \<times> ('c \<times> ubyte list option) multiset list) result" where
  "run_any split [] ss = Inr (ss, [])"
| "run_any split ((c, bs) # ms) ss = bindE (serve_any split c bs bs ss) (\<lambda>(ss, out).
     bindE (run_any split ms ss) (\<lambda>(ss, outs). Inr (ss, out # outs)))"

lemma run_any_append:
  "run_any split (xs @ ys) ss = bindE (run_any split xs ss) (\<lambda>(ss, outs).
     bindE (run_any split ys ss) (\<lambda>(ss, outs'). Inr (ss, outs @ outs')))"
proof (induction xs arbitrary: ss)
  case Nil
  show ?case by (cases "run_any split ys ss") auto
next
  case (Cons x xs)
  show ?case by (cases x) (simp add: Cons.IH bindE_pair_assoc)
qed

lemma serve_all_any:
  "server_ok split s \<Longrightarrow> case run_any split (map (Pair c) ms) (subscriptions (srv_broker s)) of
      Inl f \<Rightarrow> serve_all (serve_bytes split mem c) ms s = Inl f
    | Inr (ss, mouts) \<Rightarrow> \<exists>s' outs. serve_all (serve_bytes split mem c) ms s = Inr (s', concat outs)
        \<and> ss = subscriptions (srv_broker s') \<and> mouts = map mset outs"
proof (induction ms arbitrary: s)
  case Nil
  then show ?case by (auto intro: exI [of _ "[]"])
next
  case (Cons m ms)
  show ?case
  proof (cases "serve_bytes split mem c m s")
    case (Inl f)
    with serve_bytes_any [OF Cons.prems, of c m mem] show ?thesis by simp
  next
    case (Inr r)
    obtain s1 out where r: "serve_bytes split mem c m s = Inr (s1, out)" using Inr by (cases r) simp
    with serve_bytes_any [OF Cons.prems, of c m mem] have 1: "server_ok split s1"
      "serve_any split c m m (subscriptions (srv_broker s)) = Inr (subscriptions (srv_broker s1), mset out)" by simp_all
    show ?thesis
    proof (cases "run_any split (map (Pair c) ms) (subscriptions (srv_broker s1))")
      case (Inl f)
      with Cons.IH [OF 1(1)] r 1(2) show ?thesis by simp
    next
      case (Inr q)
      with Cons.IH [OF 1(1)] obtain s2 outs where
        "serve_all (serve_bytes split mem c) ms s1 = Inr (s2, concat outs)" "q = (subscriptions (srv_broker s2), map mset outs)"
        by (cases q) auto
      with r 1(2) Inr show ?thesis by (auto intro!: exI [of _ "out # outs"])
    qed
  qed
qed

text \<open>
  The messages that meet no fault, when the topic of a PUBLISH lies inside its message: whatever
  the subscriptions are.
\<close>

definition harmless :: "ubyte list \<Rightarrow> bool" where
  "harmless bs = (case bs of [] \<Rightarrow> False | b # _ \<Rightarrow>
     (case type_of_code (ucast (drop_bit 4 b)) of
        PUBLISH \<Rightarrow> length bs \<noteq> 4
      | SUBSCRIBE \<Rightarrow> parse_subscribe bs \<noteq> None
      | UNSUBSCRIBE \<Rightarrow> parse_unsubscribe bs \<noteq> None
      | _ \<Rightarrow> True))"

lemma topic_of_contained:
  "self_contained (b # bs) \<Longrightarrow> type_of_code (ucast (drop_bit 4 b)) = PUBLISH \<Longrightarrow>
   (\<exists>t. topic_of (b # bs) (b # bs) = Inr t) \<longleftrightarrow> length (b # bs) \<noteq> 4"
  by (auto simp: topic_of_def self_contained_def type_of_code_publish Let_def)

lemma serve_any_harmless:
  assumes "self_contained bs"
  shows "(\<exists>r. serve_any split c bs bs ss = Inr r) \<longleftrightarrow> harmless bs"
proof (cases bs)
  case (Cons b cs)
  show ?thesis
  proof (cases "type_of_code (ucast (drop_bit 4 b))")
    case PUBLISH
    with topic_of_contained [of b cs] assms Cons show ?thesis
      by (cases "topic_of (b # cs) (b # cs)") (auto simp: serve_any_def harmless_def)
  next
    case SUBSCRIBE
    with Cons show ?thesis by (cases "parse_subscribe bs") (auto simp: serve_any_def harmless_def)
  next
    case UNSUBSCRIBE
    with Cons show ?thesis by (cases "parse_unsubscribe bs") (auto simp: serve_any_def harmless_def)
  qed (simp_all add: Cons serve_any_def harmless_def)
qed (simp add: serve_any_def harmless_def)

lemma run_any_harmless:
  "list_all (\<lambda>q. self_contained (snd q)) ms \<Longrightarrow>
   (\<exists>r. run_any split ms ss = Inr r) \<longleftrightarrow> list_all (\<lambda>q. harmless (snd q)) ms"
proof (induction ms arbitrary: ss)
  case (Cons m ms)
  obtain c bs where m: "m = (c, bs)" by (cases m)
  show ?case
  proof (cases "serve_any split c bs bs ss")
    case (Inl f)
    with serve_any_harmless [of bs split c ss] Cons.prems m show ?thesis by simp
  next
    case (Inr r)
    obtain ss1 out where r: "r = (ss1, out)" by (cases r)
    have "harmless bs" using serve_any_harmless [of bs split c ss] Inr Cons.prems m by simp
    with Cons.IH [of ss1] Cons.prems Inr r m show ?thesis
      by (cases "run_any split ms ss1") auto
  qed
qed simp

text \<open>On requests it is the specification of requests.\<close>

definition on_wire :: "'c \<times> request \<Rightarrow> 'c \<times> ubyte list" where
  "on_wire = (\<lambda>(c, r). (c, wire r))"

lemma run_any_requests:
  "server_ok split s \<Longrightarrow> list_all (\<lambda>q. request_ok (snd q)) qs \<Longrightarrow>
   run_any split (map on_wire qs) (subscriptions (srv_broker s)) = Inr (run_spec split qs (subscriptions (srv_broker s)))"
proof (induction qs arbitrary: s)
  case (Cons q qs)
  obtain c r where q: "q = (c, r)" by (cases q)
  with Cons.prems obtain s1 out where 1: "serve_bytes split 0 c (wire r) s = Inr (s1, out)" "server_ok split s1"
    "serve_spec split c r (subscriptions (srv_broker s)) = (subscriptions (srv_broker s1), mset out)"
    using serve_bytes_refines [of split s r 0 c] by auto
  then have "serve_any split c (wire r) (wire r) (subscriptions (srv_broker s))
      = Inr (serve_spec split c r (subscriptions (srv_broker s)))"
    using serve_bytes_any [OF Cons.prems(1), of c "wire r" 0] by simp
  with Cons.IH [OF 1(2)] Cons.prems(2) 1(3) show ?case
    by (simp add: q on_wire_def split_def Let_def del: wire.simps)
qed simp

section \<open>Properties\<close>

text \<open>
  C4. On a span of any bytes the server does what the specification says: it meets the fault of the
  specification, or it comes to the subscriptions of the specification and makes its calls. The bytes behind
  the message, up to the end of the buffer, matter to the topic of a PUBLISH only.
\<close>

theorem server_on_any_bytes:
  assumes "server_ok split s" "span_ok sp"
  shows "case newMessage split mem c sp s of
      Inl f \<Rightarrow> serve_any split c (view sp) (reach sp) (subscriptions (srv_broker s)) = Inl f
    | Inr (s', acts) \<Rightarrow> serve_any split c (view sp) (reach sp) (subscriptions (srv_broker s))
        = Inr (subscriptions (srv_broker s'), image_mset seen (mset acts))"
  by (rule newMessage_any [OF assms])

lemma a_cut_subscribe: "parse_subscribe [0x82, 6, 0, 1, 0, 3, 97, 47] = None"
  by (simp add: parse_subscribe_def parse_digits_numeral parse_all.simps parse_topic_def parse_string_def)

theorem server_on_any_bytes_witness:
  "newMessage split_slash 0 (5 :: nat) (span_on [0x82, 6, 0, 1, 0, 3, 97, 47]) (new_server True) = Inl Undefined"
  using server_on_any_bytes [OF server_ok_new [of split_slash True], where sp = "span_on [0x82, 6, 0, 1, 0, 3, 97, 47]" and mem = 0 and c = "5 :: nat"]
  by (simp add: serve_any_def type_of_code_def a_cut_subscribe split: sum.splits)

text \<open>
  C18. On any bytes the decoder of a SUBSCRIBE is a parser: header, message id and topics up to the
  end of the bytes give the message, and where the bytes end too early, or a fifth digit of
  the remaining length would be read, its behaviour is undefined. No other fault is possible.
\<close>

theorem subscribe_decoded:
  "decode subscribe_cerealise u bs = (case parse_subscribe bs of None \<Rightarrow> Inl Undefined | Some m \<Rightarrow> Inr m)"
  by (simp add: subscribe_reads_as demand_def)

end
