(* ===== verification/Network.thy ===== *)
theory Network
  imports Parser
begin

text \<open>
  The connections of \<^verbatim>\<open>src/src/boost/\<close>: \<^verbatim>\<open>Connection\<close>, \<^verbatim>\<open>ConnectionManager\<close> and
  \<^verbatim>\<open>MqttTcpServer\<close>. A connection is an object on the heap that shared pointers keep alive:
  the set of the manager and the handler of every operation that is under way hold one. The
  server and the broker hold plain references and pointers.

  Boost.Asio is not part of the repository. What happens on the network is an event; which events
  can happen is \<open>enabled\<close>: a handler is called for an operation under way, a read returns at
  most the bytes asked for (also when the socket was closed after they had arrived), and it is
  aborted only when the socket was closed. A handler runs to its end before the next one:
  \<^verbatim>\<open>run\<close> is called by one thread. The writes of a connection end in the order of their calls.
  The handler of a write ignores the error code it is given: \<open>WriteDone\<close> is the end of a write whether its bytes
  arrived, or it failed, or was aborted with the socket.
\<close>

section \<open>Connections\<close>

record connection =
  con_connected :: bool
  con_open :: bool
  con_stream :: stream
  con_reading :: bool
  con_writes :: "ubyte span list"

text \<open>
  \<open>net_conns\<close> maps the address of every connection object that exists to its state,
  \<open>net_managed\<close> is the set of the manager.
\<close>

record 'c network =
  net_server :: "'c server"
  net_managed :: "'c list"
  net_conns :: "'c \<rightharpoonup> connection"
  net_accepting :: bool

text \<open>A connection that no shared pointer holds is destroyed.\<close>

definition held :: "'c network \<Rightarrow> 'c \<Rightarrow> connection \<Rightarrow> bool" where
  "held n c k \<longleftrightarrow> c \<in> set (net_managed n) \<or> con_reading k \<or> con_writes k \<noteq> []"

definition reap :: "'c network \<Rightarrow> 'c network" where
  "reap n = n\<lparr>net_conns := (\<lambda>c. case net_conns n c of None \<Rightarrow> None
     | Some k \<Rightarrow> if held n c k then Some k else None)\<rparr>"

text \<open>Access to an object that may be destroyed.\<close>

definition on_connection :: "'c \<Rightarrow> (connection \<Rightarrow> connection) \<Rightarrow> 'c network \<Rightarrow> 'c network result" where
  "on_connection c f n = (case net_conns n c of None \<Rightarrow> Inl Undefined
     | Some k \<Rightarrow> Inr (n\<lparr>net_conns := (net_conns n)(c \<mapsto> f k)\<rparr>))"

section \<open>The members of Connection\<close>

definition con_new :: "int \<Rightarrow> connection result" where
  "con_new numStreamBytes = bindE (new_stream numStreamBytes) (\<lambda>st.
     Inr \<lparr>con_connected = True, con_open = True, con_stream = st, con_reading = False, con_writes = []\<rparr>)"

definition con_doRead :: "connection \<Rightarrow> connection" where
  "con_doRead k = (if \<not> con_connected k then k else k\<lparr>con_reading := True\<rparr>)"

definition con_start :: "connection \<Rightarrow> connection" where
  [simp]: "con_start = con_doRead"

definition con_stop :: "connection \<Rightarrow> connection" where
  "con_stop k = k\<lparr>con_open := False\<rparr>"

definition con_newMessage :: "ubyte span \<Rightarrow> connection \<Rightarrow> connection" where
  "con_newMessage bytes k = (if \<not> con_connected k then k else k\<lparr>con_writes := con_writes k @ [bytes]\<rparr>)"

definition con_disconnect :: "connection \<Rightarrow> connection" where
  "con_disconnect k = con_stop (k\<lparr>con_connected := False\<rparr>)"

text \<open>The calls the server makes on connections.\<close>

fun perform :: "'c action \<Rightarrow> 'c network \<Rightarrow> 'c network result" where
  "perform (NewMessage c sp) n = on_connection c (con_newMessage sp) n"
| "perform (Disconnect c) n = on_connection c con_disconnect n"

fun perform_all :: "'c action list \<Rightarrow> 'c network \<Rightarrow> 'c network result" where
  "perform_all [] n = Inr n"
| "perform_all (a # as) n = bindE (perform a n) (perform_all as)"

section \<open>The manager\<close>

definition manager_start :: "'c \<Rightarrow> 'c network \<Rightarrow> 'c network result" where
  "manager_start c n = on_connection c con_start (n\<lparr>net_managed := List.insert c (net_managed n)\<rparr>)"

definition manager_stop :: "'c \<Rightarrow> 'c network \<Rightarrow> 'c network result" where
  "manager_stop c n = on_connection c con_stop (n\<lparr>net_managed := removeAll c (net_managed n)\<rparr>)"

fun stop_each :: "'c list \<Rightarrow> 'c network \<Rightarrow> 'c network result" where
  "stop_each [] n = Inr n"
| "stop_each (c # cs) n = bindE (on_connection c con_stop n) (stop_each cs)"

definition manager_stopAll :: "'c network \<Rightarrow> 'c network result" where
  "manager_stopAll n = bindE (stop_each (net_managed n) n) (\<lambda>n. Inr (n\<lparr>net_managed := []\<rparr>))"

section \<open>Events\<close>

datatype 'c event = Accept 'c | ReadDone 'c "ubyte list" | ReadFailed 'c | ReadAborted 'c
  | WriteDone 'c | StopSignal

definition stream_bytes :: int where
  "stream_bytes = 128 * 1024"

definition new_network :: "bool \<Rightarrow> 'c network" where
  "new_network uc = \<lparr>net_server = new_server uc, net_managed = [], net_conns = Map.empty, net_accepting = True\<rparr>"

definition on_accept :: "'c \<Rightarrow> 'c network \<Rightarrow> 'c network result" where
  "on_accept c n = (if \<not> net_accepting n then Inr n
     else bindE (con_new stream_bytes) (\<lambda>k.
       manager_start c (n\<lparr>net_conns := (net_conns n)(c \<mapsto> k)\<rparr>)))"

text \<open>
  The handler of \<^verbatim>\<open>async_read_some\<close>. The calls of the server are made while the messages are
  handled; they do not touch the stream, so they are performed on the network after it.
\<close>

definition on_read :: "(string \<Rightarrow> string list) \<Rightarrow> ushort \<Rightarrow> 'c \<Rightarrow> ubyte list \<Rightarrow> 'c network \<Rightarrow> 'c network result" where
  "on_read split mem c chunk n = (case net_conns n c of None \<Rightarrow> Inl Undefined
     | Some k \<Rightarrow>
         bindE (handleMessages split mem (int (length chunk)) c (store_chunk chunk (con_stream k)) (net_server n))
           (\<lambda>(st, srv, acts).
         bindE (perform_all acts (n\<lparr>net_server := srv,
             net_conns := (net_conns n)(c \<mapsto> k\<lparr>con_stream := st, con_reading := False\<rparr>)\<rparr>))
           (on_connection c con_doRead)))"

definition read_over :: "connection \<Rightarrow> connection" where
  "read_over k = k\<lparr>con_reading := False\<rparr>"

definition write_over :: "connection \<Rightarrow> connection" where
  "write_over k = k\<lparr>con_writes := tl (con_writes k)\<rparr>"

fun handle_event :: "(string \<Rightarrow> string list) \<Rightarrow> ushort \<Rightarrow> 'c event \<Rightarrow> 'c network \<Rightarrow> 'c network result" where
  "handle_event split mem (Accept c) n = on_accept c n"
| "handle_event split mem (ReadDone c chunk) n = on_read split mem c chunk n"
| "handle_event split mem (ReadFailed c) n = bindE (on_connection c read_over n) (manager_stop c)"
| "handle_event split mem (ReadAborted c) n = on_connection c read_over n"
| "handle_event split mem (WriteDone c) n = on_connection c write_over n"
| "handle_event split mem StopSignal n = manager_stopAll (n\<lparr>net_accepting := False\<rparr>)"

text \<open>After a handler its shared pointer goes away.\<close>

definition net_exec :: "(string \<Rightarrow> string list) \<Rightarrow> ushort \<Rightarrow> 'c event \<Rightarrow> 'c network \<Rightarrow> 'c network result" where
  "net_exec split mem e n = bindE (handle_event split mem e n) (\<lambda>n. Inr (reap n))"

fun enabled :: "'c event \<Rightarrow> 'c network \<Rightarrow> bool" where
  "enabled (Accept c) n = (net_conns n c = None)"
| "enabled (ReadDone c chunk) n = (case net_conns n c of None \<Rightarrow> False
     | Some k \<Rightarrow> con_reading k \<and> int (length chunk) \<le> readableDataSize (con_stream k))"
| "enabled (ReadFailed c) n = (case net_conns n c of None \<Rightarrow> False | Some k \<Rightarrow> con_reading k)"
| "enabled (ReadAborted c) n = (case net_conns n c of None \<Rightarrow> False | Some k \<Rightarrow> con_reading k \<and> \<not> con_open k)"
| "enabled (WriteDone c) n = (case net_conns n c of None \<Rightarrow> False | Some k \<Rightarrow> con_writes k \<noteq> [])"
| "enabled StopSignal n = net_accepting n"

inductive net_steps :: "(string \<Rightarrow> string list) \<Rightarrow> ushort \<Rightarrow> 'c network \<Rightarrow> 'c event list \<Rightarrow> 'c network result \<Rightarrow> bool"
  for split mem where
  none: "net_steps split mem n [] (Inr n)"
| step: "enabled e n \<Longrightarrow> net_exec split mem e n = Inr n1 \<Longrightarrow> net_steps split mem n1 es r \<Longrightarrow>
    net_steps split mem n (e # es) r"
| fault: "enabled e n \<Longrightarrow> net_exec split mem e n = Inl f \<Longrightarrow> net_steps split mem n [e] (Inl f)"

inductive_cases net_steps_ConsE: "net_steps split mem n (e # es) r"
inductive_cases net_steps_NilE: "net_steps split mem n [] r"

section \<open>Invariants\<close>

definition net_ok :: "(string \<Rightarrow> string list) \<Rightarrow> 'c network \<Rightarrow> bool" where
  "net_ok split n \<longleftrightarrow> server_ok split (net_server n)
     \<and> (\<forall>c k. net_conns n c = Some k \<longrightarrow> stream_ok (con_stream k))
     \<and> set (net_managed n) \<subseteq> dom (net_conns n)"

text \<open>Every subscriber of the broker is a connection the manager holds.\<close>

definition subscribers :: "'c network \<Rightarrow> 'c set" where
  "subscribers n = fst ` set_mset (subscriptions (srv_broker (net_server n)))"

definition subscribers_managed :: "'c network \<Rightarrow> bool" where
  "subscribers_managed n \<longleftrightarrow> subscribers n \<subseteq> set (net_managed n)"

lemma subscribers_held_by: "c \<in> subscribers n \<longleftrightarrow> held_by c (net_server n) \<noteq> {#}"
  by (force simp: subscribers_def held_by_def filter_mset_empty)

lemma on_connection_Inr [returned]:
  "on_connection c f n = Inr n' \<longleftrightarrow> (\<exists>k. net_conns n c = Some k \<and>
     n' = n\<lparr>net_conns := (net_conns n)(c \<mapsto> f k)\<rparr>)"
  by (auto simp: on_connection_def split: option.splits)

lemma on_connection_Inl: "on_connection c f n = Inl e \<longleftrightarrow> net_conns n c = None \<and> e = Undefined"
  by (auto simp: on_connection_def split: option.splits)

text \<open>What the members of a connection leave alone.\<close>

lemma con_keep [simp]:
  "con_stream (con_doRead k) = con_stream k" "con_stream (con_stop k) = con_stream k"
  "con_stream (con_newMessage sp k) = con_stream k" "con_stream (con_disconnect k) = con_stream k"
  "con_stream (read_over k) = con_stream k" "con_stream (write_over k) = con_stream k"
  by (simp_all add: con_doRead_def con_stop_def con_newMessage_def con_disconnect_def read_over_def write_over_def)

definition same_but_flags :: "'c network \<Rightarrow> 'c network \<Rightarrow> bool" where
  "same_but_flags n n' \<longleftrightarrow> net_server n' = net_server n \<and> dom (net_conns n') = dom (net_conns n)
     \<and> (\<forall>c k'. net_conns n' c = Some k' \<longrightarrow> (\<exists>k. net_conns n c = Some k \<and> con_stream k' = con_stream k))"

lemma same_but_flags_refl: "same_but_flags n n" by (auto simp: same_but_flags_def)

lemma same_but_flags_trans: "same_but_flags n n' \<Longrightarrow> same_but_flags n' n'' \<Longrightarrow> same_but_flags n n''"
  unfolding same_but_flags_def by metis

lemma on_connection_same:
  "on_connection c f n = Inr n' \<Longrightarrow> (\<And>k. con_stream (f k) = con_stream k) \<Longrightarrow>
   same_but_flags n n' \<and> net_managed n' = net_managed n"
  by (auto simp: on_connection_Inr same_but_flags_def split: if_splits)

lemma perform_same: "perform a n = Inr n' \<Longrightarrow> same_but_flags n n' \<and> net_managed n' = net_managed n"
  by (cases a) (auto dest!: on_connection_same)

lemma perform_all_same: "perform_all as n = Inr n' \<Longrightarrow> same_but_flags n n' \<and> net_managed n' = net_managed n"
proof (induction as arbitrary: n)
  case (Cons a as)
  then obtain n1 where "perform a n = Inr n1" "perform_all as n1 = Inr n'" by (auto simp: returned)
  with Cons.IH perform_same same_but_flags_trans show ?case by metis
qed (simp add: same_but_flags_refl)

lemma perform_all_returns: "target ` set as \<subseteq> dom (net_conns n) \<Longrightarrow> \<exists>n'. perform_all as n = Inr n'"
proof (induction as arbitrary: n)
  case (Cons a as)
  have "\<exists>n1. perform a n = Inr n1"
    using Cons.prems by (cases a) (auto simp: on_connection_def)
  then obtain n1 where n1: "perform a n = Inr n1" by blast
  then have "dom (net_conns n1) = dom (net_conns n)" using perform_same [OF n1] by (simp add: same_but_flags_def)
  with Cons n1 show ?case by auto
qed simp

lemma stop_each_same: "stop_each cs n = Inr n' \<Longrightarrow> same_but_flags n n' \<and> net_managed n' = net_managed n"
proof (induction cs arbitrary: n)
  case (Cons c cs)
  then obtain n1 where "on_connection c con_stop n = Inr n1" "stop_each cs n1 = Inr n'" by (auto simp: returned)
  with Cons.IH on_connection_same [of c con_stop n n1] same_but_flags_trans show ?case by (metis con_keep(2))
qed (simp add: same_but_flags_refl)

section \<open>Who is called while messages are handled\<close>

lemma message_loop_invariant:
  assumes "\<And>sp s s' out. I s \<Longrightarrow> h sp s = Inr (s', out) \<Longrightarrow> I s' \<and> set out \<subseteq> A"
  shows "I s \<Longrightarrow> set acts \<subseteq> A \<Longrightarrow> message_loop h part t s acts = Inr (part', s', acts') \<Longrightarrow> I s' \<and> set acts' \<subseteq> A"
  using assms
proof (induction h part t s acts rule: message_loop.induct)
  case (1 h part t s acts)
  show ?case
  proof (cases "t \<le> span_size part")
    case False
    with "1.prems"(1-3) show ?thesis by (subst (asm) message_loop.simps) simp
  next
    case True
    with "1.prems"(3) obtain m p1 s1 out t1 where
      e: "span_sub part 0 t = Inr m" "span_sub part t dynamic_range = Inr p1" "h m s = Inr (s1, out)"
        "totalLength p1 = Inr t1" and pos: "0 < t"
      and more: "message_loop h p1 t1 s1 (acts @ out) = Inr (part', s', acts')"
      by (subst (asm) message_loop.simps) (auto simp: returned split: if_splits)
    have "I s1" "set (acts @ out) \<subseteq> A" using "1.prems"(4) [OF "1.prems"(1) e(3)] "1.prems"(2) by auto
    with "1.IH" [OF True e(1,2,3) refl e(4) pos] more "1.prems"(4) show ?thesis by blast
  qed
qed

lemma handleMessages_targets:
  assumes "server_ok split s" "handleMessages split mem n c st s = Inr (st', s', acts)"
  shows "server_ok split s'" and "c' \<noteq> c \<Longrightarrow> held_by c' s' = held_by c' s"
    and "a \<in> set acts \<Longrightarrow> target a = c \<or> held_by (target a) s \<noteq> {#}"
proof -
  let ?I = "\<lambda>s'. server_ok split s' \<and> (\<forall>c'. c' \<noteq> c \<longrightarrow> held_by c' s' = held_by c' s)"
  let ?A = "{a. target a = c \<or> held_by (target a) s \<noteq> {#}}"
  have step: "?I s2 \<and> set out \<subseteq> ?A" if "?I s1" "newMessage split mem c sp s1 = Inr (s2, out)" for sp s1 s2 out
  proof -
    have ok: "server_ok split s1" using that(1) by simp
    have "target a = c \<or> held_by (target a) s \<noteq> {#}" if "a \<in> set out" for a
      using newMessage_targets(2) [OF ok \<open>newMessage split mem c sp s1 = Inr (s2, out)\<close> that] \<open>?I s1\<close> by metis
    then show ?thesis
      using that newMessage_ok [OF ok that(2)] newMessage_isolated [OF ok that(2)] by auto
  qed
  obtain part t part' where loop: "message_loop (newMessage split mem c) part t s [] = Inr (part', s', acts)"
    using assms(2) by (auto simp: handleMessages_def handle_messages_def returned)
  have I: "?I s' \<and> set acts \<subseteq> ?A"
    by (rule message_loop_invariant [where I = ?I and A = ?A, OF step _ _ loop]) (use assms(1) in auto)
  then show "server_ok split s'" by simp
  show "held_by c' s' = held_by c' s" if "c' \<noteq> c" using I that by simp
  show "target a = c \<or> held_by (target a) s \<noteq> {#}" if "a \<in> set acts" using I that by auto
qed

section \<open>Every event keeps the invariant\<close>

lemma reap_sel [simp]:
  "net_server (reap n) = net_server n" "net_managed (reap n) = net_managed n"
  "net_accepting (reap n) = net_accepting n"
  by (simp_all add: reap_def)

lemma reap_conns: "net_conns (reap n) c = Some k \<longleftrightarrow> net_conns n c = Some k \<and> held n c k"
  by (auto simp: reap_def split: option.splits)

lemma reap_ok: "net_ok split n \<Longrightarrow> net_ok split (reap n)"
  by (auto simp: net_ok_def reap_conns held_def dom_def)

lemma same_ok:
  assumes "net_ok split n" "same_but_flags n n'" "set (net_managed n') \<subseteq> set (net_managed n)"
  shows "net_ok split n'"
  using assms unfolding net_ok_def same_but_flags_def by (metis subset_trans)

lemma new_stream_ok: "new_stream m = Inr st \<Longrightarrow> stream_ok st"
  by (auto simp: new_stream_def stream_ok_def pending_def frame_length_def split: if_splits)

lemma stream_bytes_new: "\<exists>k. con_new stream_bytes = Inr k"
  by (simp add: con_new_def new_stream_def stream_bytes_def)

lemma on_accept_effect:
  assumes "on_accept c n = Inr n'" "net_accepting n"
  shows "net_server n' = net_server n" "set (net_managed n') = insert c (set (net_managed n))"
    "\<exists>k. stream_ok (con_stream k) \<and> net_conns n' = (net_conns n)(c \<mapsto> k)"
proof -
  from assms obtain st where st: "new_stream stream_bytes = Inr st" and
    n': "n' = n\<lparr>net_managed := List.insert c (net_managed n), net_conns := (net_conns n)(c \<mapsto>
      con_doRead \<lparr>con_connected = True, con_open = True, con_stream = st, con_reading = False, con_writes = []\<rparr>)\<rparr>"
    by (auto simp: on_accept_def manager_start_def con_new_def returned)
  show "net_server n' = net_server n" "set (net_managed n') = insert c (set (net_managed n))"
    by (simp_all add: n')
  show "\<exists>k. stream_ok (con_stream k) \<and> net_conns n' = (net_conns n)(c \<mapsto> k)"
    by (intro exI conjI) (use new_stream_ok [OF st] in \<open>simp_all add: n'\<close>)
qed

lemma on_read_effect:
  assumes "net_ok split n" "enabled (ReadDone c chunk) n" "on_read split mem c chunk n = Inr n'"
  shows "net_ok split n'" "net_managed n' = net_managed n" "dom (net_conns n') = dom (net_conns n)"
    "subscribers n' \<subseteq> insert c (subscribers n)"
proof -
  obtain k where k: "net_conns n c = Some k" "int (length chunk) \<le> readableDataSize (con_stream k)"
    using assms(2) by (auto split: option.splits)
  then obtain st srv acts n1 where
    hm: "handleMessages split mem (int (length chunk)) c (store_chunk chunk (con_stream k)) (net_server n) = Inr (st, srv, acts)"
    and pa: "perform_all acts (n\<lparr>net_server := srv,
        net_conns := (net_conns n)(c \<mapsto> k\<lparr>con_stream := st, con_reading := False\<rparr>)\<rparr>) = Inr n1"
    and dr: "on_connection c con_doRead n1 = Inr n'"
    using assms(3) by (auto simp: on_read_def returned)
  have ok: "server_ok split (net_server n)" and sk: "stream_ok (con_stream k)"
    using assms(1) k(1) by (auto simp: net_ok_def)
  have st: "stream_ok st"
    using handle_messages_outcome [OF sk k(2), of "newMessage split mem c" "net_server n"] hm
      keep_ok [OF _ frames_rest] frames_left_length [of "pending (con_stream k) @ chunk"]
      store_chunk_ok(2) [OF sk k(2)] k(2)
    by (fastforce simp: handleMessages_def readableDataSize_pending [OF sk])
  let ?n = "n\<lparr>net_server := srv, net_conns := (net_conns n)(c \<mapsto> k\<lparr>con_stream := st, con_reading := False\<rparr>)\<rparr>"
  have n: "net_ok split ?n"
    using assms(1) handleMessages_targets(1) [OF ok hm] st k(1) by (auto simp: net_ok_def)
  have same: "same_but_flags ?n n'" and man: "net_managed n' = net_managed ?n"
    using perform_all_same [OF pa] on_connection_same [OF dr] same_but_flags_trans by auto
  show "net_ok split n'" by (rule same_ok [OF n same]) (simp add: man)
  show "net_managed n' = net_managed n" using man by simp
  show "dom (net_conns n') = dom (net_conns n)" using same k(1) by (auto simp: same_but_flags_def)
  have "net_server n' = srv" using same by (simp add: same_but_flags_def)
  then show "subscribers n' \<subseteq> insert c (subscribers n)"
    using handleMessages_targets(2) [OF ok hm] by (auto simp: subscribers_held_by) metis
qed

lemma handle_event_ok:
  assumes "net_ok split n" "enabled e n" "handle_event split mem e n = Inr n'"
  shows "net_ok split n'"
proof (cases e)
  case (Accept c)
  show ?thesis
  proof (cases "net_accepting n")
    case True
    with assms(1,3) Accept on_accept_effect [of c n n'] show ?thesis by (auto simp: net_ok_def split: if_splits)
  qed (use assms Accept in \<open>simp add: on_accept_def\<close>)
next
  case (ReadDone c chunk)
  with on_read_effect(1) assms show ?thesis by auto
next
  case (ReadFailed c)
  with assms(3) obtain n1 where n1: "on_connection c read_over n = Inr n1" "manager_stop c n1 = Inr n'"
    by (auto simp: returned)
  let ?n1 = "n1\<lparr>net_managed := removeAll c (net_managed n1)\<rparr>"
  have 1: "same_but_flags n n1" "net_managed n1 = net_managed n" using on_connection_same [OF n1(1)] by auto
  have 2: "same_but_flags ?n1 n'" "net_managed n' = net_managed ?n1"
    using n1(2) on_connection_same [of c con_stop ?n1 n'] by (auto simp: manager_stop_def)
  have 3: "same_but_flags n ?n1" using 1(1) by (simp add: same_but_flags_def)
  show ?thesis
    by (rule same_ok [OF assms(1) same_but_flags_trans [OF 3 2(1)]]) (use 1(2) 2(2) in auto)
next
  case (ReadAborted c)
  with assms on_connection_same [of c read_over n n'] same_ok [OF assms(1)] show ?thesis by auto
next
  case (WriteDone c)
  with assms on_connection_same [of c write_over n n'] same_ok [OF assms(1)] show ?thesis by auto
next
  case StopSignal
  let ?n = "n\<lparr>net_accepting := False\<rparr>"
  from assms(3) StopSignal obtain n1 where n1: "stop_each (net_managed ?n) ?n = Inr n1" "n' = n1\<lparr>net_managed := []\<rparr>"
    by (auto simp: manager_stopAll_def returned)
  then have "same_but_flags n n'"
    using stop_each_same [OF n1(1)] by (simp add: same_but_flags_def)
  with same_ok [OF assms(1)] n1(2) show ?thesis by simp
qed

lemma net_exec_ok:
  "net_ok split n \<Longrightarrow> enabled e n \<Longrightarrow> net_exec split mem e n = Inr n' \<Longrightarrow> net_ok split n'"
proof -
  assume n: "net_ok split n" "enabled e n" and "net_exec split mem e n = Inr n'"
  then obtain n1 where "handle_event split mem e n = Inr n1" "n' = reap n1"
    by (auto simp: net_exec_def returned)
  with reap_ok [OF handle_event_ok [OF n]] show ?thesis by simp
qed

section \<open>Without failing reads every subscriber is alive\<close>

definition orderly :: "'c event \<Rightarrow> bool" where
  "orderly e = (case e of ReadFailed c \<Rightarrow> False | StopSignal \<Rightarrow> False | _ \<Rightarrow> True)"

definition net_safe :: "(string \<Rightarrow> string list) \<Rightarrow> 'c network \<Rightarrow> bool" where
  "net_safe split n \<longleftrightarrow> net_ok split n \<and> dom (net_conns n) \<subseteq> set (net_managed n) \<and> subscribers_managed n"

lemma net_safe_new: "net_safe split (new_network uc)"
  by (simp add: net_safe_def net_ok_def new_network_def subscribers_managed_def subscribers_def
      server_ok_new) (simp add: new_server_def subscriptions_new)

lemma reap_safe: "net_safe split n \<Longrightarrow> net_safe split (reap n)"
  by (auto simp: net_safe_def subscribers_managed_def subscribers_def dom_def reap_conns intro: reap_ok)

text \<open>
  The fault of an event is one of the server: the event is a read, and the server does not come to the
  end of the messages in it. The calls it makes meet no fault.
\<close>

definition server_faults :: "(string \<Rightarrow> string list) \<Rightarrow> ushort \<Rightarrow> 'c event \<Rightarrow> 'c network \<Rightarrow> fault \<Rightarrow> bool" where
  "server_faults split mem e n f \<longleftrightarrow> (\<exists>c chunk k. e = ReadDone c chunk \<and> net_conns n c = Some k \<and>
     handleMessages split mem (int (length chunk)) c (store_chunk chunk (con_stream k)) (net_server n) = Inl f)"

lemma on_read_faults:
  assumes "net_safe split n" "enabled (ReadDone c chunk) n" "on_read split mem c chunk n = Inl f"
  shows "server_faults split mem (ReadDone c chunk) n f"
proof -
  obtain k where k: "net_conns n c = Some k" "int (length chunk) \<le> readableDataSize (con_stream k)"
    using assms(2) by (auto split: option.splits)
  have ok: "server_ok split (net_server n)"
    and dom: "dom (net_conns n) = set (net_managed n)" "subscribers n \<subseteq> dom (net_conns n)"
    using assms(1) k(1) by (auto simp: net_safe_def net_ok_def subscribers_managed_def)
  let ?hm = "handleMessages split mem (int (length chunk)) c (store_chunk chunk (con_stream k)) (net_server n)"
  show ?thesis
  proof (cases ?hm)
    case (Inl e)
    then have "e = f" using assms(3) k(1) by (simp add: on_read_def)
    with Inl k(1) show ?thesis by (simp add: server_faults_def)
  next
    case (Inr r)
    obtain st srv acts where r: "r = (st, srv, acts)" by (cases r)
    let ?n = "n\<lparr>net_server := srv, net_conns := (net_conns n)(c \<mapsto> k\<lparr>con_stream := st, con_reading := False\<rparr>)\<rparr>"
    have "target a \<in> dom (net_conns ?n)" if "a \<in> set acts" for a
      using handleMessages_targets(3) [OF ok Inr [unfolded r] that] dom(2)
      by (auto simp flip: subscribers_held_by)
    then have "target ` set acts \<subseteq> dom (net_conns ?n)" by blast
    from perform_all_returns [OF this] obtain n1 where n1: "perform_all acts ?n = Inr n1" by blast
    then have "\<exists>k. net_conns n1 c = Some k"
      using perform_all_same [OF n1] by (auto simp: same_but_flags_def)
    with assms(3) k(1) Inr r n1 show ?thesis by (auto simp: on_read_def on_connection_def)
  qed
qed

lemma net_exec_safe:
  assumes "net_safe split n" "enabled e n" "orderly e"
  shows "case net_exec split mem e n of Inr n' \<Rightarrow> net_safe split n'
    | Inl f \<Rightarrow> server_faults split mem e n f"
proof (cases "handle_event split mem e n")
  case (Inr n1)
  have ok: "net_ok split n" "subscribers n \<subseteq> set (net_managed n)" "dom (net_conns n) \<subseteq> set (net_managed n)"
    using assms(1) by (simp_all add: net_safe_def subscribers_managed_def)
  have "subscribers n1 \<subseteq> set (net_managed n1) \<and> dom (net_conns n1) \<subseteq> set (net_managed n1)"
  proof (cases e)
    case (Accept c)
    show ?thesis
    proof (cases "net_accepting n")
      case True
      with Inr Accept on_accept_effect [of c n n1] have
        "net_server n1 = net_server n" "set (net_managed n1) = insert c (set (net_managed n))"
        "dom (net_conns n1) = insert c (dom (net_conns n))" by auto
      with ok show ?thesis by (auto simp: subscribers_def)
    qed (use Inr Accept ok in \<open>simp add: on_accept_def\<close>)
  next
    case (ReadDone c chunk)
    have c: "c \<in> dom (net_conns n)" using assms(2) ReadDone by (auto split: option.splits)
    have "on_read split mem c chunk n = Inr n1" using Inr ReadDone by simp
    note eff = on_read_effect [OF ok(1) assms(2) [unfolded ReadDone] this]
    have "c \<in> set (net_managed n)" using c ok(3) by blast
    with ok(2) have "insert c (subscribers n) \<subseteq> set (net_managed n)" by simp
    with eff(4) have "subscribers n1 \<subseteq> set (net_managed n)" by (rule subset_trans)
    then show ?thesis using ok(3) eff(2,3) by simp
  next
    case (ReadAborted c)
    with Inr ok on_connection_same [of c read_over n n1] show ?thesis
      by (auto simp: same_but_flags_def subscribers_def)
  next
    case (WriteDone c)
    with Inr ok on_connection_same [of c write_over n n1] show ?thesis
      by (auto simp: same_but_flags_def subscribers_def)
  qed (use assms(3) in \<open>simp_all add: orderly_def\<close>)
  then have "net_safe split n1"
    using handle_event_ok [OF ok(1) assms(2) Inr] by (simp add: net_safe_def subscribers_managed_def)
  with Inr show ?thesis by (simp add: net_exec_def reap_safe)
next
  case (Inl f)
  then show ?thesis
  proof (cases e)
    case (Accept c)
    with Inl stream_bytes_new show ?thesis
      by (auto simp: on_accept_def manager_start_def on_connection_def split: if_splits)
  next
    case (ReadDone c chunk)
    have "on_read split mem c chunk n = Inl f" using Inl ReadDone by simp
    from on_read_faults [OF assms(1) assms(2) [unfolded ReadDone] this] Inl ReadDone show ?thesis
      by (simp add: net_exec_def)
  qed (use Inl assms(2,3) in \<open>auto simp: orderly_def on_connection_def split: option.splits\<close>)
qed

text \<open>A run that ends in a fault: the run up to the last event, and what the last event does.\<close>

lemma net_steps_fault:
  "net_steps split mem n es r \<Longrightarrow> r = Inl f \<Longrightarrow>
   \<exists>es' e n'. es = es' @ [e] \<and> net_steps split mem n es' (Inr n') \<and> enabled e n' \<and> net_exec split mem e n' = Inl f"
proof (induction rule: net_steps.induct)
  case (step e n n1 es r)
  then obtain es' e' n' where "es = es' @ [e']" "net_steps split mem n1 es' (Inr n')" "enabled e' n'"
    "net_exec split mem e' n' = Inl f" by blast
  with step.hyps(1,2) show ?case by (intro exI [of _ "e # es'"] exI [of _ e'] exI [of _ n']) (auto intro: net_steps.step)
next
  case (fault e n f')
  then show ?case by (intro exI [of _ "[]"] exI [of _ e] exI [of _ n]) (auto intro: net_steps.none)
qed simp

lemma net_steps_safe:
  "net_steps split mem n es r \<Longrightarrow> r = Inr n' \<Longrightarrow> net_safe split n \<Longrightarrow> list_all orderly es \<Longrightarrow> net_safe split n'"
proof (induction rule: net_steps.induct)
  case (step e n n1 es r)
  with net_exec_safe [of split n e mem] show ?case by simp
qed simp_all

section \<open>A failing read leaves the subscriptions behind\<close>

lemma read_failed_dangles:
  assumes "net_conns n c = Some k" "con_writes k = []"
  shows "\<exists>n'. net_exec split mem (ReadFailed c) n = Inr n' \<and> net_conns n' c = None \<and> net_server n' = net_server n"
  using assms
  by (auto simp: net_exec_def on_connection_def manager_stop_def reap_def held_def read_over_def con_stop_def)

lemma perform_all_dangling:
  "net_conns n c = None \<Longrightarrow> c \<in> target ` set as \<Longrightarrow> perform_all as n = Inl Undefined"
proof (induction as arbitrary: n)
  case (Cons a as)
  show ?case
  proof (cases "perform a n")
    case (Inl e)
    then have "e = Undefined" by (cases a) (auto simp: on_connection_Inl)
    with Inl show ?thesis by simp
  next
    case (Inr n1)
    have "net_conns n1 c = None"
      using perform_same [OF Inr] Cons.prems(1) by (auto simp: same_but_flags_def)
    moreover have "target a \<noteq> c" using Inr Cons.prems(1) by (cases a) (auto simp: on_connection_Inr)
    ultimately show ?thesis using Inr Cons by simp
  qed
qed simp

lemma publish_to_dangling:
  assumes "net_ok split n" "net_conns n c = None" "(c, f) \<in># subscriptions (srv_broker (net_server n))"
    and "0 < match_count split f (pub_topic m)" "framed (Publish m)"
    and "enabled (ReadDone d (wire (Publish m))) n" "net_conns n d = Some k" "pending (con_stream k) = []"
  shows "net_exec split mem (ReadDone d (wire (Publish m))) n = Inl Undefined"
proof -
  let ?w = "wire (Publish m)" and ?s = "net_server n"
  have ok: "server_ok split ?s" "stream_ok (con_stream k)" using assms(1,7) by (auto simp: net_ok_def)
  have len: "int (length ?w) \<le> readableDataSize (con_stream k)" using assms(6,7) by simp
  have fr: "frames ?w = ([?w], [])"
    using frames_single [of ?w "[]"] assms(5) by (simp add: framed_def frames_none frame_length_def del: wire.simps)
  have req: "request_ok (Publish m)" using assms(5) by (simp add: framed_def)
  obtain s' out where s': "serve_bytes split mem d ?w ?s = Inr (s', out)"
    "serve_spec split d (Publish m) (subscriptions (srv_broker ?s)) = (subscriptions (srv_broker s'), mset out)"
    using serve_bytes_refines [OF ok(1) req] by blast
  have "c \<in># deliveries split (subscriptions (srv_broker ?s)) (pub_topic m)"
    using assms(3,4) by (auto simp: deliveries_def match_count_def split: if_splits intro!: bexI [of _ "(c, f)"])
  then have "(c, Some (enc_publish m)) \<in># image_mset (\<lambda>c. (c, Some (enc_publish m)))
      (deliveries split (subscriptions (srv_broker ?s)) (pub_topic m))" by simp
  moreover have "mset out = image_mset (\<lambda>c. (c, Some (enc_publish m)))
      (deliveries split (subscriptions (srv_broker ?s)) (pub_topic m))"
    using s'(2) unfolding serve_spec.simps prod.inject by (elim conjE) (rule sym)
  ultimately have "(c, Some (enc_publish m)) \<in># mset out" by (simp only:)
  moreover have "observe_stream seen (handleMessages split mem (int (length ?w)) d (store_chunk ?w (con_stream k)) ?s)
      = Inr (keep [] (store_chunk ?w (con_stream k)), s', out)"
    using sv.receive_frames [OF ok(2) len, of split mem d ?s] wire_self_contained [OF req] assms(8) fr s'(1)
    by (simp add: handleMessages_def del: wire.simps)
  ultimately obtain st acts where hm:
    "handleMessages split mem (int (length ?w)) d (store_chunk ?w (con_stream k)) ?s = Inr (st, s', acts)"
    and "(c, Some (enc_publish m)) \<in> seen ` set acts"
    by (auto simp: observe_stream_def returned simp del: wire.simps)
  then obtain a where "a \<in> set acts" "seen a = (c, Some (enc_publish m))" by auto
  moreover from this(2) have "target a = c" by (cases a) simp_all
  ultimately have "c \<in> target ` set acts" by blast
  moreover have "c \<noteq> d" using assms(2,7) by auto
  ultimately have "perform_all acts (n\<lparr>net_server := s', net_conns := (net_conns n)(d \<mapsto> k\<lparr>con_stream := st, con_reading := False\<rparr>)\<rparr>)
      = Inl Undefined"
    using assms(2) by (intro perform_all_dangling) auto
  with hm assms(7) show ?thesis by (simp add: net_exec_def on_read_def del: wire.simps)
qed

section \<open>A disconnected connection is never released\<close>

definition idle :: "connection \<Rightarrow> bool" where
  "idle k \<longleftrightarrow> \<not> con_connected k \<and> \<not> con_reading k"

definition retired :: "'c \<Rightarrow> 'c network \<Rightarrow> bool" where
  "retired c n \<longleftrightarrow> c \<in> set (net_managed n) \<and> (\<exists>k. net_conns n c = Some k \<and> idle k)"

lemma idle_keep:
  "idle k \<Longrightarrow> idle (con_doRead k)" "idle k \<Longrightarrow> idle (con_newMessage sp k)" "idle k \<Longrightarrow> idle (con_disconnect k)"
  "idle k \<Longrightarrow> idle (read_over k)" "idle k \<Longrightarrow> idle (write_over k)"
  by (simp_all add: idle_def con_doRead_def con_stop_def con_newMessage_def con_disconnect_def read_over_def write_over_def)

lemma on_connection_retired:
  assumes "retired c n" "on_connection d f n = Inr n'" "\<And>k. idle k \<Longrightarrow> idle (f k)"
  shows "retired c n'"
proof -
  obtain k k' where "c \<in> set (net_managed n)" "net_conns n c = Some k" "idle k"
    and n': "n' = n\<lparr>net_conns := (net_conns n)(d \<mapsto> f k')\<rparr>" "net_conns n d = Some k'"
    using assms(1,2) unfolding retired_def on_connection_Inr by blast
  with assms(3) [of k] show ?thesis by (cases "c = d") (simp_all add: retired_def)
qed

lemma perform_retired: "retired c n \<Longrightarrow> perform a n = Inr n' \<Longrightarrow> retired c n'"
proof -
  assume r: "retired c n" and p: "perform a n = Inr n'"
  show ?thesis
  proof (cases a)
    case (NewMessage d sp)
    from on_connection_retired [OF r p [unfolded NewMessage perform.simps] idle_keep(2)] show ?thesis .
  next
    case (Disconnect d)
    from on_connection_retired [OF r p [unfolded Disconnect perform.simps] idle_keep(3)] show ?thesis .
  qed
qed

lemma perform_all_retired: "retired c n \<Longrightarrow> perform_all as n = Inr n' \<Longrightarrow> retired c n'"
proof (induction as arbitrary: n)
  case (Cons a as)
  then obtain n1 where n1: "perform a n = Inr n1" "perform_all as n1 = Inr n'" by (auto simp: returned)
  from Cons.IH [OF perform_retired [OF Cons.prems(1) n1(1)] n1(2)] show ?case .
qed simp

lemma net_exec_retired:
  assumes "retired c n" "enabled e n" "e \<noteq> StopSignal" "net_exec split mem e n = Inr n'"
  shows "retired c n'"
proof -
  obtain n1 where n1: "handle_event split mem e n = Inr n1" "n' = reap n1"
    using assms(4) by (auto simp: net_exec_def returned)
  have "retired c n1"
  proof (cases e)
    case (Accept d)
    with assms(1,2) have "d \<noteq> c" by (auto simp: retired_def)
    then show ?thesis using n1(1) Accept assms(1)
      by (auto simp: on_accept_def manager_start_def returned retired_def split: if_splits)
  next
    case (ReadDone d chunk)
    with n1(1) obtain k st srv acts n2 where k: "net_conns n d = Some k"
      and pa: "perform_all acts (n\<lparr>net_server := srv,
        net_conns := (net_conns n)(d \<mapsto> k\<lparr>con_stream := st, con_reading := False\<rparr>)\<rparr>) = Inr n2"
      and dr: "on_connection d con_doRead n2 = Inr n1"
      by (auto simp: on_read_def returned split: option.splits)
    have "retired c (n\<lparr>net_server := srv, net_conns := (net_conns n)(d \<mapsto> k\<lparr>con_stream := st, con_reading := False\<rparr>)\<rparr>)"
      using assms(1) k by (auto simp: retired_def idle_def)
    from on_connection_retired [OF perform_all_retired [OF this pa] dr] idle_keep(1) show ?thesis by blast
  next
    case (ReadFailed d)
    then have "d \<noteq> c" using assms(1,2) by (auto simp: retired_def idle_def)
    then show ?thesis using n1(1) ReadFailed assms(1)
      by (auto simp: manager_stop_def returned retired_def)
  next
    case (ReadAborted d)
    then have "on_connection d read_over n = Inr n1" using n1(1) by simp
    from on_connection_retired [OF assms(1) this] idle_keep(4) show ?thesis by blast
  next
    case (WriteDone d)
    then have "on_connection d write_over n = Inr n1" using n1(1) by simp
    from on_connection_retired [OF assms(1) this] idle_keep(5) show ?thesis by blast
  qed (use assms(3) in simp)
  then show ?thesis by (auto simp: n1(2) retired_def reap_conns held_def)
qed

lemma net_steps_retired:
  "net_steps split mem n es r \<Longrightarrow> retired c n \<Longrightarrow> StopSignal \<notin> set es \<Longrightarrow> r = Inr n' \<Longrightarrow> retired c n'"
  by (induction rule: net_steps.induct) (auto dest: net_exec_retired)

section \<open>Properties\<close>

text \<open>
  C13. On every run of the network without a failing read and without the stop signal, every
  subscriber of the broker is a live connection in every state, and no fault comes from a
  connection that does not exist: where the run ends in a fault \<open>f\<close>, its last event is a read of a connection
  that exists in the state before it, and it is the server that does not come to the end of the messages of this
  read, before any of its calls on connections is performed: \<open>handleMessages\<close> itself ends in \<open>f\<close>.
\<close>

theorem subscribers_stay_alive:
  assumes "net_steps split mem (new_network uc) es r" "list_all orderly es"
  shows "case r of
      Inr n \<Rightarrow> subscribers n \<subseteq> dom (net_conns n) \<and> server_ok split (net_server n)
    | Inl f \<Rightarrow> \<exists>es' c chunk n k. es = es' @ [ReadDone c chunk] \<and>
        net_steps split mem (new_network uc) es' (Inr n) \<and> net_conns n c = Some k \<and>
        handleMessages split mem (int (length chunk)) c (store_chunk chunk (con_stream k)) (net_server n) = Inl f"
proof (cases r)
  case (Inr n)
  have "net_safe split n" using net_steps_safe [OF assms(1) Inr net_safe_new assms(2)] .
  with Inr show ?thesis by (auto simp: net_safe_def net_ok_def subscribers_managed_def)
next
  case (Inl f)
  from net_steps_fault [OF assms(1) Inl] obtain es' e n where
    e: "es = es' @ [e]" "net_steps split mem (new_network uc) es' (Inr n)" "enabled e n" "net_exec split mem e n = Inl f"
    by blast
  then have "net_safe split n" "orderly e"
    using net_steps_safe [OF e(2) refl net_safe_new] assms(2) by simp_all
  from net_exec_safe [OF this(1) e(3) this(2), of mem] e(4) have "server_faults split mem e n f" by simp
  with e(1,2) Inl show ?thesis unfolding server_faults_def by auto
qed

theorem subscribers_stay_alive_witness:
  "\<exists>n. net_steps split_slash 0 (new_network True) [Accept (5 :: nat)] (Inr n) \<and> subscribers n \<subseteq> dom (net_conns n)"
proof -
  obtain k where k: "con_new stream_bytes = Inr k" using stream_bytes_new by blast
  then obtain n where "net_exec split_slash 0 (Accept 5) (new_network True :: nat network) = Inr n"
    by (auto simp: net_exec_def on_accept_def manager_start_def on_connection_def new_network_def)
  then have run: "net_steps split_slash 0 (new_network True) [Accept (5 :: nat)] (Inr n)"
    by (auto intro!: net_steps.intros simp: new_network_def)
  with subscribers_stay_alive [OF run] show ?thesis by (auto simp: orderly_def)
qed

text \<open>
  C25. A read that fails takes the connection out of the manager without telling the broker:
  the object is destroyed, its subscriptions stay, and the next publication that matches one
  goes through the dangling pointer.
\<close>

theorem failed_read_dangles:
  assumes "net_ok split n" "net_conns n c = Some k" "con_writes k = []"
    and "(c, f) \<in># subscriptions (srv_broker (net_server n))"
    and "0 < match_count split f (pub_topic m)" "framed (Publish m)" "d \<noteq> c"
    and "enabled (ReadDone d (wire (Publish m))) n" "enabled (ReadFailed c) n"
    and "net_conns n d = Some k'" "pending (con_stream k') = []"
  shows "net_steps split mem n [ReadFailed c, ReadDone d (wire (Publish m))] (Inl Undefined)"
proof -
  obtain n' where n': "net_exec split mem (ReadFailed c) n = Inr n'" "net_conns n' c = None" "net_server n' = net_server n"
    using read_failed_dangles [OF assms(2,3)] by blast
  have d: "net_conns n' d = Some k'"
    using n'(1) assms(2,7,8,10) by (auto simp: net_exec_def on_connection_def manager_stop_def reap_def held_def)
  have en: "enabled (ReadDone d (wire (Publish m))) n'"
    using assms(8,10) d by (simp del: wire.simps)
  have "net_exec split mem (ReadDone d (wire (Publish m))) n' = Inl Undefined"
    using publish_to_dangling [OF net_exec_ok [OF assms(1,9) n'(1)] n'(2) _ assms(5,6) en d assms(11)]
      assms(4) n'(3) by simp
  with n'(1) en assms(9) show ?thesis by (blast intro: net_steps.intros)
qed

definition a_connection :: connection where
  "a_connection = \<lparr>con_connected = True, con_open = True, con_stream = a_stream, con_reading = True, con_writes = []\<rparr>"

definition a_network :: "nat network" where
  "a_network = \<lparr>net_server = \<lparr>srv_broker = subscribe_names split_slash 5 [''a/b''] (new_broker True)\<rparr>,
     net_managed = [5, 6], net_conns = [5 \<mapsto> a_connection, 6 \<mapsto> a_connection], net_accepting = True\<rparr>"

lemma a_network_ok: "net_ok split_slash a_network"
  by (auto simp: net_ok_def a_network_def a_connection_def a_stream_ok server_ok_def subscribe_names_ok
      broker_ok_new split: if_splits)

lemma a_publish_framed: "framed (Publish a_publish)" "length (wire (Publish a_publish)) = 9"
  using a_publish_ok
  by (simp_all add: framed_def a_publish_def a_header_def enc_publish_def enc_header_def remaining_digits_single
      frame_length_def del: request_ok.simps)

theorem failed_read_dangles_witness:
  "net_steps split_slash 0 a_network [ReadFailed 5, ReadDone 6 (wire (Publish a_publish))] (Inl Undefined)"
proof (rule failed_read_dangles [of split_slash a_network 5 a_connection "''a/b''" a_publish 6 a_connection 0])
  show "net_ok split_slash a_network" by (rule a_network_ok)
  show "(5, ''a/b'') \<in># subscriptions (srv_broker (net_server a_network))"
    by (simp add: a_network_def subscribe_names_ok broker_ok_new)
  show "0 < match_count split_slash ''a/b'' (pub_topic a_publish)"
    by (simp add: match_count_def a_publish_def)
  show "framed (Publish a_publish)" by (rule a_publish_framed)
  show "enabled (ReadDone 6 (wire (Publish a_publish))) a_network"
    using a_publish_framed(2) by (simp add: a_network_def a_connection_def a_stream_ok del: wire.simps)
qed (simp_all add: a_network_def a_connection_def a_stream_ok)

text \<open>
  C27. A connection that was disconnected while no read was under way is kept by the manager,
  on every run, until the stop signal.
\<close>

theorem disconnected_never_released:
  assumes "net_steps split mem n es (Inr n')" "StopSignal \<notin> set es"
    and "c \<in> set (net_managed n)" "net_conns n c = Some k" "\<not> con_connected k" "\<not> con_reading k"
  shows "c \<in> set (net_managed n') \<and> (\<exists>k'. net_conns n' c = Some k' \<and> \<not> con_connected k')"
proof -
  have "retired c n" using assms(3-6) by (auto simp: retired_def idle_def)
  from net_steps_retired [OF assms(1) this assms(2) refl] show ?thesis by (auto simp: retired_def idle_def)
qed

theorem disconnected_never_released_witness:
  "\<exists>n'. net_steps split_slash 0 (a_network\<lparr>net_conns := (net_conns a_network)(5 \<mapsto> a_connection\<lparr>con_connected := False, con_reading := False\<rparr>)\<rparr>)
      [ReadFailed 6] (Inr n') \<and> 5 \<in> set (net_managed n')"
proof -
  let ?k = "a_connection\<lparr>con_connected := False, con_reading := False\<rparr>"
  let ?n = "a_network\<lparr>net_conns := (net_conns a_network)(5 \<mapsto> ?k)\<rparr>"
  obtain n' where "net_exec split_slash 0 (ReadFailed 6) ?n = Inr n'"
    using read_failed_dangles [of ?n 6 a_connection] by (auto simp: a_network_def a_connection_def)
  then have run: "net_steps split_slash 0 ?n [ReadFailed 6] (Inr n')"
    by (auto intro!: net_steps.intros simp: a_network_def a_connection_def)
  from disconnected_never_released [OF run, of 5 ?k] run show ?thesis by (auto simp: a_network_def a_connection_def)
qed

end
