(* ===== verification/NetworkFacts.thy ===== *)
theory NetworkFacts
  imports Network
begin

text \<open>
  The network against the specification of the server. From the events of a run one can read
  which messages become complete and in which order (\<open>arrivals\<close>), and from the calls of the
  specification what every connection is sent (\<open>sent\<close>). A run of any connections, with any
  interleaving of the reads and writes and on any bytes, gives just that, or the fault of the
  specification (\<open>follows\<close>).
\<close>

section \<open>The messages that become complete\<close>

text \<open>\<open>p\<close> has for every connection the bytes that wait for the rest of their message.\<close>

fun completed :: "('c \<Rightarrow> ubyte list) \<Rightarrow> 'c event \<Rightarrow> ('c \<times> ubyte list) list" where
  "completed p (ReadDone c chunk) = map (Pair c) (fst (frames (p c @ chunk)))"
| "completed p _ = []"

fun left_over :: "('c \<Rightarrow> ubyte list) \<Rightarrow> 'c event \<Rightarrow> 'c \<Rightarrow> ubyte list" where
  "left_over p (ReadDone c chunk) = p(c := snd (frames (p c @ chunk)))"
| "left_over p _ = p"

fun arrivals :: "('c \<Rightarrow> ubyte list) \<Rightarrow> 'c event list \<Rightarrow> ('c \<times> ubyte list) list" where
  "arrivals p [] = []"
| "arrivals p (e # es) = completed p e @ arrivals (left_over p e) es"

section \<open>What a connection is sent\<close>

text \<open>The bytes for \<open>c\<close> among the calls, up to its disconnection.\<close>

fun sent :: "'c \<Rightarrow> ('c \<times> ubyte list option) list \<Rightarrow> ubyte list list" where
  "sent c [] = []"
| "sent c ((d, b) # os) =
     (if d = c then (case b of None \<Rightarrow> [] | Some bs \<Rightarrow> bs # sent c os) else sent c os)"

lemma sent_append: "sent c (xs @ ys) = sent c xs @ (if (c, None) \<in> set xs then [] else sent c ys)"
  by (induction c xs rule: sent.induct) (auto split: option.splits)

lemma sent_none: "c \<notin> fst ` set xs \<Longrightarrow> sent c xs = []"
  by (induction c xs rule: sent.induct) (auto split: if_splits)

definition writes_done :: "'c \<Rightarrow> 'c event list \<Rightarrow> nat" where
  "writes_done c es = length (filter (\<lambda>e. e = WriteDone c) es)"

lemma writes_done_simps [simp]:
  "writes_done c [] = 0"
  "writes_done c (e # es) = (if e = WriteDone c then 1 else 0) + writes_done c es"
  by (simp_all add: writes_done_def)

text \<open>A connection after the calls \<open>h\<close>, when \<open>d\<close> of its writes are over.\<close>

definition in_step :: "'c \<Rightarrow> ('c \<times> ubyte list option) list \<Rightarrow> nat \<Rightarrow> connection \<Rightarrow> bool" where
  "in_step c h d k \<longleftrightarrow> con_connected k = ((c, None) \<notin> set h) \<and> d \<le> length (sent c h)
     \<and> map view (con_writes k) = drop d (sent c h)"

lemma in_step_keep [simp]:
  "in_step c h d (con_doRead k) = in_step c h d k"
  "in_step c h d (read_over k) = in_step c h d k"
  "in_step c h d (k\<lparr>con_stream := st, con_reading := r\<rparr>) = in_step c h d k"
  by (simp_all add: in_step_def con_doRead_def read_over_def)

lemma target_seen: "fst (seen a) = target a" by (cases a) simp_all

lemma perform_in_step:
  assumes "perform a n = Inr n'" "net_conns n c = Some k" "in_step c h d k"
  shows "\<exists>k'. net_conns n' c = Some k' \<and> in_step c (h @ [seen a]) d k'"
proof (cases a)
  case (NewMessage e sp)
  with assms show ?thesis
    by (cases "e = c") (auto simp: returned in_step_def con_newMessage_def sent_append)
next
  case (Disconnect e)
  with assms show ?thesis
    by (cases "e = c") (auto simp: returned in_step_def con_disconnect_def con_stop_def sent_append)
qed

lemma perform_all_in_step:
  "perform_all as n = Inr n' \<Longrightarrow> net_conns n c = Some k \<Longrightarrow> in_step c h d k \<Longrightarrow>
   \<exists>k'. net_conns n' c = Some k' \<and> in_step c (h @ map seen as) d k'"
proof (induction as arbitrary: n k h)
  case (Cons a as)
  then obtain n1 where n1: "perform a n = Inr n1" "perform_all as n1 = Inr n'" by (auto simp: returned)
  from perform_in_step [OF n1(1) Cons.prems(2,3)] obtain k1 where
    "net_conns n1 c = Some k1" "in_step c (h @ [seen a]) d k1" by blast
  from Cons.IH [OF n1(2) this] show ?case by simp
qed simp

section \<open>The relation of a network with what happened\<close>

text \<open>\<open>h\<close>: the calls made so far; \<open>d\<close>: how many writes of each connection are over.\<close>

fun booked :: "ubyte list \<Rightarrow> ('c \<times> ubyte list option) list \<Rightarrow> nat \<Rightarrow> 'c \<Rightarrow> connection option \<Rightarrow> bool" where
  "booked p h d c None \<longleftrightarrow> p = [] \<and> d = 0 \<and> c \<notin> fst ` set h"
| "booked p h d c (Some k) \<longleftrightarrow> p = pending (con_stream k) \<and> in_step c h d k"

definition tracks :: "(string \<Rightarrow> string list) \<Rightarrow> ('c \<Rightarrow> ubyte list) \<Rightarrow> ('c \<times> ubyte list option) list
    \<Rightarrow> ('c \<Rightarrow> nat) \<Rightarrow> 'c network \<Rightarrow> bool" where
  "tracks split p h d n \<longleftrightarrow> net_safe split n \<and> (\<forall>c. booked (p c) h (d c) c (net_conns n c))"

lemma tracks_new: "tracks split (\<lambda>_. []) [] (\<lambda>_. 0) (new_network uc)"
  using net_safe_new [of split uc] by (simp add: tracks_def) (simp add: new_network_def)

section \<open>One event\<close>

lemma reap_managed: "dom (net_conns n) \<subseteq> set (net_managed n) \<Longrightarrow> reap n = n"
proof -
  assume "dom (net_conns n) \<subseteq> set (net_managed n)"
  then have "(\<lambda>c. case net_conns n c of None \<Rightarrow> None | Some k \<Rightarrow> if held n c k then Some k else None) = net_conns n"
    by (auto simp: held_def fun_eq_iff split: option.splits)
  then show ?thesis by (simp add: reap_def)
qed

lemma handleMessages_any:
  assumes "server_ok split s" "stream_ok st" "int (length chunk) \<le> readableDataSize st"
    and "list_all self_contained (fst (frames (pending st @ chunk)))"
  shows "case run_any split (map (Pair c) (fst (frames (pending st @ chunk)))) (subscriptions (srv_broker s)) of
      Inl f \<Rightarrow> handleMessages split mem (int (length chunk)) c (store_chunk chunk st) s = Inl f
    | Inr (ss, mouts) \<Rightarrow> \<exists>st' s' acts outs.
        handleMessages split mem (int (length chunk)) c (store_chunk chunk st) s = Inr (st', s', acts) \<and>
        pending st' = snd (frames (pending st @ chunk)) \<and> map seen acts = concat outs \<and>
        ss = subscriptions (srv_broker s') \<and> mouts = map mset outs"
proof -
  let ?b = "pending st @ chunk"
  let ?st = "keep (snd (frames ?b)) (store_chunk chunk st)"
  have len: "length (snd (frames ?b)) \<le> length (st_buffer (store_chunk chunk st))"
    using frames_left_length [of ?b] assms(3) store_chunk_ok(2) [OF assms(2,3)]
    by (simp add: readableDataSize_pending [OF assms(2)])
  have hm: "observe_stream seen (handleMessages split mem (int (length chunk)) c (store_chunk chunk st) s)
      = bindE (serve_all (serve_bytes split mem c) (fst (frames ?b)) s) (\<lambda>(s', out). Inr (?st, s', out))"
    using sv.receive_frames [OF assms(2-4), of split mem c s] by (simp add: handleMessages_def Let_def)
  show ?thesis
  proof (cases "run_any split (map (Pair c) (fst (frames ?b))) (subscriptions (srv_broker s))")
    case (Inl f)
    with serve_all_any [OF assms(1), of mem c "fst (frames ?b)"] hm
    have "observe_stream seen (handleMessages split mem (int (length chunk)) c (store_chunk chunk st) s) = Inl f" by simp
    with Inl show ?thesis by (auto simp: observe_stream_def bindE_eq_Inl)
  next
    case (Inr q)
    with serve_all_any [OF assms(1), of mem c "fst (frames ?b)"] obtain s' outs where
      "serve_all (serve_bytes split mem c) (fst (frames ?b)) s = Inr (s', concat outs)"
      "q = (subscriptions (srv_broker s'), map mset outs)" by (cases q) auto
    with Inr hm keep_ok(2) [OF len frames_rest] show ?thesis by (auto simp: observe_stream_def returned)
  qed
qed

text \<open>The calls of a read find their connections.\<close>

lemma on_read_performs:
  assumes "net_safe split n" "net_conns n c = Some k"
    and "handleMessages split mem (int (length chunk)) c (store_chunk chunk (con_stream k)) (net_server n) = Inr (st, s', acts)"
  defines "n1 \<equiv> n\<lparr>net_server := s', net_conns := (net_conns n)(c \<mapsto> k\<lparr>con_stream := st, con_reading := False\<rparr>)\<rparr>"
  shows "\<exists>n2 n'. perform_all acts n1 = Inr n2 \<and> on_connection c con_doRead n2 = Inr n' \<and>
    on_read split mem c chunk n = Inr n' \<and> target ` set acts \<subseteq> dom (net_conns n)"
proof -
  have ok: "server_ok split (net_server n)" "subscribers n \<subseteq> dom (net_conns n)"
    using assms(1) by (auto simp: net_safe_def net_ok_def subscribers_managed_def)
  have "target a \<in> dom (net_conns n)" if "a \<in> set acts" for a
    using handleMessages_targets(3) [OF ok(1) assms(3) that] ok(2) assms(2)
    by (auto simp flip: subscribers_held_by)
  then have t: "target ` set acts \<subseteq> dom (net_conns n)" by blast
  then have "target ` set acts \<subseteq> dom (net_conns n1)" by (auto simp: n1_def)
  from perform_all_returns [OF this] obtain n2 where n2: "perform_all acts n1 = Inr n2" by blast
  then have "\<exists>k. net_conns n2 c = Some k"
    using perform_all_same [OF n2] by (auto simp: n1_def same_but_flags_def)
  with n2 t assms(2,3) show ?thesis by (auto simp: on_read_def on_connection_def n1_def)
qed

text \<open>The other handlers, on a network whose connections are all managed.\<close>

lemma on_accept_new:
  "net_accepting n \<Longrightarrow> \<exists>k. on_accept c n = Inr (n\<lparr>net_managed := List.insert c (net_managed n), net_conns := (net_conns n)(c \<mapsto> k)\<rparr>)
     \<and> con_connected k \<and> con_open k \<and> con_reading k \<and> con_writes k = [] \<and> stream_ok (con_stream k)
     \<and> pending (con_stream k) = [] \<and> readableDataSize (con_stream k) = stream_bytes"
  by (auto simp: on_accept_def con_new_def new_stream_def stream_bytes_def manager_start_def on_connection_def
      con_doRead_def pending_def readableDataSize_def stream_ok_def frame_length_def)

lemma write_over_in_step:
  assumes "in_step c h d k" "con_writes k \<noteq> []"
  shows "in_step c h (Suc d) (write_over k)"
proof -
  have m: "map view (con_writes k) = drop d (sent c h)" using assms(1) by (simp add: in_step_def)
  then have "d < length (sent c h)" using assms(2) by (metis drop_all linorder_not_le list.map_disc_iff)
  moreover have "map view (tl (con_writes k)) = drop (Suc d) (sent c h)" by (simp add: map_tl m drop_Suc tl_drop)
  ultimately show ?thesis using assms(1) by (simp add: in_step_def write_over_def)
qed

lemma net_exec_returns:
  assumes "net_safe split n" "enabled e n" "orderly e" "handle_event split mem e n = Inr n'"
    and "dom (net_conns n') \<subseteq> set (net_managed n')"
  shows "net_exec split mem e n = Inr n' \<and> net_safe split n'"
  using net_exec_safe [OF assms(1-3), of mem] assms(4) reap_managed [OF assms(5)] by (simp add: net_exec_def)

text \<open>
  An outcome of the network follows one of the specification: the same fault, or the subscriptions
  and calls that the specification has, and \<open>P\<close>.
\<close>

definition follows :: "'c network result \<Rightarrow> (('c \<times> string) multiset \<times> ('c \<times> ubyte list option) multiset list) result
    \<Rightarrow> (('c \<times> ubyte list option) list list \<Rightarrow> 'c network \<Rightarrow> bool) \<Rightarrow> bool" where
  "follows r spec P = (case spec of Inl f \<Rightarrow> r = Inl f
     | Inr (ss, mouts) \<Rightarrow> \<exists>n outs. r = Inr n \<and> ss = subscriptions (srv_broker (net_server n)) \<and>
         mouts = map mset outs \<and> P outs n)"

lemma follows_Inl: "follows r (Inl f) P \<longleftrightarrow> r = Inl f"
  by (simp add: follows_def)

lemma follows_Inr: "follows r (Inr (ss, mouts)) P \<longleftrightarrow> (\<exists>n outs. r = Inr n \<and>
    ss = subscriptions (srv_broker (net_server n)) \<and> mouts = map mset outs \<and> P outs n)"
  by (simp add: follows_def)

text \<open>An event that is no read makes no call.\<close>

lemma quiet_refines:
  assumes "tracks split p h d n" "enabled e n" "orderly e" "completed p e = []" "left_over p e = p"
    and "handle_event split mem e n = Inr n'" "net_server n' = net_server n"
    and "dom (net_conns n') \<subseteq> set (net_managed n')"
    and "\<And>c. booked (p c) h (d c + writes_done c [e]) c (net_conns n' c)"
  shows "follows (net_exec split mem e n) (run_any split (completed p e) (subscriptions (srv_broker (net_server n))))
    (\<lambda>outs. tracks split (left_over p e) (h @ concat outs) (\<lambda>c. d c + writes_done c [e]))"
proof -
  have "net_exec split mem e n = Inr n' \<and> net_safe split n'"
    using assms(1) by (intro net_exec_returns [OF _ assms(2,3,6,8)]) (simp add: tracks_def)
  with assms(4,5,7,9) show ?thesis
    by (auto simp: follows_Inr tracks_def simp del: writes_done_simps)
qed

lemma in_step_calls:
  assumes "perform_all acts n1 = Inr n2" "on_connection c con_doRead n2 = Inr n'" "net_conns n1 e = Some k" "in_step e h d k"
  shows "\<exists>k'. net_conns n' e = Some k' \<and> con_stream k' = con_stream k \<and> in_step e (h @ map seen acts) d k'"
proof -
  obtain k2 where k2: "net_conns n2 e = Some k2" "in_step e (h @ map seen acts) d k2"
    using perform_all_in_step [OF assms(1,3,4)] by blast
  then have "con_stream k2 = con_stream k"
    using perform_all_same [OF assms(1)] assms(3) unfolding same_but_flags_def by (metis option.inject)
  with k2 assms(2) show ?thesis by (auto simp: on_connection_Inr)
qed

lemma read_refines:
  assumes "tracks split p h d n" "enabled (ReadDone c chunk) n"
    and "list_all (\<lambda>q. self_contained (snd q)) (completed p (ReadDone c chunk))"
  shows "follows (net_exec split mem (ReadDone c chunk) n)
    (run_any split (completed p (ReadDone c chunk)) (subscriptions (srv_broker (net_server n))))
    (\<lambda>outs. tracks split (left_over p (ReadDone c chunk)) (h @ concat outs) d)"
proof -
  have safe: "net_safe split n" and b: "booked (p e) h (d e) e (net_conns n e)" for e
    using assms(1) by (simp_all add: tracks_def)
  obtain k where k: "net_conns n c = Some k" "int (length chunk) \<le> readableDataSize (con_stream k)"
    using assms(2) by (auto split: option.splits)
  then have pc: "p c = pending (con_stream k)" "in_step c h (d c) k" using b [of c] by simp_all
  have ok: "server_ok split (net_server n)" "stream_ok (con_stream k)" using safe k(1) by (auto simp: net_safe_def net_ok_def)
  have good: "list_all self_contained (fst (frames (pending (con_stream k) @ chunk)))"
    using assms(3) pc(1) by (simp add: list.pred_map comp_def)
  note hm = handleMessages_any [OF ok k(2) good, of mem c, folded pc(1)]
  show ?thesis
  proof (cases "run_any split (completed p (ReadDone c chunk)) (subscriptions (srv_broker (net_server n)))")
    case (Inl f)
    with hm k(1) show ?thesis by (simp add: follows_Inl net_exec_def on_read_def)
  next
    case (Inr q)
    with hm obtain st s' acts outs where
      hm: "handleMessages split mem (int (length chunk)) c (store_chunk chunk (con_stream k)) (net_server n) = Inr (st, s', acts)"
      and st: "pending st = snd (frames (p c @ chunk))" and seen: "map seen acts = concat outs"
      and q: "q = (subscriptions (srv_broker s'), map mset outs)" by (cases q) auto
    let ?n1 = "n\<lparr>net_server := s', net_conns := (net_conns n)(c \<mapsto> k\<lparr>con_stream := st, con_reading := False\<rparr>)\<rparr>"
    obtain n2 n' where n': "perform_all acts ?n1 = Inr n2" "on_connection c con_doRead n2 = Inr n'" "on_read split mem c chunk n = Inr n'"
      "target ` set acts \<subseteq> dom (net_conns n)"
      using on_read_performs [OF safe k(1) hm] by blast
    have same: "net_server n' = s'" "net_managed n' = net_managed n" "dom (net_conns n') = dom (net_conns n)"
      using perform_all_same [OF n'(1)] on_connection_same [OF n'(2)] k(1) by (auto simp: same_but_flags_def)
    have "booked (left_over p (ReadDone c chunk) e) (h @ concat outs) (d e) e (net_conns n' e)" for e
    proof (cases "net_conns n e")
      case None
      then have "e \<notin> fst ` set (concat outs)"
        using n'(4) by (auto simp: target_seen simp flip: seen)
      moreover have "net_conns n' e = None" using None same(3) by (metis domIff)
      ultimately show ?thesis using None b [of e] k(1) by auto
    next
      case (Some ke)
      then show ?thesis
        using in_step_calls [OF n'(1,2), of e _ h "d e"] b [of e] st pc(2) seen k(1) by (cases "e = c") auto
    qed
    moreover have "net_exec split mem (ReadDone c chunk) n = Inr n' \<and> net_safe split n'"
      using safe n'(3) same(2,3) by (intro net_exec_returns [OF safe assms(2)]) (simp_all add: orderly_def net_safe_def)
    ultimately show ?thesis
      unfolding Inr q follows_Inr using same(1) by (intro exI [of _ n'] exI [of _ outs]) (simp add: tracks_def)
  qed
qed

text \<open>One event keeps the relation, and does what the specification does.\<close>

lemma event_refines:
  assumes "tracks split p h d n" "enabled e n" "orderly e" "list_all (\<lambda>q. self_contained (snd q)) (completed p e)"
  shows "follows (net_exec split mem e n) (run_any split (completed p e) (subscriptions (srv_broker (net_server n))))
    (\<lambda>outs. tracks split (left_over p e) (h @ concat outs) (\<lambda>c. d c + writes_done c [e]))"
proof -
  have b: "booked (p c) h (d c) c (net_conns n c)" for c using assms(1) by (simp add: tracks_def)
  have dom: "dom (net_conns n) \<subseteq> set (net_managed n)" using assms(1) by (simp add: tracks_def net_safe_def)
  show ?thesis
  proof (cases e)
    case (Accept c)
    show ?thesis
    proof (cases "net_accepting n")
      case True
      obtain k where k: "on_accept c n = Inr (n\<lparr>net_managed := List.insert c (net_managed n), net_conns := (net_conns n)(c \<mapsto> k)\<rparr>)"
        "con_connected k" "con_writes k = []" "pending (con_stream k) = []"
        using on_accept_new [OF True] by blast
      have "net_conns n c = None" using assms(2) Accept by simp
      then have z: "p c = []" "d c = 0" "c \<notin> fst ` set h" using b [of c] by simp_all
      then have "(c, None) \<notin> set h" by (metis fst_conv imageI)
      then have "booked (p c) h (d c) c (Some k)" using k z by (simp add: in_step_def sent_none)
      then show ?thesis
        using k(1) Accept b dom
        by (intro quiet_refines [OF assms(1-3), where n' = "n\<lparr>net_managed := List.insert c (net_managed n),
              net_conns := (net_conns n)(c \<mapsto> k)\<rparr>"]) auto
    next
      case False
      then show ?thesis
        using Accept b dom by (intro quiet_refines [OF assms(1-3), where n' = n]) (auto simp: on_accept_def)
    qed
  next
    case (ReadDone c chunk)
    then show ?thesis using read_refines [of split p h d n c chunk mem] assms(1,2,4) by simp
  next
    case (ReadAborted c)
    obtain k where k: "net_conns n c = Some k" using assms(2) ReadAborted by (auto split: option.splits)
    then show ?thesis
      using b [of c] b dom ReadAborted
      by (intro quiet_refines [OF assms(1-3), where n' = "n\<lparr>net_conns := (net_conns n)(c \<mapsto> read_over k)\<rparr>"])
         (auto simp: on_connection_def)
  next
    case (WriteDone c)
    obtain k where k: "net_conns n c = Some k" "con_writes k \<noteq> []" using assms(2) WriteDone by (auto split: option.splits)
    then have "in_step c h (Suc (d c)) (write_over k)" using b [of c] write_over_in_step [of c h "d c" k] by simp
    with k show ?thesis
      using b [of c] b dom WriteDone
      by (intro quiet_refines [OF assms(1-3), where n' = "n\<lparr>net_conns := (net_conns n)(c \<mapsto> write_over k)\<rparr>"])
         (auto simp: on_connection_def)
  qed (use assms(3) in \<open>simp_all add: orderly_def\<close>)
qed

lemma run_refines:
  "net_steps split mem n es r \<Longrightarrow> list_all orderly es \<Longrightarrow> tracks split p h d n \<Longrightarrow>
   list_all (\<lambda>q. self_contained (snd q)) (arrivals p es) \<Longrightarrow>
   follows r (run_any split (arrivals p es) (subscriptions (srv_broker (net_server n))))
     (\<lambda>outs n'. \<exists>p'. tracks split p' (h @ concat outs) (\<lambda>c. d c + writes_done c es) n')"
proof (induction arbitrary: p h d rule: net_steps.induct)
  case (none n)
  then show ?case by (auto simp: follows_Inr)
next
  case (step e n n1 es r)
  have good: "list_all (\<lambda>q. self_contained (snd q)) (completed p e)"
    "list_all (\<lambda>q. self_contained (snd q)) (arrivals (left_over p e) es)" using step.prems(3) by simp_all
  note ev = event_refines [OF step.prems(2) step.hyps(1) _ good(1), of mem]
  then obtain outs1 where 1: "run_any split (completed p e) (subscriptions (srv_broker (net_server n))) = Inr (subscriptions (srv_broker (net_server n1)), map mset outs1)"
    "tracks split (left_over p e) (h @ concat outs1) (\<lambda>c. d c + writes_done c [e]) n1"
    using step.prems(1) step.hyps(2) by (auto simp: follows_def split: sum.splits)
  show ?case
  proof (cases "run_any split (arrivals (left_over p e) es) (subscriptions (srv_broker (net_server n1)))")
    case (Inl f)
    with step.IH [OF _ 1(2) good(2)] step.prems(1) 1(1) show ?thesis by (simp add: follows_Inl run_any_append)
  next
    case (Inr q)
    with step.IH [OF _ 1(2) good(2)] step.prems(1) obtain n' outs2 p' where
      2: "r = Inr n'" "q = (subscriptions (srv_broker (net_server n')), map mset outs2)"
      "tracks split p' ((h @ concat outs1) @ concat outs2) (\<lambda>c. d c + writes_done c [e] + writes_done c es) n'"
      by (cases q) (auto simp: follows_Inr)
    have "tracks split p' (h @ concat (outs1 @ outs2)) (\<lambda>c. d c + writes_done c (e # es)) n'"
      using 2(3) by (simp add: add.assoc)
    moreover have "run_any split (arrivals p (e # es)) (subscriptions (srv_broker (net_server n)))
        = Inr (subscriptions (srv_broker (net_server n')), map mset (outs1 @ outs2))"
      using Inr 1(1) 2(2) by (simp add: run_any_append)
    ultimately show ?thesis
      using 2(1) unfolding follows_def by (simp only: sum.case prod.case) blast
  qed
next
  case (fault e n f)
  have good: "list_all (\<lambda>q. self_contained (snd q)) (completed p e)" using fault.prems(3) by simp
  from event_refines [OF fault.prems(2) fault.hyps(1) _ good, of mem] fault.prems(1) fault.hyps(2)
  show ?case by (auto simp: follows_def split: sum.splits)
qed

section \<open>The connections that exist\<close>

lemma on_connection_accepting: "on_connection c f n = Inr n' \<Longrightarrow> net_accepting n' = net_accepting n"
  by (auto simp: on_connection_Inr)

lemma perform_all_accepting: "perform_all as n = Inr n' \<Longrightarrow> net_accepting n' = net_accepting n"
proof (induction as arbitrary: n)
  case (Cons a as)
  then obtain n1 where n1: "perform a n = Inr n1" "perform_all as n1 = Inr n'" by (auto simp: returned)
  moreover have "net_accepting n1 = net_accepting n" using n1(1) by (cases a) (auto dest: on_connection_accepting)
  ultimately show ?case using Cons.IH by simp
qed simp

lemma event_connections:
  assumes "net_safe split n" "enabled e n" "orderly e" "net_accepting n" "net_exec split mem e n = Inr n'"
  shows "dom (net_conns n') = dom (net_conns n) \<union> {c. e = Accept c} \<and> net_accepting n' \<and> net_safe split n'"
proof -
  have dom: "dom (net_conns n) \<subseteq> set (net_managed n)" using assms(1) by (simp add: net_safe_def)
  obtain n1 where n1: "handle_event split mem e n = Inr n1" "n' = reap n1"
    using assms(5) by (auto simp: net_exec_def returned)
  have "dom (net_conns n1) = dom (net_conns n) \<union> {c. e = Accept c} \<and> net_accepting n1
      \<and> dom (net_conns n1) \<subseteq> set (net_managed n1)"
  proof (cases e)
    case (Accept c)
    then have "on_accept c n = Inr n1" using n1(1) by simp
    with on_accept_new [OF assms(4), of c] have
      "dom (net_conns n1) = insert c (dom (net_conns n))" "set (net_managed n1) = insert c (set (net_managed n))"
      "net_accepting n1" using assms(4) by auto
    with Accept dom show ?thesis by auto
  next
    case (ReadDone c chunk)
    then have r: "on_read split mem c chunk n = Inr n1" using n1(1) by simp
    then have "net_accepting n1 = net_accepting n"
      by (auto simp: on_read_def returned split: option.splits
          dest!: on_connection_accepting perform_all_accepting)
    with on_read_effect(2,3) [OF _ _ r] assms(1,2,4) ReadDone dom show ?thesis by (simp add: net_safe_def)
  next
    case (ReadAborted c)
    with n1(1) on_connection_same [of c read_over n n1] on_connection_accepting [of c read_over n n1] dom assms(4)
    show ?thesis by (simp add: same_but_flags_def)
  next
    case (WriteDone c)
    with n1(1) on_connection_same [of c write_over n n1] on_connection_accepting [of c write_over n n1] dom assms(4)
    show ?thesis by (simp add: same_but_flags_def)
  qed (use assms(3) in \<open>simp_all add: orderly_def\<close>)
  moreover from this have "n' = n1" using n1(2) reap_managed by blast
  ultimately show ?thesis using net_exec_safe [OF assms(1-3), of mem] assms(5) by simp
qed

lemma run_connections:
  "net_steps split mem n es r \<Longrightarrow> net_safe split n \<Longrightarrow> list_all orderly es \<Longrightarrow> net_accepting n \<Longrightarrow> r = Inr n' \<Longrightarrow>
   dom (net_conns n') = dom (net_conns n) \<union> {c. Accept c \<in> set es}"
proof (induction rule: net_steps.induct)
  case (step e n n1 es r)
  then have "dom (net_conns n1) = dom (net_conns n) \<union> {c. e = Accept c} \<and> net_accepting n1 \<and> net_safe split n1"
    using event_connections [of split n e mem n1] by simp
  with step show ?case by auto
qed simp_all

text \<open>What a run of a new network comes to.\<close>

lemma run_outcome:
  assumes "net_steps split mem (new_network uc) es r" "list_all orderly es"
    and "list_all (\<lambda>q. self_contained (snd q)) (arrivals (\<lambda>_. []) es)"
  shows "case run_any split (arrivals (\<lambda>_. []) es) {#} of
      Inl f \<Rightarrow> r = Inl f
    | Inr (ss, mouts) \<Rightarrow> \<exists>n outs. r = Inr n \<and>
        ss = subscriptions (srv_broker (net_server n)) \<and> mouts = map mset outs \<and>
        dom (net_conns n) = {c. Accept c \<in> set es} \<and>
        (\<forall>c k. net_conns n c = Some k \<longrightarrow>
           con_connected k = ((c, None) \<notin> set (concat outs)) \<and>
           writes_done c es \<le> length (sent c (concat outs)) \<and>
           map view (con_writes k) = drop (writes_done c es) (sent c (concat outs)))"
proof -
  have empty: "subscriptions (srv_broker (net_server (new_network uc))) = {#}"
    by (simp add: new_network_def new_server_def subscriptions_new)
  note f = run_refines [OF assms(1,2) tracks_new assms(3), unfolded empty append_Nil add_0]
  show ?thesis
  proof (cases "run_any split (arrivals (\<lambda>_. []) es) {#}")
    case (Inl e)
    with f show ?thesis by (simp add: follows_Inl)
  next
    case (Inr q)
    with f obtain n outs p' where r: "r = Inr n" "q = (subscriptions (srv_broker (net_server n)), map mset outs)"
      and t: "tracks split p' (concat outs) (\<lambda>c. writes_done c es) n"
      by (cases q) (auto simp: follows_Inr)
    have "in_step c (concat outs) (writes_done c es) k" if "net_conns n c = Some k" for c k
      using t that booked.simps(2) unfolding tracks_def by metis
    moreover have "dom (net_conns n) = {c. Accept c \<in> set es}"
      using run_connections [OF assms(1) net_safe_new assms(2) _ r(1)] by (simp add: new_network_def)
    ultimately show ?thesis using Inr r by (auto simp: in_step_def intro!: exI [of _ outs])
  qed
qed

text \<open>A connection is accepted and reads once.\<close>

lemma run_of_one:
  assumes "int (length chunk) \<le> stream_bytes"
  shows "\<exists>r. net_steps split mem (new_network uc) [Accept c, ReadDone c chunk] r"
proof -
  let ?n0 = "new_network uc"
  have acc: "net_accepting ?n0" by (simp add: new_network_def)
  obtain k where k: "on_accept c ?n0 = Inr (?n0\<lparr>net_managed := List.insert c (net_managed ?n0), net_conns := (net_conns ?n0)(c \<mapsto> k)\<rparr>)"
    "con_reading k" "readableDataSize (con_stream k) = stream_bytes"
    using on_accept_new [OF acc, of c] by (elim exE conjE)
  let ?n1 = "?n0\<lparr>net_managed := List.insert c (net_managed ?n0), net_conns := (net_conns ?n0)(c \<mapsto> k)\<rparr>"
  have e1: "enabled (Accept c) ?n0" by (simp add: new_network_def)
  have x1: "net_exec split mem (Accept c) ?n0 = Inr ?n1"
    using net_exec_returns [OF net_safe_new e1, of split mem ?n1] k(1) by (simp add: orderly_def new_network_def)
  have e2: "enabled (ReadDone c chunk) ?n1" using k assms by simp
  show ?thesis
  proof (cases "net_exec split mem (ReadDone c chunk) ?n1")
    case (Inl f)
    show ?thesis by (rule exI) (rule net_steps.step [OF e1 x1 net_steps.fault [OF e2 Inl]])
  next
    case (Inr n2)
    show ?thesis by (rule exI) (rule net_steps.step [OF e1 x1 net_steps.step [OF e2 Inr net_steps.none]])
  qed
qed

section \<open>The faults of the network\<close>

lemma on_connection_faults: "no_throw (on_connection c f n)"
  by (simp add: on_connection_def split: option.split)

lemma perform_all_faults: "no_throw (perform_all as n)"
proof (induction as arbitrary: n)
  case (Cons a as)
  then show ?case by (cases a) (simp_all add: no_throw_bindE on_connection_faults)
qed simp

lemma stop_each_faults: "no_throw (stop_each cs n)"
  by (induction cs arbitrary: n) (simp_all add: no_throw_bindE on_connection_faults)

lemma on_read_no_throw:
  assumes "net_ok split n" "enabled (ReadDone c chunk) n"
  shows "no_throw (on_read split mem c chunk n)"
proof -
  obtain k where k: "net_conns n c = Some k" "int (length chunk) \<le> readableDataSize (con_stream k)"
    using assms(2) by (auto split: option.splits)
  then have "stream_ok (con_stream k)" using assms(1) by (auto simp: net_ok_def)
  from handle_messages_outcome [OF this k(2), of "newMessage split mem c" "net_server n"]
  have "no_throw (handleMessages split mem (int (length chunk)) c (store_chunk chunk (con_stream k)) (net_server n))"
    using newMessage_faults unfolding handleMessages_def no_throw_def by (fastforce split: sum.splits)
  with k(1) show ?thesis
    by (auto simp: on_read_def no_throw_bindE perform_all_faults on_connection_faults)
qed

lemma net_exec_no_throw:
  assumes "net_ok split n" "enabled e n"
  shows "no_throw (net_exec split mem e n)"
proof -
  have "no_throw (handle_event split mem e n)"
  proof (cases e)
    case (Accept c)
    then show ?thesis
      using stream_bytes_new by (auto simp: on_accept_def manager_start_def no_throw_bindE on_connection_faults)
  next
    case (ReadDone c chunk)
    with assms on_read_no_throw show ?thesis by simp
  qed (simp_all add: no_throw_bindE on_connection_faults manager_stop_def manager_stopAll_def stop_each_faults)
  then show ?thesis by (simp add: net_exec_def no_throw_bindE)
qed

lemma net_steps_types:
  "net_steps split mem n es r \<Longrightarrow> net_ok split n \<Longrightarrow>
   case r of Inr n' \<Rightarrow> net_ok split n' | Inl f \<Rightarrow> f = FailFast \<or> f = Undefined"
proof (induction rule: net_steps.induct)
  case (step e n n1 es r)
  with net_exec_ok [of split n e mem n1] show ?case by simp
next
  case (fault e n f)
  with net_exec_no_throw [of split n e mem] show ?case by simp
qed simp

section \<open>Properties\<close>

text \<open>
  C1. On every run of the network without a failing read and without the stop signal, in
  whatever way the reads and writes of the connections are cut and interleaved and whatever the
  bytes: take the messages in the order in which they became complete, and run the specification
  on them. Where it ends in a fault, the run ends in the same one. Where it does not, there is no
  fault; the subscriptions are those of the specification; and every connection that was accepted
  exists, is connected until its DISCONNECT was served, and has been sent, or has waiting in its
  queue in this order, just the bytes that the calls of the specification send it. The topic of
  a PUBLISH has to lie inside its message, and the bytes of a write are those in its
  buffer when it is started.
\<close>

theorem network_on_any_bytes:
  assumes "net_steps split mem (new_network uc) es r" "list_all orderly es"
    and "list_all (\<lambda>q. self_contained (snd q)) (arrivals (\<lambda>_. []) es)"
  shows "case run_any split (arrivals (\<lambda>_. []) es) {#} of
      Inl f \<Rightarrow> r = Inl f
    | Inr (ss, mouts) \<Rightarrow> \<exists>n outs. r = Inr n \<and>
        ss = subscriptions (srv_broker (net_server n)) \<and> mouts = map mset outs \<and>
        dom (net_conns n) = {c. Accept c \<in> set es} \<and>
        (\<forall>c k. net_conns n c = Some k \<longrightarrow>
           con_connected k = ((c, None) \<notin> set (concat outs)) \<and>
           writes_done c es \<le> length (sent c (concat outs)) \<and>
           map view (con_writes k) = drop (writes_done c es) (sent c (concat outs)))"
  by (rule run_outcome [OF assms])

theorem network_on_any_bytes_witness:
  "net_steps split_slash 0 (new_network True) [Accept (5 :: nat), ReadDone 5 [0xc0, 0, 0x30, 2, 0, 0]] (Inl FailFast)"
proof -
  let ?es = "[Accept (5 :: nat), ReadDone 5 [0xc0, 0, 0x30, 2, 0, 0]]"
  obtain r where run: "net_steps split_slash 0 (new_network True) ?es r"
    using run_of_one [of "[0xc0, 0, 0x30, 2, 0, 0]" split_slash 0 True 5] by (auto simp: stream_bytes_def)
  have fr: "frames [0xc0, 0, 0x30, 2, 0, 0] = ([[0xc0, 0], [0x30, 2, 0, 0]], [])"
    by (simp add: frames.simps frame_length_def)
  then have "run_any split_slash (arrivals (\<lambda>_. []) ?es) {#} = Inl FailFast"
    by (simp add: serve_any_def topic_of_def type_of_code_def)
  with network_on_any_bytes [OF run] run fr show ?thesis
    by (simp add: orderly_def self_contained_def)
qed

text \<open>
  C2. When the messages that become complete on a run as in C1 are well-formed requests, the specification is the
  one of requests: the run meets no fault, ends in the subscriptions that \<open>run_spec\<close> has, and the bytes sent and being sent on every
  connection are, request after request, those that \<open>run_spec\<close> lists for it, answers and
  deliveries. \<open>run_spec\<close> is what this server promises, not all of MQTT: every CONNECT is accepted, a SUBACK
  has one return code however many topics there were, and no PUBLISH is acknowledged.
\<close>

theorem network_refines:
  assumes "net_steps split mem (new_network uc) es r" "list_all orderly es"
    and "arrivals (\<lambda>_. []) es = map on_wire qs" "list_all (\<lambda>q. request_ok (snd q)) qs"
  shows "\<exists>n outs. r = Inr n \<and>
    run_spec split qs {#} = (subscriptions (srv_broker (net_server n)), map mset outs) \<and>
    dom (net_conns n) = {c. Accept c \<in> set es} \<and>
    (\<forall>c k. net_conns n c = Some k \<longrightarrow>
       con_connected k = ((c, None) \<notin> set (concat outs)) \<and>
       writes_done c es \<le> length (sent c (concat outs)) \<and>
       map view (con_writes k) = drop (writes_done c es) (sent c (concat outs)))"
proof -
  have "list_all (\<lambda>q. self_contained (snd q)) (arrivals (\<lambda>_. []) es)"
    using assms(3,4) wire_self_contained by (auto simp: list_all_iff on_wire_def)
  note out = run_outcome [OF assms(1,2) this]
  have "run_any split (arrivals (\<lambda>_. []) es) {#} = Inr (run_spec split qs {#})"
    using run_any_requests [OF server_ok_new assms(4), of split True] assms(3)
    by (simp add: new_server_def subscriptions_new)
  with out show ?thesis by (cases "run_spec split qs {#}") auto
qed

theorem network_refines_witness:
  "\<exists>n k. net_steps split_slash 0 (new_network True) [Accept (5 :: nat), ReadDone 5 [0xc0, 0]] (Inr n) \<and>
     net_conns n 5 = Some k \<and> map view (con_writes k) = [[0xd0, 0]]"
proof -
  let ?es = "[Accept (5 :: nat), ReadDone 5 [0xc0, 0]]"
  obtain r where run: "net_steps split_slash 0 (new_network True) ?es r"
    using run_of_one [of "[0xc0, 0]" split_slash 0 True 5] by (auto simp: stream_bytes_def)
  have fr: "frames [0xc0, 0] = ([[0xc0, 0]], [])" by (simp add: frames.simps frame_length_def)
  have "\<exists>n. r = Inr n \<and> dom (net_conns n) = {5} \<and> (\<forall>k. net_conns n 5 = Some k \<longrightarrow> map view (con_writes k) = [[0xd0, 0]])"
    using network_refines [OF run, of "[(5, Pingreq)]"] by (auto simp: fr on_wire_def orderly_def)
  then obtain n where n: "r = Inr n" "dom (net_conns n) = {5}"
    "\<forall>k. net_conns n 5 = Some k \<longrightarrow> map view (con_writes k) = [[0xd0, 0]]" by blast
  then obtain k where "net_conns n 5 = Some k" by (metis domD singletonI)
  with run n show ?thesis by blast
qed

text \<open>
  C3. Which messages end the program: such a run ends without a fault exactly when none of the
  messages that became complete is a PUBLISH of four bytes or a SUBSCRIBE or UNSUBSCRIBE in whose
  bytes the parser finds no message. No other bytes, and no order of the events, lead to a fault.
\<close>

theorem fault_free_exactly:
  assumes "net_steps split mem (new_network uc) es r" "list_all orderly es"
    and "list_all (\<lambda>q. self_contained (snd q)) (arrivals (\<lambda>_. []) es)"
  shows "(\<exists>n. r = Inr n) = list_all (\<lambda>q. harmless (snd q)) (arrivals (\<lambda>_. []) es)"
  using run_outcome [OF assms] run_any_harmless [OF assms(3), of split "{#}"]
  by (cases "run_any split (arrivals (\<lambda>_. []) es) {#}") (auto split: prod.splits)

theorem fault_free_exactly_witness:
  "\<exists>n. net_steps split_slash 0 (new_network True) [Accept (5 :: nat), ReadDone 5 [0xf0, 1, 7, 0x30, 0, 0x10]] (Inr n)"
proof -
  let ?es = "[Accept (5 :: nat), ReadDone 5 [0xf0, 1, 7, 0x30, 0, 0x10]]"
  obtain r where run: "net_steps split_slash 0 (new_network True) ?es r"
    using run_of_one [of "[0xf0, 1, 7, 0x30, 0, 0x10]" split_slash 0 True 5] by (auto simp: stream_bytes_def)
  have "frames [0xf0, 1, 7, 0x30, 0, 0x10] = ([[0xf0, 1, 7], [0x30, 0]], [0x10])"
    by (simp add: frames.simps frame_length_def)
  with fault_free_exactly [OF run] have "\<exists>n. r = Inr n"
    by (simp add: orderly_def self_contained_def harmless_def type_of_code_def)
  with run show ?thesis by blast
qed

text \<open>
  C7. On every run from a well-formed network, whatever the events, failing reads and the stop
  signal included, and whatever the bytes: every state is well-formed, which means that the broker has its
  invariant, the stream of every connection is well-formed, and the manager holds only
  connections that exist; no handler throws an exception or runs forever.
\<close>

theorem runs_keep_types:
  assumes "net_steps split mem n es r" "net_ok split n"
  shows "case r of
      Inr n' \<Rightarrow> server_ok split (net_server n') \<and> (\<forall>c k. net_conns n' c = Some k \<longrightarrow> stream_ok (con_stream k))
        \<and> set (net_managed n') \<subseteq> dom (net_conns n')
    | Inl f \<Rightarrow> f = FailFast \<or> f = Undefined"
  using net_steps_types [OF assms] by (auto simp: net_ok_def split: sum.splits)

theorem runs_keep_types_witness:
  "\<exists>n'. net_steps split_slash 0 a_network [ReadFailed 6] (Inr n') \<and> set (net_managed n') \<subseteq> dom (net_conns n')"
proof -
  obtain n' where "net_exec split_slash 0 (ReadFailed 6) a_network = Inr n'"
    using read_failed_dangles [of a_network 6 a_connection] by (auto simp: a_network_def a_connection_def)
  then have run: "net_steps split_slash 0 a_network [ReadFailed 6] (Inr n')"
    by (auto intro!: net_steps.intros simp: a_network_def a_connection_def)
  from runs_keep_types [OF run a_network_ok] run show ?thesis by auto
qed

end
