(* ===== verification/Program.thy ===== *)
theory Program
  imports NetworkFacts
begin

text \<open>
  \<^verbatim>\<open>src/main.cpp\<close>: the server is built, with the cache when there is an argument, and run. \<^verbatim>\<open>run\<close>
  returns when no handler is left to call. The theory follows a run through the stop signal to the
  end of the process.
\<close>

section \<open>main\<close>

definition uses_cache :: "int \<Rightarrow> bool" where
  "uses_cache argc \<longleftrightarrow> argc > 1"

definition main_server :: "int \<Rightarrow> 'c network" where
  "main_server argc = new_network (uses_cache argc)"

text \<open>
  What the process returns, if it does: an exception is caught, a failed assertion calls
  \<^verbatim>\<open>std::terminate\<close>.
\<close>

definition exit_code :: "'c network result \<Rightarrow> nat option" where
  "exit_code r = (case r of Inr n \<Rightarrow> Some 0
     | Inl e \<Rightarrow> if e = LengthError \<or> e = NarrowingError then Some 1 else None)"

text \<open>A run of the server to its end: nothing is accepted, and no operation is under way.\<close>

definition quiescent :: "'c network \<Rightarrow> bool" where
  "quiescent n \<longleftrightarrow> \<not> net_accepting n \<and>
     (\<forall>c k. net_conns n c = Some k \<longrightarrow> \<not> con_reading k \<and> con_writes k = [])"

section \<open>Open connections are managed\<close>

text \<open>\<open>n'\<close> has no connection and no open socket that \<open>n\<close> does not have.\<close>

definition calmer :: "'c network \<Rightarrow> 'c network \<Rightarrow> bool" where
  "calmer n n' \<longleftrightarrow> net_managed n' = net_managed n \<and> net_accepting n' = net_accepting n \<and>
     (\<forall>c k'. net_conns n' c = Some k' \<longrightarrow> (\<exists>k. net_conns n c = Some k \<and> (con_open k' \<longrightarrow> con_open k)))"

lemma calmer_refl: "calmer n n" by (auto simp: calmer_def)

lemma calmer_trans: "calmer n n' \<Longrightarrow> calmer n' n'' \<Longrightarrow> calmer n n''"
  unfolding calmer_def by metis

lemma con_open_keep [simp]:
  "con_open (con_doRead k) = con_open k" "\<not> con_open (con_stop k)" "con_open (con_newMessage sp k) = con_open k"
  "\<not> con_open (con_disconnect k)" "con_open (read_over k) = con_open k" "con_open (write_over k) = con_open k"
  by (simp_all add: con_doRead_def con_stop_def con_newMessage_def con_disconnect_def read_over_def write_over_def)

lemma on_connection_calmer:
  "on_connection c f n = Inr n' \<Longrightarrow> (\<And>k. con_open (f k) \<Longrightarrow> con_open k) \<Longrightarrow> calmer n n'"
  by (auto simp: on_connection_Inr calmer_def split: if_splits)

lemma perform_all_calmer: "perform_all as n = Inr n' \<Longrightarrow> calmer n n'"
proof (induction as arbitrary: n)
  case (Cons a as)
  then obtain n1 where n1: "perform a n = Inr n1" "perform_all as n1 = Inr n'" by (auto simp: returned)
  have "calmer n n1" using n1(1) by (cases a) (auto elim!: on_connection_calmer)
  from calmer_trans [OF this Cons.IH [OF n1(2)]] show ?case .
qed (simp add: calmer_refl)

lemma stop_each_closes:
  "stop_each cs n = Inr n' \<Longrightarrow> calmer n n' \<and> (\<forall>c k. c \<in> set cs \<longrightarrow> net_conns n' c = Some k \<longrightarrow> \<not> con_open k)"
proof (induction cs arbitrary: n)
  case (Cons c cs)
  then obtain n1 where n1: "on_connection c con_stop n = Inr n1" "stop_each cs n1 = Inr n'" by (auto simp: returned)
  have c: "calmer n n1" using n1(1) by (rule on_connection_calmer) simp
  have n': "calmer n1 n'" "\<forall>d k. d \<in> set cs \<longrightarrow> net_conns n' d = Some k \<longrightarrow> \<not> con_open k"
    using Cons.IH [OF n1(2)] by simp_all
  have "calmer n n'" using c n'(1) by (rule calmer_trans)
  moreover have "\<not> con_open k" if "net_conns n' c = Some k" for k
  proof -
    obtain k1 where "net_conns n1 c = Some k1" "con_open k \<longrightarrow> con_open k1"
      using n'(1) \<open>net_conns n' c = Some k\<close> unfolding calmer_def by blast
    with n1(1) show ?thesis by (auto simp: on_connection_Inr)
  qed
  ultimately show ?case using n'(2) by auto
qed (simp add: calmer_refl)

lemma on_read_calmer: "on_read split mem c chunk n = Inr n' \<Longrightarrow> calmer n n'"
proof -
  assume "on_read split mem c chunk n = Inr n'"
  then obtain k st srv acts n1 where k: "net_conns n c = Some k"
    and n1: "perform_all acts (n\<lparr>net_server := srv, net_conns := (net_conns n)(c \<mapsto> k\<lparr>con_stream := st, con_reading := False\<rparr>)\<rparr>) = Inr n1"
      "on_connection c con_doRead n1 = Inr n'"
    by (auto simp: on_read_def returned split: option.splits)
  let ?n = "n\<lparr>net_server := srv, net_conns := (net_conns n)(c \<mapsto> k\<lparr>con_stream := st, con_reading := False\<rparr>)\<rparr>"
  have "calmer n ?n" using k by (simp add: calmer_def)
  moreover have "calmer n1 n'" using n1(2) by (rule on_connection_calmer) simp
  ultimately show ?thesis using perform_all_calmer [OF n1(1)] calmer_trans by metis
qed

definition open_managed :: "'c network \<Rightarrow> bool" where
  "open_managed n \<longleftrightarrow> (\<forall>c k. net_conns n c = Some k \<longrightarrow> con_open k \<longrightarrow> c \<in> set (net_managed n))"

lemma calmer_managed: "calmer n n' \<Longrightarrow> open_managed n \<Longrightarrow> open_managed n'"
  unfolding calmer_def open_managed_def by metis

text \<open>An event either leaves the network no more open than it was, or is one of three.\<close>

lemma handle_event_cases:
  assumes "handle_event split mem e n = Inr n'"
  obtains (calm) "calmer n n'" "e \<noteq> StopSignal"
    | (accepted) c where "e = Accept c" "net_accepting n" "net_managed n' = List.insert c (net_managed n)"
        "\<forall>d k. d \<noteq> c \<longrightarrow> net_conns n' d = Some k \<longrightarrow> net_conns n d = Some k"
    | (failed) c where "e = ReadFailed c" "net_managed n' = removeAll c (net_managed n)"
        "net_accepting n' = net_accepting n" "dom (net_conns n') = dom (net_conns n)"
        "\<forall>d k. net_conns n' d = Some k \<longrightarrow> con_open k \<longrightarrow> d \<noteq> c \<and> (\<exists>k. net_conns n d = Some k \<and> con_open k)"
    | (stop) n1 where "e = StopSignal" "net_managed n' = []" "\<not> net_accepting n'" "calmer (n\<lparr>net_accepting := False\<rparr>) n1"
        "net_conns n' = net_conns n1" "\<forall>c k. c \<in> set (net_managed n) \<longrightarrow> net_conns n' c = Some k \<longrightarrow> \<not> con_open k"
proof (cases e)
  case (Accept c)
  then show thesis
    using assms that(1,2) calmer_refl
    by (auto simp: on_accept_def manager_start_def returned split: if_splits)
next
  case (ReadDone c chunk)
  then show thesis using assms on_read_calmer that(1) by fastforce
next
  case (ReadFailed c)
  with assms obtain n1 where n1: "on_connection c read_over n = Inr n1" "manager_stop c n1 = Inr n'"
    by (auto simp: returned)
  then obtain k where k: "net_conns n c = Some k" "net_managed n' = removeAll c (net_managed n)" "net_accepting n' = net_accepting n"
    "net_conns n' = (net_conns n)(c \<mapsto> con_stop (read_over k))"
    by (auto simp: manager_stop_def on_connection_Inr)
  then have "\<forall>d k. net_conns n' d = Some k \<longrightarrow> con_open k \<longrightarrow> d \<noteq> c \<and> (\<exists>k. net_conns n d = Some k \<and> con_open k)"
    by auto
  moreover have "dom (net_conns n') = dom (net_conns n)" using k(1,4) by auto
  ultimately show thesis using k(2,3) ReadFailed that(3) by simp
next
  case (ReadAborted c)
  have "calmer n n'" using assms ReadAborted on_connection_calmer [of c read_over n n'] by simp
  with ReadAborted that(1) show thesis by simp
next
  case (WriteDone c)
  have "calmer n n'" using assms WriteDone on_connection_calmer [of c write_over n n'] by simp
  with WriteDone that(1) show thesis by simp
next
  case StopSignal
  let ?n = "n\<lparr>net_accepting := False\<rparr>"
  obtain n1 where n1: "stop_each (net_managed ?n) ?n = Inr n1" "n' = n1\<lparr>net_managed := []\<rparr>"
    using assms StopSignal by (auto simp: manager_stopAll_def returned)
  have "calmer ?n n1" using stop_each_closes [OF n1(1)] by simp
  with stop_each_closes [OF n1(1)] n1(2) StopSignal that(4) [of n1] show thesis by (simp add: calmer_def)
qed

lemma reap_calmer: "calmer n (reap n)"
  by (auto simp: calmer_def reap_conns)

lemma open_managed_new: "open_managed (new_network uc)"
  by (simp add: open_managed_def new_network_def)

lemma net_exec_managed:
  assumes "net_exec split mem e n = Inr n'" "open_managed n"
  shows "open_managed n'"
proof -
  obtain n1 where n1: "handle_event split mem e n = Inr n1" "n' = reap n1"
    using assms(1) by (auto simp: net_exec_def returned)
  from n1(1) have "open_managed n1"
  proof (cases rule: handle_event_cases)
    case calm
    with assms(2) show ?thesis by (blast intro: calmer_managed)
  next
    case (accepted c)
    with assms(2) show ?thesis unfolding open_managed_def by (metis insertI1 insertI2 List.set_insert)
  next
    case (failed c)
    with assms(2) show ?thesis by (fastforce simp: open_managed_def)
  next
    case (stop n2)
    with assms(2) show ?thesis unfolding open_managed_def calmer_def by fastforce
  qed
  with n1(2) reap_calmer calmer_managed show ?thesis by metis
qed

section \<open>After the stop signal\<close>

text \<open>Nothing is accepted, the manager is empty, every socket is closed.\<close>

definition shut :: "'c network \<Rightarrow> bool" where
  "shut n \<longleftrightarrow> \<not> net_accepting n \<and> net_managed n = [] \<and> (\<forall>c k. net_conns n c = Some k \<longrightarrow> \<not> con_open k \<and> held n c k)"

lemma net_exec_shut:
  assumes "net_exec split mem e n = Inr n'" "shut n"
  shows "shut n'"
proof -
  obtain n1 where n1: "handle_event split mem e n = Inr n1" "n' = reap n1"
    using assms(1) by (auto simp: net_exec_def returned)
  from n1(1) have "\<not> net_accepting n1 \<and> net_managed n1 = [] \<and> (\<forall>c k. net_conns n1 c = Some k \<longrightarrow> \<not> con_open k)"
  proof (cases rule: handle_event_cases)
    case calm
    with assms(2) show ?thesis unfolding calmer_def shut_def by metis
  next
    case (accepted c)
    with assms(2) show ?thesis by (simp add: shut_def)
  next
    case (failed c)
    with assms(2) show ?thesis by (fastforce simp: shut_def)
  next
    case (stop n2)
    with assms(2) show ?thesis unfolding calmer_def shut_def by fastforce
  qed
  with n1(2) show ?thesis by (auto simp: shut_def reap_conns held_def)
qed

lemma stop_shuts:
  assumes "net_exec split mem StopSignal n = Inr n'" "open_managed n"
  shows "shut n'"
proof -
  obtain n1 where n1: "handle_event split mem StopSignal n = Inr n1" "n' = reap n1"
    using assms(1) by (auto simp: net_exec_def returned)
  from n1(1) have "\<not> net_accepting n1 \<and> net_managed n1 = [] \<and> (\<forall>c k. net_conns n1 c = Some k \<longrightarrow> \<not> con_open k)"
  proof (cases rule: handle_event_cases)
    case (stop n2)
    with assms(2) show ?thesis unfolding calmer_def open_managed_def by fastforce
  qed simp_all
  with n1(2) show ?thesis by (auto simp: shut_def reap_conns held_def)
qed

lemma run_shut:
  "net_steps split mem n es r \<Longrightarrow> r = Inr n' \<Longrightarrow> open_managed n \<Longrightarrow> StopSignal \<in> set es \<or> shut n \<Longrightarrow> shut n'"
proof (induction rule: net_steps.induct)
  case (step e n n1 es r)
  then have "open_managed n1" using net_exec_managed by blast
  moreover have "StopSignal \<in> set es \<or> shut n1"
    using step.hyps(2) step.prems stop_shuts net_exec_shut by fastforce
  ultimately show ?case using step by blast
qed simp_all

section \<open>How long the end takes\<close>

lemma net_exec_finite:
  assumes "net_exec split mem e n = Inr n'" "finite (dom (net_conns n))"
  shows "finite (dom (net_conns n'))"
proof -
  obtain n1 where n1: "handle_event split mem e n = Inr n1" "n' = reap n1"
    using assms(1) by (auto simp: net_exec_def returned)
  from n1(1) obtain A where "finite A" "dom (net_conns n1) \<subseteq> A \<union> dom (net_conns n)"
  proof (cases rule: handle_event_cases)
    case calm
    with that [of "{}"] show ?thesis by (fastforce simp: calmer_def)
  next
    case (accepted c)
    with that [of "{c}"] show ?thesis by fastforce
  next
    case (failed c)
    with that [of "{}"] show ?thesis by simp
  next
    case (stop n2)
    with that [of "{}"] show ?thesis by (fastforce simp: calmer_def)
  qed
  then have "finite (dom (net_conns n1))" using assms(2) by (meson finite_UnI finite_subset)
  moreover have "dom (net_conns n') \<subseteq> dom (net_conns n1)" using n1(2) by (auto simp: reap_conns)
  ultimately show ?thesis by (rule rev_finite_subset)
qed

lemma run_finite:
  "net_steps split mem n es r \<Longrightarrow> r = Inr n' \<Longrightarrow> finite (dom (net_conns n)) \<Longrightarrow> finite (dom (net_conns n'))"
  by (induction rule: net_steps.induct) (auto dest: net_exec_finite)

text \<open>The operations under way, and the handlers that end one without starting another.\<close>

definition operations :: "connection option \<Rightarrow> nat" where
  "operations x = (case x of None \<Rightarrow> 0 | Some k \<Rightarrow> (if con_reading k then 1 else 0) + length (con_writes k))"

definition pending_operations :: "'c network \<Rightarrow> nat" where
  "pending_operations n = (\<Sum>c\<in>dom (net_conns n). operations (net_conns n c))"

definition ending :: "'c event \<Rightarrow> bool" where
  "ending e = (case e of ReadFailed c \<Rightarrow> True | ReadAborted c \<Rightarrow> True | WriteDone c \<Rightarrow> True | _ \<Rightarrow> False)"

lemma pending_less:
  assumes "finite (dom (net_conns n))" "dom (net_conns n') \<subseteq> dom (net_conns n)" "net_conns n c = Some k"
    and "operations (net_conns n' c) < operations (Some k)" "\<And>d. operations (net_conns n' d) \<le> operations (net_conns n d)"
  shows "pending_operations n' < pending_operations n"
proof -
  have "pending_operations n' = (\<Sum>d\<in>dom (net_conns n). operations (net_conns n' d))"
    unfolding pending_operations_def using assms(1,2)
    by (intro sum.mono_neutral_left) (auto simp: operations_def split: option.splits)
  also have "\<dots> < pending_operations n"
    unfolding pending_operations_def using assms by (intro sum_strict_mono_ex1) (auto intro!: bexI [of _ c])
  finally show ?thesis .
qed

lemma reap_operations: "operations (net_conns (reap n) c) = operations (net_conns n c)"
  by (auto simp: operations_def reap_def held_def split: option.splits)

lemma ending_step:
  assumes "net_exec split mem e n = Inr n'" "enabled e n" "ending e" "finite (dom (net_conns n))"
  shows "pending_operations n' < pending_operations n"
proof -
  obtain n1 where n1: "handle_event split mem e n = Inr n1" "n' = reap n1"
    using assms(1) by (auto simp: net_exec_def returned)
  obtain c k k1 where k: "net_conns n c = Some k" "net_conns n1 = (net_conns n)(c \<mapsto> k1)"
    "operations (Some k1) < operations (Some k)"
    using n1(1) assms(2,3)
    by (cases e) (auto simp: ending_def operations_def on_connection_Inr returned manager_stop_def con_stop_def
        read_over_def write_over_def neq_Nil_conv)
  have "dom (net_conns n') \<subseteq> dom (net_conns n1)" using n1(2) by (auto simp: reap_conns)
  then have "dom (net_conns n') \<subseteq> dom (net_conns n)" using k(1,2) by (auto simp: insert_absorb)
  with k n1(2) show ?thesis
    by (intro pending_less [OF assms(4) _ k(1)]) (auto simp: reap_operations)
qed

text \<open>
  Every handler but that of a read with bytes. The handler of \<^verbatim>\<open>async_accept\<close>, which the stop aborts, is
  among them; it looks at \<^verbatim>\<open>is_open\<close> and returns.
\<close>

definition no_bytes :: "'c event \<Rightarrow> bool" where
  "no_bytes e = (case e of ReadDone c chunk \<Rightarrow> False | _ \<Rightarrow> True)"

lemma shut_reap: "shut n \<Longrightarrow> reap n = n"
  by (cases n) (auto simp: reap_def shut_def fun_eq_iff split: option.splits)

lemma shut_event:
  assumes "shut n" "enabled e n" "no_bytes e"
  obtains n' where "net_exec split mem e n = Inr n'" "\<not> ending e \<Longrightarrow> n' = n"
proof (cases e)
  case (Accept c)
  with assms(1) show thesis
    by (intro that [of n]) (simp_all add: net_exec_def on_accept_def shut_reap, simp add: shut_def)
next
  case (ReadFailed c)
  with assms(2) have "\<exists>n'. net_exec split mem e n = Inr n'"
    by (auto simp: net_exec_def on_connection_def manager_stop_def split: option.splits)
  with ReadFailed show thesis using that by (auto simp: ending_def)
next
  case (ReadAborted c)
  with assms(2) have "\<exists>n'. net_exec split mem e n = Inr n'"
    by (auto simp: net_exec_def on_connection_def split: option.splits)
  with ReadAborted show thesis using that by (auto simp: ending_def)
next
  case (WriteDone c)
  with assms(2) have "\<exists>n'. net_exec split mem e n = Inr n'"
    by (auto simp: net_exec_def on_connection_def split: option.splits)
  with WriteDone show thesis using that by (auto simp: ending_def)
qed (use assms in \<open>simp_all add: no_bytes_def shut_def\<close>)

lemma shut_steps:
  "net_steps split mem n es r \<Longrightarrow> shut n \<Longrightarrow> finite (dom (net_conns n)) \<Longrightarrow> list_all no_bytes es \<Longrightarrow>
   \<exists>n'. r = Inr n' \<and> shut n' \<and> finite (dom (net_conns n')) \<and>
     length (filter ending es) + pending_operations n' \<le> pending_operations n"
proof (induction rule: net_steps.induct)
  case (step e n n1 es r)
  have "shut n1" "finite (dom (net_conns n1))"
    using step.hyps(2) step.prems net_exec_shut net_exec_finite by blast+
  with step obtain n' where n': "r = Inr n'" "shut n'" "finite (dom (net_conns n'))"
    "length (filter ending es) + pending_operations n' \<le> pending_operations n1" by auto
  have "(if ending e then 1 else 0) + pending_operations n1 \<le> pending_operations n"
  proof (cases "ending e")
    case True
    then show ?thesis using ending_step [OF step.hyps(2,1) True step.prems(2)] by simp
  next
    case False
    then show ?thesis using shut_event [OF step.prems(1) step.hyps(1), of split mem] step.hyps(2) step.prems(3) by auto
  qed
  with n' show ?case by (auto split: if_splits)
next
  case (fault e n f)
  then show ?case using shut_event [of n e split mem] by auto
qed auto

text \<open>
  While there is a connection an operation is under way, and there is a handler to call that ends one and
  needs nothing of the other side: its socket is closed, so that a read of it is aborted.
\<close>

lemma shut_progress:
  assumes "shut n" "net_conns n c = Some k"
  shows "\<exists>d. enabled (ReadAborted d) n \<or> enabled (WriteDone d) n" and "0 < operations (net_conns n c)"
proof -
  have k: "con_reading k \<or> con_writes k \<noteq> []" "\<not> con_open k" using assms by (fastforce simp: shut_def held_def)+
  then show "\<exists>d. enabled (ReadAborted d) n \<or> enabled (WriteDone d) n"
    using assms(2) by (intro exI [of _ c]) auto
  show "0 < operations (net_conns n c)" using assms(2) k(1) by (auto simp: operations_def)
qed

lemma shut_quiet:
  assumes "shut n" "finite (dom (net_conns n))" "pending_operations n = 0"
  shows "net_conns n = Map.empty"
proof
  fix c
  show "net_conns n c = None"
  proof (rule ccontr)
    assume "net_conns n c \<noteq> None"
    then obtain k where "net_conns n c = Some k" by blast
    with shut_progress(2) [OF assms(1) this] assms(2,3) show False
      unfolding pending_operations_def by (metis domI less_irrefl sum_eq_0_iff)
  qed
qed

section \<open>Properties\<close>

text \<open>
  C8. After the stop signal the program comes to its end. Whichever handlers are called, in any order, as
  long as no bytes arrive (reads that fail or are aborted, writes that are over, the accept that the stop aborts):
  none of them faults, and each but that of the accept ends an operation that was under way and
  starts none, so that there are at most as many as operations were under way. As long as one is
  under way there is a handler left to call, whatever the other side of the connection does: a read that is
  aborted, because its socket is closed, or the end of a write. When none is, every connection is destroyed and \<^verbatim>\<open>run\<close>
  returns.
\<close>

theorem shutdown_ends:
  assumes "net_steps split mem (main_server argc) es (Inr n)" "StopSignal \<in> set es"
    and "net_steps split mem n fs r" "list_all no_bytes fs"
  shows "\<exists>n'. r = Inr n' \<and> length (filter ending fs) + pending_operations n' \<le> pending_operations n \<and>
    (if pending_operations n' = 0 then net_conns n' = Map.empty \<and> quiescent n'
     else \<exists>c. enabled (ReadAborted c) n' \<or> enabled (WriteDone c) n')"
proof -
  have shut: "shut n"
    using run_shut [OF assms(1) refl] assms(2) by (simp add: main_server_def open_managed_new)
  have fin: "finite (dom (net_conns n))"
    using run_finite [OF assms(1) refl] by (simp add: main_server_def new_network_def)
  from shut_steps [OF assms(3) shut fin assms(4)] obtain n' where
    n': "r = Inr n'" "shut n'" "finite (dom (net_conns n'))"
      "length (filter ending fs) + pending_operations n' \<le> pending_operations n" by blast
  show ?thesis
  proof (cases "pending_operations n' = 0")
    case True
    with shut_quiet [OF n'(2,3)] have "net_conns n' = Map.empty" by simp
    with n' True show ?thesis by (simp add: quiescent_def shut_def)
  next
    case False
    then obtain c k where "net_conns n' c = Some k"
      by (metis pending_operations_def domD ex_in_conv sum.empty)
    from shut_progress(1) [OF n'(2) this] n' False show ?thesis by simp
  qed
qed

theorem shutdown_ends_witness:
  "\<exists>n n'. net_steps split_slash 0 (main_server 2) [Accept (5 :: nat), StopSignal] (Inr n) \<and>
     net_steps split_slash 0 n [Accept 6, ReadFailed 5] (Inr n') \<and> 1 \<le> pending_operations n"
proof -
  let ?n0 = "main_server 2 :: nat network"
  have "net_accepting ?n0" by (simp add: main_server_def new_network_def)
  from on_accept_new [OF this, of 5] obtain k where
    k: "on_accept 5 ?n0 = Inr (?n0\<lparr>net_managed := List.insert 5 (net_managed ?n0), net_conns := (net_conns ?n0)(5 \<mapsto> k)\<rparr>)"
      "con_reading k" by blast
  let ?n1 = "?n0\<lparr>net_managed := [5], net_conns := [5 \<mapsto> k]\<rparr>"
  have acc: "net_exec split_slash 0 (Accept 5) ?n0 = Inr (reap ?n1)"
    using k(1) by (simp add: net_exec_def main_server_def new_network_def)
  have r1: "net_managed (reap ?n1) = [5]" "net_conns (reap ?n1) = [5 \<mapsto> k]" "net_accepting (reap ?n1)"
    by (auto simp: reap_def held_def main_server_def new_network_def fun_eq_iff)
  then obtain n where n: "net_exec split_slash 0 StopSignal (reap ?n1) = Inr n" "net_conns n = [5 \<mapsto> con_stop k]"
    using k(2) by (auto simp: net_exec_def manager_stopAll_def on_connection_def reap_def held_def con_stop_def fun_eq_iff)
  have run: "net_steps split_slash 0 ?n0 [Accept 5, StopSignal] (Inr n)"
    using acc n(1) r1(3) by (auto intro!: net_steps.intros simp: main_server_def new_network_def)
  have "shut n" using run_shut [OF run refl] by (simp add: main_server_def open_managed_new)
  moreover have "enabled (Accept 6) n" "enabled (ReadFailed 5) n" using n(2) k(2) by (simp_all add: con_stop_def)
  ultimately obtain n1 n2 where "net_exec split_slash 0 (Accept 6) n = Inr n" "net_exec split_slash 0 (ReadFailed 5) n = Inr n2"
    using shut_event [of n "Accept 6" split_slash 0] shut_event [of n "ReadFailed 5" split_slash 0]
    by (auto simp: no_bytes_def ending_def)
  then have rest: "net_steps split_slash 0 n [Accept 6, ReadFailed 5] (Inr n2)"
    using \<open>enabled (Accept 6) n\<close> \<open>enabled (ReadFailed 5) n\<close> by (blast intro: net_steps.intros)
  from shutdown_ends [OF run _ rest] run rest show ?thesis by (auto simp: ending_def no_bytes_def)
qed

text \<open>\<^verbatim>\<open>main\<close> never catches an exception: whatever arrives, it does not return \<^verbatim>\<open>1\<close>.\<close>

lemma main_never_catches:
  fixes es :: "'c event list"
  assumes "net_steps split mem (main_server argc) es r"
  shows "exit_code r \<noteq> Some 1"
proof -
  have "net_safe split (main_server argc :: 'c network)" by (simp add: main_server_def net_safe_new)
  then have "net_ok split (main_server argc :: 'c network)" by (simp add: net_safe_def)
  from net_steps_types [OF assms this] show ?thesis by (auto simp: exit_code_def split: sum.splits)
qed

lemma main_never_catches_witness:
  "\<exists>r. net_steps split_slash 0 (main_server 1 :: nat network) [StopSignal] r \<and> exit_code r = Some 0"
proof -
  have run: "net_steps split_slash 0 (main_server 1 :: nat network) [StopSignal] (Inr (reap ((main_server 1)\<lparr>net_accepting := False\<rparr>)))"
    by (auto intro!: net_steps.intros simp: main_server_def new_network_def net_exec_def manager_stopAll_def)
  from main_never_catches [OF run] run show ?thesis by (auto simp: exit_code_def)
qed

end
