(* ===== verification/Lifetimes.thy ===== *)
theory Lifetimes
  imports Network
begin

text \<open>
  What becomes of the bytes behind a span. A span that the server hands to a connection points
  into the buffer of the sender's stream, and \<^verbatim>\<open>Connection::newMessage\<close> gives this memory to
  \<^verbatim>\<open>async_write\<close>, which may read it until its handler is called. The spans of the other theories
  keep the bytes they had when they were made; here the buffer is looked at again later.
\<close>

section \<open>The place of a span\<close>

text \<open>A span into the buffer of a stream, and what the same place holds in a later state of the stream.\<close>

definition points_into :: "stream \<Rightarrow> ubyte span \<Rightarrow> bool" where
  "points_into st sp \<longleftrightarrow> (\<exists>i. m_pdata sp = Ptr (st_buffer st) (int i) \<and> span_ok sp)"

definition later :: "stream \<Rightarrow> ubyte span \<Rightarrow> ubyte list" where
  "later st sp = (case m_pdata sp of Null \<Rightarrow> [] | Ptr _ i \<Rightarrow> take (nat (span_size sp)) (drop (nat i) (st_buffer st)))"

lemma later_now: "points_into st sp \<Longrightarrow> later st sp = view sp"
  by (auto simp: points_into_def later_def view_def)

lemma later_window: "later st (window buf off n) = take n (drop off (st_buffer st))"
  by (simp add: later_def window_def)

text \<open>A forwarded PUBLISH is the very span of the message.\<close>

lemma publish_forwards:
  assumes "span_ok sp" "view sp = b # bs" "drop_bit 4 b = 3" "newMessage split mem c sp s = Inr (s', acts)"
  shows "\<forall>a \<in> set acts. \<exists>d. a = NewMessage d sp"
  using assms(4) unfolding newMessage_publish [OF assms(1-3)]
  by (auto simp: handle_publish_def returned)

section \<open>One message and the beginning of the next\<close>

lemma single_frame:
  assumes "frames bs = ([m], left)"
  shows "frame_length bs \<le> length bs" "m = take (frame_length bs) bs" "left = drop (frame_length bs) bs"
    "frame_length left > length left" "bs = m @ left"
proof -
  show a: "frame_length bs \<le> length bs"
    using assms frames_none [of bs] by (cases "frame_length bs \<le> length bs") auto
  with assms show m: "m = take (frame_length bs) bs" by (simp add: frames_more)
  show "bs = m @ left" using frames_concat [of bs] assms by simp
  then show "left = drop (frame_length bs) bs" using m by (metis append_take_drop_id same_append_eq)
  show "frame_length left > length left" using frames_rest [of bs] assms by simp
qed

text \<open>The message lies at the front of the buffer when the server gets it.\<close>

lemma handle_single:
  assumes "stream_ok st" "int (length chunk) \<le> readableDataSize st" "frames (pending st @ chunk) = ([m], left)"
    and "handle_messages h (int (length chunk)) (store_chunk chunk st) s = Inr (st', s', acts)"
  defines "sp \<equiv> window (st_buffer (store_chunk chunk st)) 0 (length m)"
  shows "h sp s = Inr (s', acts)" "span_ok sp" "view sp = m" "points_into (store_chunk chunk st) sp"
    "st' = keep left (store_chunk chunk st)"
proof -
  let ?st = "store_chunk chunk st" and ?bs = "pending st @ chunk"
  let ?N = "nat (st_begin ?st + int (length chunk))"
  note hm = handle_messages_loop [OF chunk_bounds [OF assms(1,2)]]
  note fr = single_frame [OF assms(3)]
  note more = message_loop_more [OF hm(3,4) fr(1)]
  have l: "length m = frame_length ?bs" unfolding fr(2) using fr(1) by simp
  show "span_ok sp" "view sp = m" unfolding sp_def l using more(5,6) unfolding fr(2) [symmetric] .
  then show "points_into ?st sp" by (auto simp: points_into_def sp_def window_def intro: exI [of _ 0])
  have d: "drop (frame_length ?bs) ?bs = left" using fr(3) by simp
  have e: "0 + length m + (?N - length m) \<le> length (st_buffer ?st)" using hm(3) more(2) l by simp
  have "message_loop h (window (st_buffer ?st) (0 + length m) (?N - length m)) (int (frame_length left)) s1 out
      = Inr (window (st_buffer ?st) (0 + length m) (?N - length m), s1, out)" for s1 out
    using more(4) l d by (intro message_loop_none [OF e _ fr(4)]) simp
  with assms(4) hm(1) [of h s] more(1) [of h s "[]"] l d show "h sp s = Inr (s', acts)"
    by (auto simp: sp_def returned)
  from handle_messages_outcome [OF assms(1,2), of h s] assms(3,4) show "st' = keep left ?st" by simp
qed

section \<open>Properties\<close>

text \<open>
  C26. A PUBLISH is forwarded out of memory that the broker goes on to write. A read that completes a
  PUBLISH and brings the beginning of the next message hands every subscriber a span of the sender's
  buffer; when the handler returns, the copy has put the beginning of the next message over it, and
  the next read overwrites it further. A write that has not been done by then sends these bytes.
\<close>

theorem forwarded_bytes_overwritten:
  assumes "stream_ok st" "int (length chunk) \<le> readableDataSize st" "frames (pending st @ chunk) = ([m], left)"
    and "m = b # bs" "drop_bit 4 b = 3"
    and "handleMessages split mem (int (length chunk)) c (store_chunk chunk st) s = Inr (st', s', acts)"
    and "a \<in> set acts"
  shows "\<exists>d sp. a = NewMessage d sp \<and> points_into (store_chunk chunk st) sp \<and> view sp = m \<and>
    later st' sp = take (length m) (left @ drop (length left) m) \<and>
    (\<forall>chunk'. length m \<le> length (left @ chunk') \<longrightarrow> later (store_chunk chunk' st') sp = take (length m) (left @ chunk'))"
proof -
  note single = handle_single [OF assms(1-3) assms(6) [unfolded handleMessages_def]]
  let ?sp = "window (st_buffer (store_chunk chunk st)) 0 (length m)"
  obtain d where d: "a = NewMessage d ?sp"
    using publish_forwards [OF single(2) _ assms(5) single(1)] single(3) assms(4,7) by auto
  have "take (length m) (st_buffer (store_chunk chunk st)) = m" using single(3) by (simp add: window_view)
  then obtain ys where buf: "st_buffer (store_chunk chunk st) = m @ ys" by (metis append_take_drop_id)
  have "later st' ?sp = take (length m) (left @ drop (length left) m)"
    by (simp add: later_window single(5) keep_def buf)
  moreover have "later (store_chunk chunk' st') ?sp = take (length m) (left @ chunk')"
    if "length m \<le> length (left @ chunk')" for chunk'
    using that by (simp add: later_window single(5) keep_def store_chunk_def)
  ultimately show ?thesis using d single(3,4) by blast
qed

theorem forwarded_bytes_overwritten_witness:
  "\<exists>st' s' acts d sp. handleMessages split_slash 0 10 (6 :: nat) (store_chunk (wire (Publish a_publish) @ [0xc0]) a_stream)
      (net_server a_network) = Inr (st', s', acts) \<and>
    NewMessage d sp \<in> set acts \<and> view sp = wire (Publish a_publish) \<and> later st' sp = 0xc0 # tl (wire (Publish a_publish))"
proof -
  let ?m = "wire (Publish a_publish)"
  have f: "frames (?m @ [0xc0]) = ([?m], [0xc0])"
  proof -
    have "frame_length ?m = length ?m" using a_publish_framed(1) by (simp add: framed_def)
    then show ?thesis by (simp add: frames_single frames_none frame_length_def del: wire.simps)
  qed
  have ok: "server_ok split_slash (net_server a_network)" using a_network_ok by (simp add: net_ok_def)
  obtain s' out where s': "serve_bytes split_slash 0 6 ?m (net_server a_network) = Inr (s', out)"
    "serve_spec split_slash 6 (Publish a_publish) (subscriptions (srv_broker (net_server a_network)))
      = (subscriptions (srv_broker s'), mset out)"
    using serve_bytes_refines [OF ok, of "Publish a_publish" 0 6] a_publish_ok by blast
  have "observe_stream seen (handleMessages split_slash 0 10 6 (store_chunk (?m @ [0xc0]) a_stream) (net_server a_network))
      = Inr (keep [0xc0] (store_chunk (?m @ [0xc0]) a_stream), s', out)"
    using sv.receive_frames [OF a_stream_ok(1), of "?m @ [0xc0]" split_slash 0 6 "net_server a_network"]
      wire_self_contained [OF a_publish_ok] a_publish_framed(2) s'(1)
    by (simp add: a_stream_ok f handleMessages_def del: wire.simps)
  then obtain st' acts where run: "handleMessages split_slash 0 10 6 (store_chunk (?m @ [0xc0]) a_stream) (net_server a_network)
      = Inr (st', s', acts)" "map seen acts = out"
    by (auto simp: observe_stream_def returned)
  have "out \<noteq> []"
    using s'(2) by (auto simp: a_network_def subscribe_names_ok broker_ok_new match_count_def a_publish_def)
  with run(2) obtain a where a: "a \<in> set acts" by (cases acts) auto
  obtain b bs where b: "?m = b # bs" "drop_bit 4 b = 3"
    by (simp add: enc_publish_def enc_header_def a_publish_def a_header_def header_byte_def)
  have len: "int (length (?m @ [0xc0])) = 10" using a_publish_framed(2) by simp
  from forwarded_bytes_overwritten [OF a_stream_ok(1), of "?m @ [0xc0]" ?m "[0xc0]" b bs split_slash 0 6
      "net_server a_network" st' s' acts a] run(1) a b f len
  obtain d sp where "a = NewMessage d sp" "view sp = ?m" "later st' sp = take (length ?m) ([0xc0] @ drop 1 ?m)"
    by (auto simp: a_stream_ok simp del: wire.simps)
  with run(1) a b(1) show ?thesis by auto
qed

end
