(* ===== verification/SerialiserApi.thy ===== *)
theory SerialiserApi
  imports Grain
begin

text \<open>
  What a user of the serialisation library calls: the operators \<^verbatim>\<open><<\<close> and \<^verbatim>\<open>>>\<close> and the named
  operations on top of them (\<^verbatim>\<open>cereal/src/Cerealiser.hpp\<close>, \<^verbatim>\<open>Decerealiser.hpp\<close>). They are
  templates over the type that is passed, whose \<^verbatim>\<open>grain\<close> is the argument \<open>g\<close>. An argument passed as
  \<^verbatim>\<open>const T&\<close> loses its \<^verbatim>\<open>const\<close>, so its value afterwards is part of the result.
\<close>

section \<open>Writing\<close>

definition getBytes :: "cerealiser \<Rightarrow> ubyte list" where
  "getBytes w = w_bytes w"

definition put :: "'a grain \<Rightarrow> 'a \<Rightarrow> cerealiser \<Rightarrow> ('a \<times> cerealiser) result" where
  "put g val w = bindE (g val (Write w)) (\<lambda>(val, c).
     case c of Write w \<Rightarrow> Inr (val, w) | Read _ \<Rightarrow> Inl Undefined)"

definition put_value :: "'a grain \<Rightarrow> 'a \<Rightarrow> cerealiser \<Rightarrow> ('a \<times> cerealiser) result" where
  "put_value g val w = put g val w"

definition put_vector :: "'w::len word grain \<Rightarrow> 'a grain \<Rightarrow> 'a \<Rightarrow> 'a list \<Rightarrow> cerealiser \<Rightarrow> ('a list \<times> cerealiser) result" where
  "put_vector gi g d val w = put (grain_vector_as gi g d) val w"

section \<open>Reading\<close>

definition get :: "'a grain \<Rightarrow> 'a \<Rightarrow> decerealiser \<Rightarrow> ('a \<times> decerealiser) result" where
  "get g val d = bindE (g val (Read d)) (\<lambda>(val, c).
     case c of Read d \<Rightarrow> Inr (val, d) | Write _ \<Rightarrow> Inl Undefined)"

text \<open>\<open>z\<close> is \<^verbatim>\<open>T()\<close>; \<open>obj\<close> is what the constructor makes of the arguments.\<close>

definition read_value :: "'a grain \<Rightarrow> 'a \<Rightarrow> decerealiser \<Rightarrow> ('a \<times> decerealiser) result" where
  "read_value g z d = (let val = z in bindE (get g val d) (\<lambda>(val, d). Inr (val, d)))"

definition value_of :: "'a grain \<Rightarrow> 'a \<Rightarrow> decerealiser \<Rightarrow> ('a \<times> decerealiser) result" where
  "value_of g z d = read_value g z d"

definition createPtr :: "'a grain \<Rightarrow> 'a \<Rightarrow> decerealiser \<Rightarrow> ('a \<times> decerealiser) result" where
  "createPtr g obj d = bindE (get g obj d) (\<lambda>(obj, d). Inr (obj, d))"

definition create :: "'a grain \<Rightarrow> 'a \<Rightarrow> decerealiser \<Rightarrow> ('a \<times> decerealiser) result" where
  "create g obj d = bindE (get g obj d) (\<lambda>(obj, d). Inr (obj, d))"

definition create_in :: "'a grain \<Rightarrow> 'a \<Rightarrow> decerealiser \<Rightarrow> ('a \<times> decerealiser) result" where
  "create_in g obj d = get g obj d"

section \<open>A vector that is resized by the length it is given\<close>

text \<open>\<^verbatim>\<open>maybeResizeVector\<close>; \<open>num\<close> is not initialised, \<open>mem\<close> is what its memory held.\<close>

definition maybeResizeVector ::
  "'w::len word grain \<Rightarrow> 'w word \<Rightarrow> 'a \<Rightarrow> cereal \<Rightarrow> 'a list \<Rightarrow> ('a list \<times> cereal) result" where
  "maybeResizeVector gi mem d cereal vec =
     (let num = mem in
      bindE (gi num cereal) (\<lambda>(num, cereal).
      Inr (if length vec \<noteq> unat num then resize d vec (unat num) else vec, cereal)))"

text \<open>For a reader it is the first half of \<^const>\<open>grain_vector\<close>; a writer writes the garbage.\<close>

lemma maybeResizeVector_reads:
  "grain_vector g z val (Read d) =
     bindE (maybeResizeVector grain_u16 mem z (Read d) val) (\<lambda>(val, c). grain_each g val c)"
proof -
  have "grain_u16 (word_of_nat (length val)) (Read d) = grain_u16 mem (Read d)"
  proof (cases "read_byte d")
    case (Inr r)
    then show ?thesis by (cases r) (simp add: grain_u16_def Let_def)
  qed (simp add: grain_u16_def Let_def)
  then show ?thesis
    by (cases "grain_u16 mem (Read d)")
       (auto simp: grain_vector_def grain_vector_as_def maybeResizeVector_def Let_def)
qed

lemma maybeResizeVector_writes:
  "maybeResizeVector grain_u16 mem z (Write w) vec
     = Inr (if length vec \<noteq> unat mem then resize z vec (unat mem) else vec, Write (emit (be16 mem) w))"
  by (simp add: maybeResizeVector_def grain_u16_write)

section \<open>What is written is read\<close>

context grainable begin

lemma put_writes: "ok v \<Longrightarrow> put grain v w = Inr (v, emit (enc v) w)"
  by (simp add: put_def writes)

lemma get_reads: "ok v \<Longrightarrow> rest d = enc v @ bs \<Longrightarrow> get grain u d = Inr (v, advance (length (enc v)) d)"
  by (simp add: get_def reads)

text \<open>All the reading operations are the same.\<close>

lemma readers:
  "read_value grain u d = get grain u d" "value_of grain u d = get grain u d"
  "createPtr grain u d = get grain u d" "create grain u d = get grain u d" "create_in grain u d = get grain u d"
  by (auto simp: read_value_def value_of_def createPtr_def create_def create_in_def Let_def bindE_def split: sum.split)

lemma put_get:
  assumes "ok v" "put grain v w = Inr (v', w')" "w_bytes w = []"
  shows "get grain u (decerealiser_of (getBytes w')) = Inr (v, advance (length (enc v)) (decerealiser_of (enc v)))"
  using assms get_reads [of v "decerealiser_of (enc v)" "[]"]
  by (simp add: put_writes emit_def getBytes_def) (auto simp: emit_def)

end

text \<open>Values of different types, one after the other.\<close>

lemma put_get_mixed:
  assumes "string_ok s"
  shows "bindE (put grain_u16 v new_cerealiser) (\<lambda>(_, w).
     bindE (put grain_string s w) (\<lambda>(_, w).
     bindE (put grain_u32 x w) (\<lambda>(_, w).
     bindE (read_value grain_u16 0 (decerealiser_of (getBytes w))) (\<lambda>(v', d).
     bindE (read_value grain_string [] d) (\<lambda>(s', d).
     bindE (read_value grain_u32 0 d) (\<lambda>(x', _). Inr (v', s', x'))))))) = Inr (v, s, x)"
  using assms
  by (simp add: short.put_writes str.put_writes word.put_writes short.readers str.readers word.readers
      emit_def getBytes_def new_cerealiser_def short.get_reads [where v = v] str.get_reads [where v = s]
      word.get_reads [where v = x and bs = "[]"])

section \<open>A vector that is longer than its length can say\<close>

text \<open>The shortened vector is the one that its length, cut to the width of its type, speaks of.\<close>

lemma unat_word_length: "unat (word_of_nat n :: 'w::len word) = n mod 2 ^ LENGTH('w)"
  by (simp add: unat_of_nat)

lemma length_cut:
  "word_of_nat (length (take (length vs mod 2 ^ LENGTH('w)) vs)) = (word_of_nat (length vs) :: 'w::len word)"
  by (rule word_unat_eq_iff [THEN iffD2]) (simp add: unat_of_nat)

lemma resize_to_cut: "(if length vs \<noteq> length vs mod m then resize z vs (length vs mod m) else vs) = take (length vs mod m) vs"
  by (auto simp: resize_cut)

context grainable begin

lemma vector_cut:
  fixes gi :: "'w::len word grain"
  assumes "grainable gi enc_num (\<lambda>_. True)" "list_all ok vs"
  shows "put_vector gi grain z vs w = (let t = take (length vs mod 2 ^ LENGTH('w)) vs
     in Inr (t, emit (enc_num (word_of_nat (length t)) @ concat (map enc t)) w))"
proof -
  let ?t = "take (length vs mod 2 ^ LENGTH('w)) vs"
  have "list_all ok ?t" using assms(2) by (metis append_take_drop_id list_all_append)
  then show ?thesis
    by (simp only: put_vector_def put_def grain_vector_as_def Let_def grainable.writes [OF assms(1) TrueI]
        bindE_Inr prod.case unat_word_length resize_to_cut each_write length_cut emit_emit cereal.case)
qed

end

section \<open>Properties\<close>



text \<open>A string has the same fate with its length of 16 bits.\<close>

lemma long_string_cut:
  "put grain_string s w = (let t = take (length s mod 2 ^ 16) s in Inr (t, emit (enc_string t) w))"
  using chr.vector_cut [OF short.grainable_axioms, of s "CHR 0x00" w]
  by (simp add: put_vector_def put_def grain_string_def grain_vector_def enc_string_def concat_singletons
      list_all_iff Let_def)

end
