(* ===== verification/Bounds.thy ===== *)
theory Bounds
  imports Span "HOL-Library.Signed_Division"
begin

text \<open>
  Indices and bounds of multi-dimensional spans: \<^verbatim>\<open>index\<close>, \<^verbatim>\<open>details::BoundsRanges\<close>
  and \<^verbatim>\<open>static_bounds\<close> of \<^verbatim>\<open>gsl/include/span.h\<close>.

  A parameter pack \<^verbatim>\<open>Ranges...\<close> is a list of integers, in which \<^const>\<open>dynamic_range\<close>
  stands for a dimension that is known at run time. The products of extents are computed in
  \<^verbatim>\<open>ptrdiff_t\<close>, whose overflow is undefined.
\<close>

definition ptrdiff_max :: int where
  "ptrdiff_max = 2 ^ 63 - 1"

definition ptrdiff :: "int \<Rightarrow> int result" where
  "ptrdiff n = (if - (2 ^ 63) \<le> n \<and> n \<le> ptrdiff_max then Inr n else Inl Undefined)"

section \<open>Indices\<close>

text \<open>
  An \<^verbatim>\<open>index<Rank>\<close> is the list of its \<^verbatim>\<open>Rank\<close> elements. Its arithmetic is on positions of
  objects that exist, so it is not checked for overflow.
\<close>

type_synonym idx = "int list"

definition idx_zero :: "nat \<Rightarrow> idx" where
  "idx_zero rank = replicate rank 0"

definition idx_at :: "idx \<Rightarrow> nat \<Rightarrow> int result" where
  "idx_at elems i = bindE (fail_fast_assert (i < length elems)) (\<lambda>_. Inr (elems ! i))"

definition idx_eq :: "idx \<Rightarrow> idx \<Rightarrow> bool" where
  "idx_eq elems rhs = list_all (\<lambda>(x, y). x = y) (zip elems rhs)"

definition idx_add_assign :: "idx \<Rightarrow> idx \<Rightarrow> idx" where
  "idx_add_assign elems rhs = map2 (+) elems rhs"

definition idx_sub_assign :: "idx \<Rightarrow> idx \<Rightarrow> idx" where
  "idx_sub_assign elems rhs = map2 (-) elems rhs"

definition idx_mul_assign :: "idx \<Rightarrow> int \<Rightarrow> idx" where
  "idx_mul_assign elems v = map (\<lambda>x. x * v) elems"

definition idx_div_assign :: "idx \<Rightarrow> int \<Rightarrow> idx result" where
  "idx_div_assign elems v = (if v = 0 then Inl Undefined else Inr (map (\<lambda>x. x sdiv v) elems))"

definition idx_add :: "idx \<Rightarrow> idx \<Rightarrow> idx" where
  "idx_add elems rhs = (let ret = elems in idx_add_assign ret rhs)"

definition idx_sub :: "idx \<Rightarrow> idx \<Rightarrow> idx" where
  "idx_sub elems rhs = (let ret = elems in idx_sub_assign ret rhs)"

definition idx_mul :: "idx \<Rightarrow> int \<Rightarrow> idx" where
  "idx_mul elems v = (let ret = elems in idx_mul_assign ret v)"

definition idx_div :: "idx \<Rightarrow> int \<Rightarrow> idx result" where
  "idx_div elems v = (let ret = elems in idx_div_assign ret v)"

definition shift_left :: "idx \<Rightarrow> idx" where
  "shift_left other = map (\<lambda>i. other ! (i + 1)) [0..<length other - 1]"

lemma shift_left_tl: "shift_left is = tl is"
  by (cases "is") (auto simp: shift_left_def intro: nth_equalityI)

section \<open>BoundsRanges\<close>

text \<open>
  An object of \<^verbatim>\<open>BoundsRanges<Ranges...>\<close>: a dynamic dimension holds \<^verbatim>\<open>m_bound\<close>, the size of
  everything from it on; a static one holds nothing, its range is in the type.
\<close>

datatype ranges = NoRange | DynRange int ranges | StatRange int ranges

fun template_of :: "ranges \<Rightarrow> int list" where
  "template_of NoRange = []"
| "template_of (DynRange b base) = dynamic_range # template_of base"
| "template_of (StatRange c base) = c # template_of base"

fun DynamicNum :: "int list \<Rightarrow> nat" where
  "DynamicNum [] = 0"
| "DynamicNum (r # rs) = (if r = dynamic_range then DynamicNum rs + 1 else DynamicNum rs)"

fun TotalSize :: "int list \<Rightarrow> int" where
  "TotalSize [] = 1"
| "TotalSize (r # rs) = (if r = dynamic_range then dynamic_range
     else if TotalSize rs = dynamic_range then dynamic_range else r * TotalSize rs)"

text \<open>
  The members of the three classes, the primary template, the one for \<^verbatim>\<open>dynamic_range\<close> and the one for
  a static range; those of the last two get the results of their base class.
\<close>

definition primary_totalSize :: int where
  [simp]: "primary_totalSize = TotalSize []"

definition dynamic_totalSize :: "int \<Rightarrow> int" where
  [simp]: "dynamic_totalSize m_bound = m_bound"

fun totalSize :: "ranges \<Rightarrow> int result" where
  "totalSize NoRange = Inr primary_totalSize"
| "totalSize (DynRange m_bound base) = Inr (dynamic_totalSize m_bound)"
| "totalSize (StatRange c base) = bindE (totalSize base) (\<lambda>t. ptrdiff (c * t))"

text \<open>\<^verbatim>\<open>BoundsRanges(const ptrdiff_t* arr)\<close>, the base class first.\<close>

fun ranges_of :: "int list \<Rightarrow> int list \<Rightarrow> ranges result" where
  "ranges_of [] arr = Inr NoRange"
| "ranges_of (r # rs) arr =
     (if r = dynamic_range then
        (case arr of [] \<Rightarrow> Inl Undefined
         | n # arr' \<Rightarrow>
            bindE (ranges_of rs arr') (\<lambda>base.
            bindE (totalSize base) (\<lambda>t.
            bindE (ptrdiff (n * t)) (\<lambda>m_bound.
            bindE (fail_fast_assert (0 \<le> n)) (\<lambda>_. Inr (DynRange m_bound base))))))
      else bindE (ranges_of rs arr) (\<lambda>base. Inr (StatRange r base)))"

text \<open>The default constructor, and the conversion from the ranges of another type of the same depth.\<close>

fun default_ranges :: "int list \<Rightarrow> ranges" where
  "default_ranges [] = NoRange"
| "default_ranges (r # rs) = (if r = dynamic_range then DynRange 0 (default_ranges rs)
     else StatRange r (default_ranges rs))"

fun range_base :: "ranges \<Rightarrow> ranges" where
  "range_base NoRange = NoRange"
| "range_base (DynRange b base) = base"
| "range_base (StatRange c base) = base"

fun convert_ranges :: "int list \<Rightarrow> ranges \<Rightarrow> bool \<Rightarrow> ranges result" where
  "convert_ranges [] other firstLevel = Inr NoRange"
| "convert_ranges (r # rs) other firstLevel =
     bindE (convert_ranges rs (range_base other) False) (\<lambda>base.
     if r = dynamic_range then bindE (totalSize other) (\<lambda>b. Inr (DynRange b base))
     else
       bindE (totalSize (StatRange r base)) (\<lambda>t.
       bindE (totalSize other) (\<lambda>t'.
       bindE (fail_fast_assert ((firstLevel \<and> t \<le> t') \<or> t = t')) (\<lambda>_.
       Inr (StatRange r base)))))"

text \<open>The primary template has no \<^verbatim>\<open>elementNum\<close>; it is asked for on an object that has dimensions.\<close>

definition static_elementNum :: "int \<Rightarrow> int" where
  [simp]: "static_elementNum c = c"

fun elementNum :: "ranges \<Rightarrow> int result" where
  "elementNum NoRange = Inl Undefined"
| "elementNum (DynRange m_bound base) =
     bindE (totalSize base) (\<lambda>t. if t = 0 then Inl Undefined else Inr (m_bound sdiv t))"
| "elementNum (StatRange c base) = Inr (static_elementNum c)"

definition primary_serialize :: "int list" where
  [simp]: "primary_serialize = []"

definition dynamic_serialize :: "int result \<Rightarrow> int list result \<Rightarrow> int list result" where
  [simp]: "dynamic_serialize num base_serialize = bindE num (\<lambda>n. bindE base_serialize (\<lambda>arr. Inr (n # arr)))"

definition static_serialize :: "int result \<Rightarrow> int list result \<Rightarrow> int list result" where
  [simp]: "static_serialize num base_serialize = bindE num (\<lambda>n. bindE base_serialize (\<lambda>arr. Inr (n # arr)))"

fun serialize :: "ranges \<Rightarrow> int list result" where
  "serialize NoRange = Inr primary_serialize"
| "serialize (DynRange m_bound base) = dynamic_serialize (elementNum (DynRange m_bound base)) (serialize base)"
| "serialize (StatRange c base) = static_serialize (elementNum (StatRange c base)) (serialize base)"

definition primary_linearize :: int where
  [simp]: "primary_linearize = 0"

fun linearize :: "ranges \<Rightarrow> idx \<Rightarrow> int result" where
  "linearize NoRange arr = Inr primary_linearize"
| "linearize (DynRange m_bound base) arr =
     bindE (idx_at arr 0) (\<lambda>i.
     bindE (totalSize base) (\<lambda>t.
     bindE (ptrdiff (t * i)) (\<lambda>index.
     bindE (fail_fast_assert (index < m_bound)) (\<lambda>_.
     bindE (linearize base (tl arr)) (\<lambda>r. ptrdiff (index + r))))))"
| "linearize (StatRange c base) arr =
     bindE (idx_at arr 0) (\<lambda>i.
     bindE (fail_fast_assert (i < c)) (\<lambda>_.
     bindE (totalSize base) (\<lambda>t.
     bindE (ptrdiff (t * i)) (\<lambda>index.
     bindE (linearize base (tl arr)) (\<lambda>r. ptrdiff (index + r))))))"

text \<open>\<^verbatim>\<open>contains\<close> of the primary template returns a \<^verbatim>\<open>bool\<close>, which is converted to zero.\<close>

definition primary_contains :: bool where
  [simp]: "primary_contains = False"

definition dynamic_contains :: "int \<Rightarrow> int result \<Rightarrow> int result \<Rightarrow> idx \<Rightarrow> int result" where
  [simp]: "dynamic_contains m_bound base_size base_contains arr =
     bindE base_contains (\<lambda>last.
     if last = -1 then Inr (-1)
     else
       bindE (idx_at arr 0) (\<lambda>i.
       bindE base_size (\<lambda>t.
       bindE (ptrdiff (t * i)) (\<lambda>cur.
       if cur < m_bound then ptrdiff (cur + last) else Inr (-1)))))"

fun contains_at :: "ranges \<Rightarrow> idx \<Rightarrow> int result" where
  "contains_at NoRange arr = Inr (of_bool primary_contains)"
| "contains_at (DynRange m_bound base) arr =
     dynamic_contains m_bound (totalSize base) (contains_at base (tl arr)) arr"
| "contains_at (StatRange c base) arr =
     bindE (idx_at arr 0) (\<lambda>i.
     if i \<ge> c then Inr (-1)
     else
       bindE (contains_at base (tl arr)) (\<lambda>last.
       if last = -1 then Inr (-1)
       else bindE (totalSize base) (\<lambda>t. bindE (ptrdiff (t * i)) (\<lambda>cur. ptrdiff (cur + last)))))"

section \<open>static_bounds\<close>

text \<open>An object holds its \<^verbatim>\<open>m_ranges\<close> and nothing else. Its rank is the number of dimensions.\<close>

definition bounds_of :: "int list \<Rightarrow> int list \<Rightarrow> ranges result" where
  "bounds_of ts il =
     bindE (ranges_of ts il) (\<lambda>m_ranges.
     bindE (fail_fast_assert ((DynamicNum ts = 0 \<and> length il = 1 \<and> il ! 0 = TotalSize ts) \<or>
              DynamicNum ts = length il)) (\<lambda>_.
     bindE (totalSize m_ranges) (\<lambda>t.
     bindE (fail_fast_assert (t \<le> ptrdiff_max)) (\<lambda>_. Inr m_ranges))))"

definition bounds_rank :: "ranges \<Rightarrow> nat" where
  "bounds_rank b = length (template_of b)"

definition bounds_slice :: "ranges \<Rightarrow> ranges" where
  "bounds_slice b = range_base b"

definition bounds_size :: "ranges \<Rightarrow> int result" where
  "bounds_size b = totalSize b"

definition bounds_stride :: "ranges \<Rightarrow> int result" where
  "bounds_stride b = (if bounds_rank b > 1 then bounds_size (bounds_slice b) else Inr 1)"

definition bounds_linearize :: "ranges \<Rightarrow> idx \<Rightarrow> int result" where
  "bounds_linearize b i = linearize b i"

definition bounds_contains :: "ranges \<Rightarrow> idx \<Rightarrow> bool result" where
  "bounds_contains b i = bindE (contains_at b i) (\<lambda>n. Inr (n \<noteq> -1))"

definition index_bounds :: "ranges \<Rightarrow> idx result" where
  "index_bounds b = serialize b"

definition bounds_eq :: "ranges \<Rightarrow> ranges \<Rightarrow> bool result" where
  "bounds_eq b rhs = bindE (bounds_size b) (\<lambda>m. bindE (bounds_size rhs) (\<lambda>n. Inr (m = n)))"

section \<open>The extents of a bounds object\<close>

text \<open>\<open>ranges_rep r ds\<close>: the object \<open>r\<close> stands for the extents \<open>ds\<close>.\<close>

fun ranges_rep :: "ranges \<Rightarrow> int list \<Rightarrow> bool" where
  "ranges_rep NoRange [] = True"
| "ranges_rep (DynRange b base) (d # ds) =
     (0 \<le> d \<and> b = d * prod_list ds \<and> b \<le> ptrdiff_max \<and> ranges_rep base ds)"
| "ranges_rep (StatRange c base) (d # ds) =
     (0 \<le> d \<and> c = d \<and> d * prod_list ds \<le> ptrdiff_max \<and> ranges_rep base ds)"
| "ranges_rep _ _ = False"

definition in_box :: "int list \<Rightarrow> idx \<Rightarrow> bool" where
  "in_box ds is \<longleftrightarrow> list_all2 (\<lambda>d i. 0 \<le> i \<and> i < d) ds is"

lemma in_box_simps [simp]:
  "in_box [] []" "in_box (d # ds) (i # is) \<longleftrightarrow> 0 \<le> i \<and> i < d \<and> in_box ds is"
  "\<not> in_box [] (i # is)" "\<not> in_box (d # ds) []"
  by (simp_all add: in_box_def)

text \<open>The position of an index in row-major order, and the index at a position.\<close>

fun row_major :: "int list \<Rightarrow> idx \<Rightarrow> int" where
  "row_major (d # ds) (i # is) = i * prod_list ds + row_major ds is"
| "row_major _ _ = 0"

fun unrank :: "int list \<Rightarrow> int \<Rightarrow> idx" where
  "unrank [] k = []"
| "unrank (d # ds) k = (k div prod_list ds) # unrank ds (k mod prod_list ds)"

lemma ptrdiff_Inr [simp]: "0 \<le> n \<Longrightarrow> n \<le> ptrdiff_max \<Longrightarrow> ptrdiff n = Inr n"
  by (simp add: ptrdiff_def)

lemma ptrdiff_eq_Inr [returned]: "ptrdiff n = Inr m \<longleftrightarrow> n = m \<and> - (2 ^ 63) \<le> n \<and> n \<le> ptrdiff_max"
  by (auto simp: ptrdiff_def)

lemma row_major_bound: "in_box ds is \<Longrightarrow> 0 \<le> row_major ds is \<and> row_major ds is < prod_list ds"
proof (induction ds "is" rule: row_major.induct)
  case (1 d ds i "is")
  then have b: "0 \<le> row_major ds is" "row_major ds is < prod_list ds" "0 \<le> i" "i + 1 \<le> d" by simp_all
  then have "(i + 1) * prod_list ds \<le> d * prod_list ds" by (intro mult_right_mono) simp_all
  with b show ?case by (simp add: algebra_simps)
qed (auto simp: in_box_def)

lemma in_box_ConsE:
  assumes "in_box (d # ds) is"
  obtains i is' where "is = i # is'" "0 \<le> i" "i < d" "in_box ds is'"
    "0 \<le> row_major ds is'" "row_major ds is' < prod_list ds"
    "i * prod_list ds + row_major ds is' < d * prod_list ds"
proof -
  from assms obtain i is' where "is = i # is'" "0 \<le> i" "i < d" "in_box ds is'" by (cases "is") auto
  with row_major_bound [OF assms] row_major_bound [of ds is'] show thesis by (intro that) simp_all
qed

lemma in_box_length: "in_box ds is \<Longrightarrow> length is = length ds"
  by (simp add: in_box_def list_all2_lengthD)

lemma unrank_row_major: "in_box ds is \<Longrightarrow> unrank ds (row_major ds is) = is"
proof (induction ds "is" rule: row_major.induct)
  case (1 d ds i "is")
  then have "0 \<le> row_major ds is" "row_major ds is < prod_list ds" using row_major_bound [of ds "is"] by simp_all
  with 1 show ?case by simp
qed (auto simp: in_box_def)

lemma row_major_unrank:
  "list_all (\<lambda>d. 0 \<le> d) ds \<Longrightarrow> 0 \<le> k \<Longrightarrow> k < prod_list ds \<Longrightarrow>
   in_box ds (unrank ds k) \<and> row_major ds (unrank ds k) = k"
proof (induction ds arbitrary: k)
  case (Cons d ds)
  have p: "0 < prod_list ds"
  proof (rule ccontr)
    assume "\<not> 0 < prod_list ds"
    then have "d * prod_list ds \<le> 0" using Cons.prems(1) by (simp add: mult_nonneg_nonpos)
    with Cons.prems show False by simp
  qed
  with Cons.IH [of "k mod prod_list ds"] Cons.prems have "in_box ds (unrank ds (k mod prod_list ds))"
    "row_major ds (unrank ds (k mod prod_list ds)) = k mod prod_list ds" by simp_all
  moreover have "k div prod_list ds < d"
  proof -
    have "k div prod_list ds * prod_list ds \<le> k"
      using p by (simp add: minus_mod_eq_div_mult [symmetric])
    with Cons.prems(3) have "k div prod_list ds * prod_list ds < d * prod_list ds" by simp
    with p show ?thesis by (simp add: mult_less_cancel_right)
  qed
  ultimately show ?case using Cons.prems(2) p by (simp add: pos_imp_zdiv_nonneg_iff)
qed simp

lemma row_major_bij:
  "list_all (\<lambda>d. 0 \<le> d) ds \<Longrightarrow> bij_betw (row_major ds) {is. in_box ds is} {0..<prod_list ds}"
  by (rule bij_betw_byWitness [where f' = "unrank ds"])
     (auto simp: unrank_row_major row_major_unrank dest: row_major_bound)

section \<open>What the operations do on the extents\<close>

lemma ranges_rep_prod:
  "ranges_rep r ds \<Longrightarrow> 0 \<le> prod_list ds \<and> prod_list ds \<le> ptrdiff_max \<and> list_all (\<lambda>d. 0 \<le> d) ds"
  by (induction r ds rule: ranges_rep.induct) (simp_all add: ptrdiff_max_def)

lemma totalSize_rep: "ranges_rep r ds \<Longrightarrow> totalSize r = Inr (prod_list ds)"
  by (induction r ds rule: ranges_rep.induct) (auto dest!: ranges_rep_prod)

lemma template_length: "ranges_rep r ds \<Longrightarrow> length (template_of r) = length ds"
  by (induction r ds rule: ranges_rep.induct) simp_all

lemma base_rep: "ranges_rep r (d # ds) \<Longrightarrow> ranges_rep (range_base r) ds"
  by (cases r) simp_all

fun extents_of :: "int list \<Rightarrow> int list \<Rightarrow> int list" where
  "extents_of [] arr = []"
| "extents_of (r # rs) arr = (if r = dynamic_range then hd arr # extents_of rs (tl arr)
     else r # extents_of rs arr)"

lemma length_extents_of [simp]: "length (extents_of ts arr) = length ts"
  by (induction ts arr rule: extents_of.induct) simp_all

definition template_ok :: "int list \<Rightarrow> bool" where
  "template_ok ts \<longleftrightarrow> list_all (\<lambda>r. r = dynamic_range \<or> 0 \<le> r) ts"

lemma ranges_of_rep:
  "ranges_of ts arr = Inr r \<Longrightarrow> totalSize r = Inr t \<Longrightarrow> template_ok ts \<Longrightarrow> ranges_rep r (extents_of ts arr)"
proof (induction ts arr arbitrary: r t rule: ranges_of.induct)
  case (2 x rs arr)
  show ?case
  proof (cases "x = dynamic_range")
    case True
    with "2.prems" obtain n arr' base t' b where e: "arr = n # arr'" "ranges_of rs arr' = Inr base"
      "totalSize base = Inr t'" "ptrdiff (n * t') = Inr b" "0 \<le> n" "r = DynRange b base"
      by (auto simp: returned split: list.splits if_splits)
    then have rep: "ranges_rep base (extents_of rs arr')" using "2.IH"(1) True "2.prems"(3) by (simp add: template_ok_def)
    with e totalSize_rep [OF rep] show ?thesis using True by (simp add: ptrdiff_eq_Inr)
  next
    case False
    with "2.prems" obtain base t' where e: "ranges_of rs arr = Inr base" "r = StatRange x base"
      "totalSize base = Inr t'" "ptrdiff (x * t') = Inr t" by (auto simp: returned)
    then have rep: "ranges_rep base (extents_of rs arr)" using "2.IH"(2) False "2.prems"(3) by (simp add: template_ok_def)
    with e totalSize_rep [OF rep] False "2.prems"(3) show ?thesis by (simp add: ptrdiff_eq_Inr template_ok_def)
  qed
qed simp

lemma bounds_of_rep: "bounds_of ts il = Inr b \<Longrightarrow> template_ok ts \<Longrightarrow> ranges_rep b (extents_of ts il)"
  by (auto simp: bounds_of_def returned intro: ranges_of_rep)

lemma linearize_rep:
  "ranges_rep r ds \<Longrightarrow> in_box ds is \<Longrightarrow> linearize r is = Inr (row_major ds is)"
proof (induction r ds arbitrary: "is" rule: ranges_rep.induct)
  case (2 b base d ds)
  from "2.prems"(2) obtain i is' where i: "is = i # is'" "0 \<le> i" "i < d" "in_box ds is'"
    "0 \<le> row_major ds is'" "row_major ds is' < prod_list ds"
    "i * prod_list ds + row_major ds is' < d * prod_list ds" by (rule in_box_ConsE)
  with 2 totalSize_rep [of base ds] show ?case by (simp add: idx_at_def mult.commute)
next
  case (3 c base d ds)
  from "3.prems"(2) obtain i is' where i: "is = i # is'" "0 \<le> i" "i < d" "in_box ds is'"
    "0 \<le> row_major ds is'" "row_major ds is' < prod_list ds"
    "i * prod_list ds + row_major ds is' < d * prod_list ds" by (rule in_box_ConsE)
  with 3 totalSize_rep [of base ds] show ?case by (simp add: idx_at_def mult.commute)
qed (auto simp: in_box_def)

text \<open>The products of the elements of an index and the sizes behind them are representable.\<close>

fun products_fit :: "int list \<Rightarrow> idx \<Rightarrow> bool" where
  "products_fit (d # ds) (i # is) \<longleftrightarrow> i * prod_list ds \<le> ptrdiff_max \<and> products_fit ds is"
| "products_fit _ _ = True"

lemma ptrdiff_product:
  assumes "0 \<le> p" "0 \<le> i"
  shows "ptrdiff (i * p) = (if i * p \<le> ptrdiff_max then Inr (i * p) else Inl Undefined)"
proof -
  have "0 \<le> i * p" using assms by simp
  then have "- (2 ^ 63) \<le> i * p" by (rule order_trans [rotated]) simp
  then show ?thesis unfolding ptrdiff_def by simp
qed

text \<open>An index that is too large somewhere meets an assertion, if no product overflows before.\<close>

lemma linearize_outside:
  "ranges_rep r ds \<Longrightarrow> length is = length ds \<Longrightarrow> list_all (\<lambda>i. 0 \<le> i) is \<Longrightarrow> \<not> in_box ds is \<Longrightarrow>
   linearize r is = Inl FailFast \<or> linearize r is = Inl Undefined \<and> \<not> products_fit ds is"
proof (induction r ds arbitrary: "is" rule: ranges_rep.induct)
  case (2 b base d ds)
  then obtain i is' where i: "is = i # is'" "0 \<le> i" "list_all (\<lambda>i. 0 \<le> i) is'" "length is' = length ds"
    by (cases "is") auto
  have rep: "ranges_rep base ds" "totalSize base = Inr (prod_list ds)" "b = d * prod_list ds" "0 \<le> prod_list ds"
    using 2(2) totalSize_rep [of base ds] ranges_rep_prod [of base ds] by simp_all
  have nn: "ptrdiff (i * prod_list ds) = (if i * prod_list ds \<le> ptrdiff_max then Inr (i * prod_list ds) else Inl Undefined)"
    using rep(4) i(2) by (rule ptrdiff_product)
  show ?case
  proof (cases "in_box ds is'")
    case True
    with i 2 have "d \<le> i" by simp
    moreover have "0 < prod_list ds" using row_major_bound [OF True] by linarith
    ultimately have "\<not> i * prod_list ds < b" using rep(3) by (simp add: not_less)
    then show ?thesis using i rep nn by (auto simp: idx_at_def mult.commute fail_fast_assert_def)
  next
    case False
    from "2.IH" [OF rep(1) i(4,3) False] show ?thesis
      using i rep nn by (auto simp: idx_at_def fail_fast_assert_def mult.commute)
  qed
next
  case (3 c base d ds)
  then obtain i is' where i: "is = i # is'" "0 \<le> i" "list_all (\<lambda>i. 0 \<le> i) is'" "length is' = length ds"
    by (cases "is") auto
  have rep: "ranges_rep base ds" "totalSize base = Inr (prod_list ds)" "c = d" "0 \<le> prod_list ds"
    using 3(2) totalSize_rep [of base ds] ranges_rep_prod [of base ds] by simp_all
  have nn: "ptrdiff (i * prod_list ds) = (if i * prod_list ds \<le> ptrdiff_max then Inr (i * prod_list ds) else Inl Undefined)"
    using rep(4) i(2) by (rule ptrdiff_product)
  show ?case
  proof (cases "in_box ds is'")
    case True
    with i 3 show ?thesis by (simp add: idx_at_def fail_fast_assert_def)
  next
    case False
    from "3.IH" [OF rep(1) i(4,3) False] show ?thesis
      using i rep nn by (auto simp: idx_at_def fail_fast_assert_def mult.commute)
  qed
qed (auto simp: in_box_def)

lemma sdiv_exact: "0 < p \<Longrightarrow> (d * p) sdiv p = (d :: int)"
  by (simp add: signed_divide_int_def sgn_mult abs_mult mult_sgn_abs)

lemma serialize_rep:
  "ranges_rep r ds \<Longrightarrow> 0 \<notin> set (tl ds) \<Longrightarrow> serialize r = Inr ds"
proof (induction r ds rule: ranges_rep.induct)
  case (2 b base d ds)
  then have "serialize base = Inr ds" by (cases ds) auto
  moreover have "0 < prod_list ds" using 2(3) ranges_rep_prod [of base ds] "2.prems"(1) by (auto simp: prod_list_zero_iff order_le_less)
  ultimately show ?case using "2.prems" totalSize_rep [of base ds] by (simp add: sdiv_exact)
next
  case (3 c base d ds)
  then have "serialize base = Inr ds" by (cases ds) auto
  with 3 show ?case by simp
qed auto

lemma contains_in_box: "ranges_rep r ds \<Longrightarrow> in_box ds is \<Longrightarrow> contains_at r is = Inr (row_major ds is)"
proof (induction r ds arbitrary: "is" rule: ranges_rep.induct)
  case (2 b base d ds)
  from "2.prems"(2) obtain i is' where i: "is = i # is'" "0 \<le> i" "i < d" "in_box ds is'"
    "0 \<le> row_major ds is'" "row_major ds is' < prod_list ds"
    "i * prod_list ds + row_major ds is' < d * prod_list ds" by (rule in_box_ConsE)
  with 2 totalSize_rep [of base ds] show ?case by (simp add: idx_at_def mult.commute)
next
  case (3 c base d ds)
  from "3.prems"(2) obtain i is' where i: "is = i # is'" "0 \<le> i" "i < d" "in_box ds is'"
    "0 \<le> row_major ds is'" "row_major ds is' < prod_list ds"
    "i * prod_list ds + row_major ds is' < d * prod_list ds" by (rule in_box_ConsE)
  with 3 totalSize_rep [of base ds] show ?case by (simp add: idx_at_def mult.commute)
qed (auto simp: in_box_def)

section \<open>Properties\<close>

text \<open>
  C34. Bounds that are built hold the extents they are given, without overflow, and map the
  indices inside the extents one to one onto the offsets from zero to the size. An index with an
  element at or above its extent, and none below zero, is never given an offset: an assertion fails, or
  a product of one of its elements and the size behind it overflows before, which is undefined; where
  all these products are representable, it is the assertion.
\<close>

theorem offsets_one_to_one:
  assumes "template_ok ts" "bounds_of ts il = Inr b"
  shows "bounds_size b = Inr (prod_list (extents_of ts il)) \<and>
    bij_betw (bounds_linearize b) {is. in_box (extents_of ts il) is} (Inr ` {0..<prod_list (extents_of ts il)}) \<and>
    (length is = length ts \<and> list_all (\<lambda>i. 0 \<le> i) is \<and> \<not> in_box (extents_of ts il) is
      \<longrightarrow> bounds_linearize b is = Inl FailFast \<or>
        bounds_linearize b is = Inl Undefined \<and> \<not> products_fit (extents_of ts il) is)"
proof -
  let ?ds = "extents_of ts il"
  have rep: "ranges_rep b ?ds" by (rule bounds_of_rep [OF assms(2,1)])
  then have "list_all (\<lambda>d. 0 \<le> d) ?ds" using ranges_rep_prod by blast
  then have "bij_betw (Inr \<circ> row_major ?ds :: idx \<Rightarrow> int result) {is. in_box ?ds is} (Inr ` {0..<prod_list ?ds})"
    by (intro bij_betw_trans [OF row_major_bij]) (auto simp: bij_betw_def inj_on_def)
  moreover have "bij_betw (Inr \<circ> row_major ?ds :: idx \<Rightarrow> int result) {is. in_box ?ds is} (Inr ` {0..<prod_list ?ds}) =
      bij_betw (bounds_linearize b) {is. in_box ?ds is} (Inr ` {0..<prod_list ?ds})"
    by (rule bij_betw_cong) (simp add: bounds_linearize_def linearize_rep [OF rep])
  ultimately show ?thesis
    using totalSize_rep [OF rep] linearize_outside [OF rep, of "is"]
    by (simp add: bounds_size_def bounds_linearize_def [abs_def])
qed

theorem offsets_one_to_one_witness:
  "bounds_of [dynamic_range, 3] [2] = Inr (DynRange 6 (StatRange 3 NoRange)) \<and>
   bij_betw (bounds_linearize (DynRange 6 (StatRange 3 NoRange))) {is. in_box [2, 3] is} (Inr ` {0..<6}) \<and>
   bounds_linearize (DynRange 6 (StatRange 3 NoRange)) [1, 3] = Inl FailFast"
proof -
  have b: "bounds_of [dynamic_range, 3] [2] = Inr (DynRange 6 (StatRange 3 NoRange))"
    by (simp add: bounds_of_def dynamic_range_def ptrdiff_def ptrdiff_max_def)
  moreover have "template_ok [dynamic_range, 3]" by (simp add: template_ok_def)
  ultimately show ?thesis
    using offsets_one_to_one [OF _ b, of "[1, 3]"] by (simp add: dynamic_range_def ptrdiff_max_def)
qed

text \<open>The overflow comes first in a large index on the extents 2 and 3.\<close>

lemma large_index_overflows:
  "bounds_linearize (DynRange 6 (StatRange 3 NoRange)) [2 ^ 62, 0] = Inl Undefined"
  by (simp add: bounds_linearize_def idx_at_def ptrdiff_def ptrdiff_max_def)

text \<open>
  Only the upper bound of an index is checked: a negative index below -1 of a
  one-dimensional dynamic bounds object counts as contained, and is mapped to a negative offset.
\<close>

lemma negative_index_accepted:
  assumes "bounds_of [dynamic_range] [n] = Inr b" "i < -1" "- (2 ^ 63) \<le> i"
  shows "bounds_contains b [i] = Inr True \<and> bounds_linearize b [i] = Inr i"
proof -
  have "b = DynRange n NoRange" "0 \<le> n"
    using assms(1) by (auto simp: bounds_of_def returned split: if_splits)
  moreover have "ptrdiff i = Inr i" using assms(2,3) by (simp add: ptrdiff_def ptrdiff_max_def)
  ultimately show ?thesis using assms(2)
    by (simp add: bounds_contains_def bounds_linearize_def idx_at_def)
qed

lemma negative_index_accepted_witness:
  "\<exists>b. bounds_of [dynamic_range] [4] = Inr b \<and> bounds_contains b [-2] = Inr True"
proof -
  have b: "bounds_of [dynamic_range] [4] = Inr (DynRange 4 NoRange)"
    by (simp add: bounds_of_def ptrdiff_def ptrdiff_max_def)
  with negative_index_accepted [OF b, of "-2"] show ?thesis by simp
qed

text \<open>
  A dynamic extent is recovered by dividing by the size of the dimensions behind it: where
  one of them is zero, asking a bounds object for its extents divides by zero.
\<close>

lemma zero_extent_divides:
  assumes "bounds_of (dynamic_range # ts) il = Inr b" "template_ok ts" "0 \<in> set (extents_of ts (tl il))"
  shows "index_bounds b = Inl Undefined"
proof -
  have "ranges_rep b (hd il # extents_of ts (tl il))"
    using bounds_of_rep [OF assms(1)] assms(2) by (simp add: template_ok_def)
  moreover obtain m base where b: "b = DynRange m base"
    using assms(1) by (auto simp: bounds_of_def returned split: list.splits)
  ultimately have "totalSize base = Inr 0"
    using totalSize_rep [of base "extents_of ts (tl il)"] assms(3) by (simp add: prod_list_zero_iff)
  with b show ?thesis by (simp add: index_bounds_def)
qed

lemma zero_extent_divides_witness:
  "\<exists>b. bounds_of [dynamic_range, dynamic_range] [2, 0] = Inr b \<and> index_bounds b = Inl Undefined"
proof -
  have b: "bounds_of [dynamic_range, dynamic_range] [2, 0] = Inr (DynRange 0 (DynRange 0 NoRange))"
    by (simp add: bounds_of_def ptrdiff_def ptrdiff_max_def)
  with zero_extent_divides [OF b] show ?thesis by (simp add: template_ok_def)
qed

end
