(* ===== verification/BoundsIterator.thy ===== *)
theory BoundsIterator
  imports Bounds
begin

text \<open>
  \<^verbatim>\<open>bounds_iterator\<close> of \<^verbatim>\<open>gsl/include/span.h\<close>: the iterator over the indices of a bounds
  object. It holds the extents, \<^verbatim>\<open>boundary\<close>, and the current index, and past the end the index
  is the boundary itself.
\<close>

record bounds_iterator =
  bi_boundary :: idx
  bi_curr :: idx

definition bounds_begin :: "ranges \<Rightarrow> bounds_iterator result" where
  "bounds_begin b = bindE (index_bounds b) (\<lambda>boundary.
     Inr \<lparr>bi_boundary = boundary, bi_curr = idx_zero (bounds_rank b)\<rparr>)"

definition bounds_end :: "ranges \<Rightarrow> bounds_iterator result" where
  "bounds_end b = bindE (index_bounds b) (\<lambda>boundary.
     bindE (index_bounds b) (\<lambda>cur. Inr \<lparr>bi_boundary = boundary, bi_curr = cur\<rparr>))"

definition bi_deref :: "bounds_iterator \<Rightarrow> idx" where
  "bi_deref it = bi_curr it"

section \<open>Steps\<close>

text \<open>The loops run \<^verbatim>\<open>for (size_t i = rank; i-- > 0;)\<close>; the argument is \<^verbatim>\<open>i\<close> before the test.\<close>

fun incr_loop :: "idx \<Rightarrow> idx \<Rightarrow> nat \<Rightarrow> idx" where
  "incr_loop boundary cur 0 = boundary"
| "incr_loop boundary cur (Suc i) =
     (if cur ! i < boundary ! i - 1 then cur[i := cur ! i + 1]
      else incr_loop boundary (cur[i := 0]) i)"

definition bi_incr :: "bounds_iterator \<Rightarrow> bounds_iterator" where
  "bi_incr it = it\<lparr>bi_curr := incr_loop (bi_boundary it) (bi_curr it) (length (bi_curr it))\<rparr>"

definition bi_incr_post :: "bounds_iterator \<Rightarrow> bounds_iterator \<times> bounds_iterator" where
  "bi_incr_post it = (let ret = it in (ret, bi_incr it))"

definition bi_less :: "idx \<Rightarrow> idx \<Rightarrow> bool" where
  "bi_less one other = list_ex (\<lambda>(x, y). x < y) (zip one other)"

fun decr_loop :: "idx \<Rightarrow> idx \<Rightarrow> nat \<Rightarrow> idx result" where
  "decr_loop boundary cur 0 = Inl FailFast"
| "decr_loop boundary cur (Suc i) =
     (if cur ! i \<ge> 1 then Inr (cur[i := cur ! i - 1])
      else decr_loop boundary (cur[i := boundary ! i - 1]) i)"

definition bi_decr :: "bounds_iterator \<Rightarrow> bounds_iterator result" where
  "bi_decr it =
     (if \<not> bi_less (bi_curr it) (bi_boundary it)
      then Inr (it\<lparr>bi_curr := map (\<lambda>b. b - 1) (bi_boundary it)\<rparr>)
      else bindE (decr_loop (bi_boundary it) (bi_curr it) (length (bi_curr it))) (\<lambda>cur.
        Inr (it\<lparr>bi_curr := cur\<rparr>)))"

definition bi_decr_post :: "bounds_iterator \<Rightarrow> (bounds_iterator \<times> bounds_iterator) result" where
  "bi_decr_post it = (let ret = it in bindE (bi_decr it) (\<lambda>it. Inr (ret, it)))"

section \<open>Positions\<close>

text \<open>Both loops of \<^verbatim>\<open>linearize\<close>; they subtract \<^verbatim>\<open>1\<close> or nothing from every element.\<close>

fun linearize_loop :: "int \<Rightarrow> idx \<Rightarrow> idx \<Rightarrow> nat \<Rightarrow> int \<Rightarrow> int \<Rightarrow> int" where
  "linearize_loop off boundary i 0 multiplier res = res"
| "linearize_loop off boundary i (Suc n) multiplier res =
     linearize_loop off boundary i n (multiplier * boundary ! n) (res + (i ! n - off) * multiplier)"

definition bi_linearize :: "bounds_iterator \<Rightarrow> idx \<Rightarrow> int" where
  "bi_linearize it i =
     (if \<not> bi_less i (bi_boundary it) then linearize_loop 1 (bi_boundary it) i (length (bi_boundary it)) 1 1
      else linearize_loop 0 (bi_boundary it) i (length (bi_boundary it)) 1 0)"

definition bi_diff :: "bounds_iterator \<Rightarrow> bounds_iterator \<Rightarrow> int" where
  "bi_diff it rhs = bi_linearize it (bi_curr it) - bi_linearize it (bi_curr rhs)"

text \<open>
  \<^verbatim>\<open>+=\<close>. The strides are those of \<^verbatim>\<open>make_stride\<close>. (\<^verbatim>\<open>stride = 0\<close> in the code converts a
  number to an \<^verbatim>\<open>index<rank>\<close>, which is possible for rank one only.)
\<close>

fun stride_loop :: "idx \<Rightarrow> int list \<Rightarrow> nat \<Rightarrow> int list" where
  "stride_loop boundary stride 0 = stride"
| "stride_loop boundary stride (Suc i) =
     stride_loop boundary (stride[i := stride ! (i + 1) * boundary ! (i + 1)]) i"

fun divide_loop :: "int list \<Rightarrow> int \<Rightarrow> idx result" where
  "divide_loop [] linear_idx = Inr []"
| "divide_loop (s # stride) linear_idx =
     (if s = 0 then Inl Undefined
      else bindE (divide_loop stride (linear_idx smod s)) (\<lambda>is. Inr ((linear_idx sdiv s) # is)))"

definition bi_advance :: "int \<Rightarrow> bounds_iterator \<Rightarrow> bounds_iterator result" where
  "bi_advance n it =
     (let linear_idx = bi_linearize it (bi_curr it) + n;
          rank = length (bi_boundary it);
          stride = stride_loop (bi_boundary it) ((idx_zero rank)[rank - 1 := 1]) (rank - 1) in
      bindE (divide_loop stride linear_idx) (\<lambda>cur.
      bindE (fail_fast_assert (\<not> bi_less cur (idx_zero rank) \<and> \<not> bi_less (bi_boundary it) cur)) (\<lambda>_.
      Inr (it\<lparr>bi_curr := cur\<rparr>))))"

definition bi_plus :: "bounds_iterator \<Rightarrow> int \<Rightarrow> bounds_iterator result" where
  "bi_plus it n = (let ret = it in bi_advance n ret)"

definition bi_retreat :: "int \<Rightarrow> bounds_iterator \<Rightarrow> bounds_iterator result" where
  "bi_retreat n it = bi_advance (- n) it"

definition bi_minus :: "bounds_iterator \<Rightarrow> int \<Rightarrow> bounds_iterator result" where
  "bi_minus it n = (let ret = it in bi_retreat n ret)"

definition bi_at :: "bounds_iterator \<Rightarrow> int \<Rightarrow> idx result" where
  "bi_at it n = bindE (bi_plus it n) (\<lambda>it. Inr (bi_deref it))"

section \<open>Comparisons\<close>

definition bi_eq :: "bounds_iterator \<Rightarrow> bounds_iterator \<Rightarrow> bool" where
  "bi_eq it rhs = idx_eq (bi_curr it) (bi_curr rhs)"

definition bi_ne :: "bounds_iterator \<Rightarrow> bounds_iterator \<Rightarrow> bool" where
  "bi_ne it rhs = (\<not> bi_eq it rhs)"

definition bi_lt :: "bounds_iterator \<Rightarrow> bounds_iterator \<Rightarrow> bool" where
  "bi_lt it rhs = bi_less (bi_curr it) (bi_curr rhs)"

definition bi_le :: "bounds_iterator \<Rightarrow> bounds_iterator \<Rightarrow> bool" where
  "bi_le it rhs = (\<not> bi_lt rhs it)"

definition bi_gt :: "bounds_iterator \<Rightarrow> bounds_iterator \<Rightarrow> bool" where
  "bi_gt it rhs = bi_lt rhs it"

definition bi_ge :: "bounds_iterator \<Rightarrow> bounds_iterator \<Rightarrow> bool" where
  "bi_ge it rhs = (\<not> bi_gt rhs it)"

section \<open>Steps and row-major order\<close>

text \<open>The step to the following index, from the right; \<^const>\<open>None\<close> where all positions wrap over.\<close>

fun carry :: "int list \<Rightarrow> idx \<Rightarrow> idx option" where
  "carry (d # ds) (i # is) = (case carry ds is of Some is' \<Rightarrow> Some (i # is')
     | None \<Rightarrow> if i < d - 1 then Some ((i + 1) # replicate (length is) 0) else None)"
| "carry _ _ = None"

fun borrow :: "int list \<Rightarrow> idx \<Rightarrow> idx option" where
  "borrow (d # ds) (i # is) = (case borrow ds is of Some is' \<Rightarrow> Some (i # is')
     | None \<Rightarrow> if i \<ge> 1 then Some ((i - 1) # map (\<lambda>d. d - 1) ds) else None)"
| "borrow _ _ = None"

lemma carry_snoc:
  "length ds = length is \<Longrightarrow>
   carry (ds @ [d]) (is @ [i]) = (if i < d - 1 then Some (is @ [i + 1]) else map_option (\<lambda>c. c @ [0]) (carry ds is))"
  by (induction ds "is" rule: list_induct2)
     (auto simp: replicate_append_same split: option.splits)

lemma borrow_snoc:
  "length ds = length is \<Longrightarrow>
   borrow (ds @ [d]) (is @ [i]) = (if i \<ge> 1 then Some (is @ [i - 1]) else map_option (\<lambda>c. c @ [d - 1]) (borrow ds is))"
  by (induction ds "is" rule: list_induct2) (auto split: option.splits)

lemma incr_loop_carry:
  "n \<le> length C \<Longrightarrow> length B = length C \<Longrightarrow>
   incr_loop B C n = (case carry (take n B) (take n C) of Some c \<Rightarrow> c @ drop n C | None \<Rightarrow> B)"
proof (induction n arbitrary: C)
  case (Suc n)
  then have "take (Suc n) B = take n B @ [B ! n]" "take (Suc n) C = take n C @ [C ! n]"
    by (simp_all add: take_Suc_conv_app_nth)
  then have c: "carry (take (Suc n) B) (take (Suc n) C) = (if C ! n < B ! n - 1 then Some (take n C @ [C ! n + 1])
      else map_option (\<lambda>c. c @ [0]) (carry (take n B) (take n C)))"
    using Suc.prems by (simp only: carry_snoc length_take)
  show ?case
    using Suc.prems Suc.IH [of "C[n := 0]"] unfolding c
    by (auto simp: upd_conv_take_nth_drop drop_update_swap Cons_nth_drop_Suc [symmetric] split: option.splits)
qed (simp add: incr_loop.simps)

lemma decr_loop_borrow:
  "n \<le> length C \<Longrightarrow> length B = length C \<Longrightarrow>
   decr_loop B C n = (case borrow (take n B) (take n C) of Some c \<Rightarrow> Inr (c @ drop n C) | None \<Rightarrow> Inl FailFast)"
proof (induction n arbitrary: C)
  case (Suc n)
  then have "take (Suc n) B = take n B @ [B ! n]" "take (Suc n) C = take n C @ [C ! n]"
    by (simp_all add: take_Suc_conv_app_nth)
  then have c: "borrow (take (Suc n) B) (take (Suc n) C) = (if C ! n \<ge> 1 then Some (take n C @ [C ! n - 1])
      else map_option (\<lambda>c. c @ [B ! n - 1]) (borrow (take n B) (take n C)))"
    using Suc.prems by (simp only: borrow_snoc length_take)
  show ?case
    using Suc.prems Suc.IH [of "C[n := B ! n - 1]"] unfolding c
    by (auto simp: upd_conv_take_nth_drop drop_update_swap Cons_nth_drop_Suc [symmetric] split: option.splits)
qed simp

definition positive :: "int list \<Rightarrow> bool" where
  "positive ds \<longleftrightarrow> list_all (\<lambda>d. 0 < d) ds"

lemma positive_Cons [simp]: "positive [] = True" "positive (d # ds) \<longleftrightarrow> 0 < d \<and> positive ds"
  by (simp_all add: positive_def)

lemma positive_prod: "positive ds \<Longrightarrow> 0 < prod_list ds"
  by (induction ds) simp_all

lemma unrank_position:
  "positive ds \<Longrightarrow> 0 \<le> k \<Longrightarrow> k < prod_list ds \<Longrightarrow> in_box ds (unrank ds k) \<and> row_major ds (unrank ds k) = k"
  by (rule row_major_unrank) (auto simp: positive_def list_all_iff)

lemma unrank_digits:
  "0 \<le> r \<Longrightarrow> r < prod_list ds \<Longrightarrow> unrank (d # ds) (i * prod_list ds + r) = i # unrank ds r"
  by simp

lemma in_box_positive: "in_box ds is \<Longrightarrow> positive ds"
  by (induction ds "is" rule: row_major.induct) (auto simp: in_box_def)

lemma unrank_zero: "positive ds \<Longrightarrow> unrank ds 0 = replicate (length ds) 0"
  by (induction ds) (simp_all)

lemma unrank_last: "positive ds \<Longrightarrow> unrank ds (prod_list ds - 1) = map (\<lambda>d. d - 1) ds"
proof (induction ds)
  case (Cons d ds)
  have p: "0 < prod_list ds" using Cons.prems by (simp add: positive_prod)
  have e: "d * prod_list ds - 1 = (d - 1) * prod_list ds + (prod_list ds - 1)" by (simp add: algebra_simps)
  have "unrank (d # ds) (d * prod_list ds - 1) = (d - 1) # unrank ds (prod_list ds - 1)"
    unfolding e using p by (intro unrank_digits) simp_all
  with Cons show ?case by (simp del: unrank.simps)
qed simp

lemma carry_in_box:
  "in_box ds is \<Longrightarrow> carry ds is = (if row_major ds is + 1 < prod_list ds
     then Some (unrank ds (row_major ds is + 1)) else None)"
proof (induction ds arbitrary: "is")
  case (Cons d ds)
  from Cons.prems obtain i is' where i: "is = i # is'" "0 \<le> i" "i < d" "in_box ds is'"
    "0 \<le> row_major ds is'" "row_major ds is' < prod_list ds"
    "i * prod_list ds + row_major ds is' < d * prod_list ds" by (rule in_box_ConsE)
  show ?case
  proof (cases "row_major ds is' + 1 < prod_list ds")
    case True
    have "(i + 1) * prod_list ds \<le> d * prod_list ds" using i(3,5,6) by (intro mult_right_mono) simp_all
    then have "i * prod_list ds + (row_major ds is' + 1) < d * prod_list ds" using True by (simp add: algebra_simps)
    moreover have "unrank (d # ds) (i * prod_list ds + (row_major ds is' + 1)) = i # unrank ds (row_major ds is' + 1)"
      using True i(5) by (intro unrank_digits) simp_all
    ultimately show ?thesis using True Cons.IH [OF i(4)] i(1) by (simp add: add.assoc del: unrank.simps)
  next
    case False
    then have r: "row_major ds is' + 1 = prod_list ds" using i by simp
    have p: "0 < prod_list ds" using i by simp
    have z: "unrank ds 0 = replicate (length is') 0"
      using unrank_zero [OF in_box_positive [OF i(4)]] in_box_length [OF i(4)] by simp
    have "i * prod_list ds + row_major ds is' + 1 = (i + 1) * prod_list ds" using r by (simp add: algebra_simps)
    moreover have "(i + 1) * prod_list ds < d * prod_list ds \<longleftrightarrow> i + 1 < d"
      using p by (simp add: mult_less_cancel_right)
    ultimately show ?thesis using p False i(1) Cons.IH [OF i(4)] z by auto
  qed
qed (auto simp: in_box_def)

lemma borrow_in_box:
  "in_box ds is \<Longrightarrow> borrow ds is = (if 0 < row_major ds is then Some (unrank ds (row_major ds is - 1)) else None)"
proof (induction ds arbitrary: "is")
  case (Cons d ds)
  from Cons.prems obtain i is' where i: "is = i # is'" "0 \<le> i" "i < d" "in_box ds is'"
    "0 \<le> row_major ds is'" "row_major ds is' < prod_list ds"
    "i * prod_list ds + row_major ds is' < d * prod_list ds" by (rule in_box_ConsE)
  have p: "0 < prod_list ds" using i by simp
  show ?case
  proof (cases "0 < row_major ds is'")
    case True
    have "unrank (d # ds) (i * prod_list ds + (row_major ds is' - 1)) = i # unrank ds (row_major ds is' - 1)"
      using True i(6) by (intro unrank_digits) simp_all
    moreover have "0 < i * prod_list ds + row_major ds is'" using True i(2) p by (simp add: add_nonneg_pos)
    ultimately show ?thesis using True Cons.IH [OF i(4)] i(1) by (simp add: add_diff_eq del: unrank.simps)
  next
    case False
    then have r: "row_major ds is' = 0" using i by simp
    have e: "i * prod_list ds - 1 = (i - 1) * prod_list ds + (prod_list ds - 1)" by (simp add: algebra_simps)
    have "unrank (d # ds) (i * prod_list ds - 1) = (i - 1) # unrank ds (prod_list ds - 1)"
      unfolding e using p by (intro unrank_digits) simp_all
    moreover have "0 < i * prod_list ds \<longleftrightarrow> 1 \<le> i" using p i(2) by (auto simp: zero_less_mult_iff)
    ultimately show ?thesis using r i(1) Cons.IH [OF i(4)] unrank_last [OF in_box_positive [OF i(4)]] by (auto simp del: unrank.simps)
  qed
qed (auto simp: in_box_def)

lemma bi_less_in_box: "in_box ds is \<Longrightarrow> ds \<noteq> [] \<Longrightarrow> bi_less is ds"
  by (cases ds; cases "is") (auto simp: bi_less_def)

lemma bi_less_self: "\<not> bi_less ds ds"
  by (induction ds) (auto simp: bi_less_def)

lemma row_major_snoc:
  "length ds = length is \<Longrightarrow> row_major (ds @ [d]) (is @ [i]) = row_major ds is * d + i"
  by (induction ds "is" rule: list_induct2) (simp_all add: algebra_simps)

lemma linearize_loop_row_major:
  "n \<le> length B \<Longrightarrow> length i = length B \<Longrightarrow>
   linearize_loop off B i n m res = res + m * row_major (take n B) (map (\<lambda>x. x - off) (take n i))"
proof (induction n arbitrary: m res)
  case (Suc n)
  then have "row_major (take (Suc n) B) (map (\<lambda>x. x - off) (take (Suc n) i))
      = row_major (take n B) (map (\<lambda>x. x - off) (take n i)) * (B ! n) + (i ! n - off)"
    by (simp add: take_Suc_conv_app_nth row_major_snoc)
  with Suc show ?case by (simp only: linearize_loop.simps Suc_leD) (simp add: algebra_simps)
qed simp

section \<open>Iterating\<close>

text \<open>The position of an iterator: an index inside the extents, or the end.\<close>

definition bi_position :: "idx \<Rightarrow> int \<Rightarrow> idx" where
  "bi_position ds k = (if k < prod_list ds then unrank ds k else ds)"

lemma bi_incr_position:
  assumes "positive ds" "0 \<le> k" "k < prod_list ds"
  shows "bi_incr \<lparr>bi_boundary = ds, bi_curr = bi_position ds k\<rparr> = \<lparr>bi_boundary = ds, bi_curr = bi_position ds (k + 1)\<rparr>"
proof -
  have b: "in_box ds (unrank ds k)" "row_major ds (unrank ds k) = k"
    using unrank_position [OF assms] by simp_all
  with assms(3) carry_in_box [OF b(1)] in_box_length [OF b(1)] show ?thesis
    by (simp add: bi_incr_def bi_position_def incr_loop_carry)
qed

lemma bi_decr_position:
  assumes "positive ds" "ds \<noteq> []" "0 < k" "k \<le> prod_list ds"
  shows "bi_decr \<lparr>bi_boundary = ds, bi_curr = bi_position ds k\<rparr> = Inr \<lparr>bi_boundary = ds, bi_curr = bi_position ds (k - 1)\<rparr>"
proof (cases "k = prod_list ds")
  case True
  then show ?thesis using unrank_last [OF assms(1)] by (simp add: bi_decr_def bi_position_def bi_less_self)
next
  case False
  then have k: "k < prod_list ds" "0 \<le> k" using assms by simp_all
  have b: "in_box ds (unrank ds k)" "row_major ds (unrank ds k) = k"
    using unrank_position [OF assms(1) k(2,1)] by simp_all
  with assms(2,3) k borrow_in_box [OF b(1)] in_box_length [OF b(1)] bi_less_in_box [OF b(1)] show ?thesis
    by (simp add: bi_decr_def bi_position_def decr_loop_borrow)
qed

lemma bi_linearize_position:
  assumes "positive ds" "ds \<noteq> []" "0 \<le> k" "k \<le> prod_list ds"
  shows "bi_linearize \<lparr>bi_boundary = ds, bi_curr = c\<rparr> (bi_position ds k) = k"
proof (cases "k = prod_list ds")
  case True
  have "row_major ds (map (\<lambda>d. d - 1) ds) = prod_list ds - 1"
    using unrank_position [OF assms(1), of "prod_list ds - 1"] unrank_last [OF assms(1)] positive_prod [OF assms(1)] by simp
  with True show ?thesis by (simp add: bi_linearize_def bi_position_def bi_less_self linearize_loop_row_major)
next
  case False
  then have k: "k < prod_list ds" using assms by simp
  have b: "in_box ds (unrank ds k)" "row_major ds (unrank ds k) = k"
    using unrank_position [OF assms(1,3) k] by simp_all
  with k bi_less_in_box [OF b(1) assms(2)] in_box_length [OF b(1)] show ?thesis
    by (simp add: bi_linearize_def bi_position_def linearize_loop_row_major)
qed

lemma bi_begin_position: "positive ds \<Longrightarrow> bi_position ds 0 = replicate (length ds) 0"
  using positive_prod [of ds] by (simp add: bi_position_def unrank_zero)

lemma bi_incr_pow:
  "positive ds \<Longrightarrow> int k \<le> prod_list ds \<Longrightarrow>
   (bi_incr ^^ k) \<lparr>bi_boundary = ds, bi_curr = bi_position ds 0\<rparr> = \<lparr>bi_boundary = ds, bi_curr = bi_position ds (int k)\<rparr>"
  by (induction k) (simp_all add: bi_incr_position add.commute)

lemma bounds_begin_position:
  "ranges_rep b ds \<Longrightarrow> positive ds \<Longrightarrow> bounds_begin b = Inr \<lparr>bi_boundary = ds, bi_curr = bi_position ds 0\<rparr>"
  using serialize_rep [of b ds] template_length [of b ds]
  by (cases ds) (auto simp: bounds_begin_def index_bounds_def idx_zero_def bounds_rank_def bi_begin_position positive_def list_all_iff)

lemma bounds_end_position:
  "ranges_rep b ds \<Longrightarrow> positive ds \<Longrightarrow> bounds_end b = Inr \<lparr>bi_boundary = ds, bi_curr = bi_position ds (prod_list ds)\<rparr>"
  using serialize_rep [of b ds]
  by (cases ds) (auto simp: bounds_end_def index_bounds_def bi_position_def positive_def list_all_iff)

lemma incr_empty:
  assumes "k \<le> d"
  shows "(bi_incr ^^ k) \<lparr>bi_boundary = [int d, 0], bi_curr = [0, 0]\<rparr>
    = \<lparr>bi_boundary = [int d, 0], bi_curr = [int k, 0]\<rparr> \<or> k = d"
  using assms
proof (induction k)
  case (Suc k)
  then show ?case by (cases "Suc k = d") (auto simp: bi_incr_def numeral_2_eq_2)
qed simp

section \<open>Properties\<close>

text \<open>
  C35. The iterator over the indices of a bounds object without an empty extent: after \<open>k\<close>
  increments it stands on the index that is mapped to the offset \<open>k\<close>, a decrement takes the last
  increment back, its distance from the beginning is \<open>k\<close>, and as many increments as the object
  has indices lead to the end.
\<close>

theorem iterator_in_offset_order:
  assumes "template_ok ts" "bounds_of ts il = Inr b" "positive (extents_of ts il)" "ts \<noteq> []"
    and "int k < prod_list (extents_of ts il)"
  shows "\<exists>s e. bounds_begin b = Inr s \<and> bounds_end b = Inr e \<and>
    bounds_linearize b (bi_deref ((bi_incr ^^ k) s)) = Inr (int k) \<and>
    bi_diff ((bi_incr ^^ k) s) s = int k \<and>
    bi_decr ((bi_incr ^^ Suc k) s) = Inr ((bi_incr ^^ k) s) \<and>
    (bi_incr ^^ nat (prod_list (extents_of ts il))) s = e"
proof -
  let ?ds = "extents_of ts il"
  let ?at = "\<lambda>k. \<lparr>bi_boundary = ?ds, bi_curr = bi_position ?ds k\<rparr>"
  have rep: "ranges_rep b ?ds" by (rule bounds_of_rep [OF assms(2,1)])
  have ne: "?ds \<noteq> []" using assms(4) by (cases ts) simp_all
  have k: "(bi_incr ^^ k) (?at 0) = ?at (int k)" "(bi_incr ^^ Suc k) (?at 0) = ?at (int (Suc k))"
    using bi_incr_pow [OF assms(3), of k] bi_incr_pow [OF assms(3), of "Suc k"] assms(5) by simp_all
  have "bi_decr ((bi_incr ^^ Suc k) (?at 0)) = Inr ((bi_incr ^^ k) (?at 0))"
    unfolding k using bi_decr_position [OF assms(3) ne, of "int (Suc k)"] assms(5) by simp
  moreover have "bi_diff ((bi_incr ^^ k) (?at 0)) (?at 0) = int k"
    unfolding k bi_diff_def using bi_linearize_position [OF assms(3) ne] assms(5) by simp
  moreover have "bounds_linearize b (bi_deref ((bi_incr ^^ k) (?at 0))) = Inr (int k)"
    unfolding k bi_deref_def bounds_linearize_def using linearize_rep [OF rep] unrank_position [OF assms(3) _ assms(5)] assms(5)
    by (simp add: bi_position_def)
  moreover have "(bi_incr ^^ nat (prod_list ?ds)) (?at 0) = ?at (prod_list ?ds)"
    using bi_incr_pow [OF assms(3), of "nat (prod_list ?ds)"] positive_prod [OF assms(3)] by simp
  ultimately show ?thesis
    using bounds_begin_position [OF rep assms(3)] bounds_end_position [OF rep assms(3)] by blast
qed

theorem iterator_in_offset_order_witness:
  "\<exists>s e. bounds_begin (DynRange 6 (StatRange 3 NoRange)) = Inr s \<and> (bi_incr ^^ 6) s = e \<and>
     bounds_end (DynRange 6 (StatRange 3 NoRange)) = Inr e \<and> bi_diff ((bi_incr ^^ 4) s) s = 4"
proof -
  have b: "bounds_of [dynamic_range, 3] [2] = Inr (DynRange 6 (StatRange 3 NoRange))"
    by (simp add: bounds_of_def dynamic_range_def ptrdiff_def ptrdiff_max_def)
  have "template_ok [dynamic_range, 3]" by (simp add: template_ok_def)
  from iterator_in_offset_order [OF this b, of 4] show ?thesis by (auto simp: dynamic_range_def)
qed

text \<open>
  Over bounds of two dimensions of which the second is empty, the iterator does not begin at
  the end: it first stands on an index for every value of the first dimension, though there is
  no index inside the extents.
\<close>

lemma empty_bounds_iterated:
  assumes "bounds_of [c, 0] il = Inr b" "c = int d" "k < d"
  shows "\<exists>s e. bounds_begin b = Inr s \<and> bounds_end b = Inr e \<and> bounds_size b = Inr 0 \<and>
    bi_deref ((bi_incr ^^ k) s) = [int k, 0] \<and> bi_ne ((bi_incr ^^ k) s) e"
proof -
  have b: "b = StatRange (int d) (StatRange 0 NoRange)"
    using assms(1,2) by (auto simp: bounds_of_def returned dynamic_range_def)
  then have se: "bounds_begin b = Inr \<lparr>bi_boundary = [int d, 0], bi_curr = [0, 0]\<rparr>"
    "bounds_end b = Inr \<lparr>bi_boundary = [int d, 0], bi_curr = [int d, 0]\<rparr>"
    by (simp_all add: bounds_begin_def bounds_end_def index_bounds_def idx_zero_def bounds_rank_def numeral_2_eq_2)
  have "(bi_incr ^^ k) \<lparr>bi_boundary = [int d, 0], bi_curr = [0, 0]\<rparr>
      = \<lparr>bi_boundary = [int d, 0], bi_curr = [int k, 0]\<rparr>"
    using incr_empty [of k d] assms(3) by auto
  with se b assms(3) show ?thesis by (simp add: bi_deref_def bi_ne_def bi_eq_def idx_eq_def bounds_size_def ptrdiff_def ptrdiff_max_def)
qed

lemma empty_bounds_iterated_witness:
  "\<exists>s e. bounds_begin (StatRange 2 (StatRange 0 NoRange)) = Inr s \<and>
     bounds_end (StatRange 2 (StatRange 0 NoRange)) = Inr e \<and> bi_ne (bi_incr s) e"
proof -
  have "bounds_of [2, 0] [] = Inr (StatRange 2 (StatRange 0 NoRange))"
    by (simp add: bounds_of_def dynamic_range_def ptrdiff_def ptrdiff_max_def)
  from empty_bounds_iterated [OF this, of 2 1] show ?thesis by auto
qed

end
