(* ===== verification/MultiSpan.thy ===== *)
theory MultiSpan
  imports BoundsIterator
begin

text \<open>
  Multi-dimensional spans of \<^verbatim>\<open>gsl/include/span.h\<close>: \<^verbatim>\<open>strided_bounds\<close>, the general
  \<^verbatim>\<open>span\<close>, sections of it as \<^verbatim>\<open>strided_span\<close>, and \<^verbatim>\<open>general_span_iterator\<close>.
  The one-dimensional dynamic span that the program uses has its own, equal definitions in
  \<open>Span\<close>.
\<close>

section \<open>strided_bounds\<close>

record strided_bounds =
  m_extents :: idx
  m_strides :: idx

definition strides :: "strided_bounds \<Rightarrow> idx" where
  "strides b = m_strides b"

definition sb_total_size :: "strided_bounds \<Rightarrow> int" where
  "sb_total_size b =
     (let ret = fold (\<lambda>i ret. ret + (m_extents b ! i - 1) * m_strides b ! i) [0..<length (m_extents b)] 0
      in ret + 1)"

definition sb_size :: "strided_bounds \<Rightarrow> int" where
  "sb_size b = fold (\<lambda>i ret. ret * m_extents b ! i) [0..<length (m_extents b)] 1"

definition sb_contains :: "strided_bounds \<Rightarrow> idx \<Rightarrow> bool" where
  "sb_contains b i = list_all (\<lambda>(x, e). \<not> (x < 0 \<or> x \<ge> e)) (zip i (m_extents b))"

fun sb_linearize_loop :: "strided_bounds \<Rightarrow> idx \<Rightarrow> nat list \<Rightarrow> int \<Rightarrow> int result" where
  "sb_linearize_loop b i [] ret = Inr ret"
| "sb_linearize_loop b i (k # ks) ret =
     bindE (fail_fast_assert (i ! k < m_extents b ! k)) (\<lambda>_.
     sb_linearize_loop b i ks (ret + i ! k * m_strides b ! k))"

definition sb_linearize :: "strided_bounds \<Rightarrow> idx \<Rightarrow> int result" where
  "sb_linearize b i = sb_linearize_loop b i [0..<length (m_extents b)] 0"

definition sb_stride :: "strided_bounds \<Rightarrow> int result" where
  "sb_stride b = idx_at (m_strides b) 0"

definition sb_slice :: "strided_bounds \<Rightarrow> strided_bounds" where
  "sb_slice b = \<lparr>m_extents = shift_left (m_extents b), m_strides = shift_left (m_strides b)\<rparr>"

definition sb_begin :: "strided_bounds \<Rightarrow> bounds_iterator" where
  "sb_begin b = \<lparr>bi_boundary = m_extents b, bi_curr = idx_zero (length (m_extents b))\<rparr>"

definition sb_end :: "strided_bounds \<Rightarrow> bounds_iterator" where
  "sb_end b = \<lparr>bi_boundary = m_extents b, bi_curr = m_extents b\<rparr>"

section \<open>span\<close>

record 'a mspan =
  ms_pdata :: "'a ptr"
  ms_bounds :: ranges

definition ms_of :: "'a ptr \<Rightarrow> ranges \<Rightarrow> 'a mspan result" where
  "ms_of data bounds =
     bindE (bounds_size bounds) (\<lambda>n.
     bindE (fail_fast_assert ((n > 0 \<and> data \<noteq> Null) \<or> n = 0)) (\<lambda>_.
     Inr \<lparr>ms_pdata = data, ms_bounds = bounds\<rparr>))"

definition ms_ref :: "'a mspan \<Rightarrow> idx \<Rightarrow> 'a ptr result" where
  "ms_ref sp i = bindE (bounds_linearize (ms_bounds sp) i) (\<lambda>k. Inr (ptr_add (ms_pdata sp) k))"

text \<open>\<^verbatim>\<open>operator[](size_type)\<close> of a span of rank above one: the span of the remaining dimensions.\<close>

definition ms_sub :: "'a mspan \<Rightarrow> int \<Rightarrow> 'a mspan result" where
  "ms_sub sp i =
     bindE (bounds_size (ms_bounds sp)) (\<lambda>n.
     bindE (fail_fast_assert (i < n)) (\<lambda>_.
     bindE (bounds_stride (ms_bounds sp)) (\<lambda>stride.
     bindE (ptrdiff (i * stride)) (\<lambda>ridx.
     bindE (bounds_size (ms_bounds sp)) (\<lambda>total.
     bindE (fail_fast_assert (ridx < total)) (\<lambda>_.
     ms_of (ptr_add (ms_pdata sp) ridx) (bounds_slice (ms_bounds sp))))))))"

text \<open>
  \<^verbatim>\<open>as_span(dims...)\<close>. A dimension is \<^verbatim>\<open>dim<N>\<close> or a \<^verbatim>\<open>dim<dynamic_range>\<close> with its value;
  \<^verbatim>\<open>static_as_span_helper\<close> collects the values, and without any the bounds are default
  constructed.
\<close>

datatype dim = Dim int | DynDim int

fun dim_value :: "dim \<Rightarrow> int" where
  "dim_value (Dim n) = n" | "dim_value (DynDim n) = dynamic_range"

fun static_as_span_helper :: "dim list \<Rightarrow> int list" where
  "static_as_span_helper [] = []"
| "static_as_span_helper (Dim n # args) = static_as_span_helper args"
| "static_as_span_helper (DynDim dvalue # args) = dvalue # static_as_span_helper args"

definition dim_bounds :: "dim list \<Rightarrow> ranges result" where
  "dim_bounds dims =
     (case static_as_span_helper dims of
        [] \<Rightarrow> Inr (default_ranges (map dim_value dims))
      | il \<Rightarrow> bounds_of (map dim_value dims) il)"

definition verifyBoundsReshape :: "ranges \<Rightarrow> ranges \<Rightarrow> unit result" where
  "verifyBoundsReshape src dest =
     bindE (bounds_size src) (\<lambda>m. bindE (bounds_size dest) (\<lambda>n. fail_fast_assert (m = n)))"

definition ms_as_span :: "'a mspan \<Rightarrow> dim list \<Rightarrow> 'a mspan result" where
  "ms_as_span sp dims =
     bindE (dim_bounds dims) (\<lambda>tobounds.
     bindE (verifyBoundsReshape (ms_bounds sp) tobounds) (\<lambda>_. ms_of (ms_pdata sp) tobounds))"

definition as_span_dims :: "'a ptr \<Rightarrow> dim list \<Rightarrow> 'a mspan result" where
  "as_span_dims p args = bindE (dim_bounds args) (\<lambda>b. ms_of p b)"

section \<open>strided_span\<close>

record 'a strided_span =
  ss_pdata :: "'a ptr"
  ss_bounds :: strided_bounds

definition ss_of :: "'a ptr \<Rightarrow> int \<Rightarrow> strided_bounds \<Rightarrow> 'a strided_span result" where
  "ss_of p sz bounds =
     bindE (fail_fast_assert ((sb_size bounds > 0 \<and> p \<noteq> Null) \<or> sb_size bounds = 0)) (\<lambda>_.
     bindE (fail_fast_assert (sb_total_size bounds \<le> sz)) (\<lambda>_.
     Inr \<lparr>ss_pdata = p, ss_bounds = bounds\<rparr>))"

definition ss_of_span :: "'a mspan \<Rightarrow> strided_bounds \<Rightarrow> 'a strided_span result" where
  "ss_of_span av bounds = bindE (bounds_size (ms_bounds av)) (\<lambda>n. ss_of (ms_pdata av) n bounds)"

definition ss_ref :: "'a strided_span \<Rightarrow> idx \<Rightarrow> 'a ptr result" where
  "ss_ref sp i = bindE (sb_linearize (ss_bounds sp) i) (\<lambda>k. Inr (ptr_add (ss_pdata sp) k))"

definition ss_sub :: "'a strided_span \<Rightarrow> int \<Rightarrow> 'a strided_span result" where
  "ss_sub sp i =
     bindE (fail_fast_assert (i < sb_size (ss_bounds sp))) (\<lambda>_.
     bindE (sb_stride (ss_bounds sp)) (\<lambda>stride.
     let ridx = i * stride in
     bindE (fail_fast_assert (ridx < sb_total_size (ss_bounds sp))) (\<lambda>_.
     ss_of (ptr_add (ss_pdata sp) ridx) (sb_total_size (sb_slice (ss_bounds sp))) (sb_slice (ss_bounds sp)))))"

definition make_stride :: "ranges \<Rightarrow> idx result" where
  "make_stride bnd =
     bindE (index_bounds bnd) (\<lambda>extents.
     let rank = bounds_rank bnd; stride = (replicate rank 0)[rank - 1 := 1] in
     Inr (stride_loop extents stride (rank - 1)))"

definition ms_section :: "'a mspan \<Rightarrow> idx \<Rightarrow> idx \<Rightarrow> 'a strided_span result" where
  "ms_section sp origin extents =
     bindE (bounds_size (ms_bounds sp)) (\<lambda>total.
     bindE (bounds_linearize (ms_bounds sp) origin) (\<lambda>k.
     bindE (ms_ref sp origin) (\<lambda>p.
     bindE (make_stride (ms_bounds sp)) (\<lambda>str.
     ss_of p (total - k) \<lparr>m_extents = extents, m_strides = str\<rparr>))))"

definition ss_section :: "'a strided_span \<Rightarrow> idx \<Rightarrow> idx \<Rightarrow> 'a strided_span result" where
  "ss_section sp origin extents =
     bindE (sb_linearize (ss_bounds sp) origin) (\<lambda>k.
     let sz = sb_total_size (ss_bounds sp) - k in
     bindE (ss_ref sp origin) (\<lambda>p.
     ss_of p sz \<lparr>m_extents = extents, m_strides = strides (ss_bounds sp)\<rparr>))"

section \<open>general_span_iterator\<close>

text \<open>\<^verbatim>\<open>m_container\<close> is a pointer: its address, and the span that is there.\<close>

record 'a general_iterator =
  gi_address :: int
  gi_container :: "'a strided_span"
  gi_itr :: bounds_iterator

definition gi_of :: "int \<Rightarrow> 'a strided_span \<Rightarrow> bool \<Rightarrow> 'a general_iterator" where
  "gi_of address container isbegin = \<lparr>gi_address = address, gi_container = container,
     gi_itr = (if isbegin then sb_begin (ss_bounds container) else sb_end (ss_bounds container))\<rparr>"

definition ss_begin :: "int \<Rightarrow> 'a strided_span \<Rightarrow> 'a general_iterator" where
  "ss_begin this sp = gi_of this sp True"

definition ss_end :: "int \<Rightarrow> 'a strided_span \<Rightarrow> 'a general_iterator" where
  "ss_end this sp = gi_of this sp False"

definition gi_ref :: "'a general_iterator \<Rightarrow> 'a ptr result" where
  "gi_ref it = ss_ref (gi_container it) (bi_deref (gi_itr it))"

definition gi_deref :: "'a general_iterator \<Rightarrow> 'a result" where
  "gi_deref it = bindE (gi_ref it) load"

definition gi_incr :: "'a general_iterator \<Rightarrow> 'a general_iterator" where
  "gi_incr it = it\<lparr>gi_itr := bi_incr (gi_itr it)\<rparr>"

definition gi_incr_post :: "'a general_iterator \<Rightarrow> 'a general_iterator \<times> 'a general_iterator" where
  "gi_incr_post it = (let ret = it in (ret, gi_incr it))"

definition gi_decr :: "'a general_iterator \<Rightarrow> 'a general_iterator result" where
  "gi_decr it = bindE (bi_decr (gi_itr it)) (\<lambda>i. Inr (it\<lparr>gi_itr := i\<rparr>))"

definition gi_decr_post :: "'a general_iterator \<Rightarrow> ('a general_iterator \<times> 'a general_iterator) result" where
  "gi_decr_post it = (let ret = it in bindE (gi_decr it) (\<lambda>it. Inr (ret, it)))"

definition gi_advance :: "int \<Rightarrow> 'a general_iterator \<Rightarrow> 'a general_iterator result" where
  "gi_advance n it = bindE (bi_advance n (gi_itr it)) (\<lambda>i. Inr (it\<lparr>gi_itr := i\<rparr>))"

definition gi_plus :: "'a general_iterator \<Rightarrow> int \<Rightarrow> 'a general_iterator result" where
  "gi_plus it n = (let ret = it in gi_advance n ret)"

definition gi_retreat :: "int \<Rightarrow> 'a general_iterator \<Rightarrow> 'a general_iterator result" where
  "gi_retreat n it = gi_advance (- n) it"

definition gi_minus :: "'a general_iterator \<Rightarrow> int \<Rightarrow> 'a general_iterator result" where
  "gi_minus it n = (let ret = it in gi_retreat n ret)"

definition gi_diff :: "'a general_iterator \<Rightarrow> 'a general_iterator \<Rightarrow> int result" where
  "gi_diff it rhs = bindE (fail_fast_assert (gi_address it = gi_address rhs)) (\<lambda>_.
     Inr (bi_diff (gi_itr it) (gi_itr rhs)))"

definition gi_at :: "'a general_iterator \<Rightarrow> int \<Rightarrow> 'a result" where
  "gi_at it n = bindE (bi_at (gi_itr it) n) (\<lambda>i. bindE (ss_ref (gi_container it) i) load)"

definition gi_eq :: "'a general_iterator \<Rightarrow> 'a general_iterator \<Rightarrow> bool result" where
  "gi_eq it rhs = bindE (fail_fast_assert (gi_address it = gi_address rhs)) (\<lambda>_.
     Inr (bi_eq (gi_itr it) (gi_itr rhs)))"

definition gi_ne :: "'a general_iterator \<Rightarrow> 'a general_iterator \<Rightarrow> bool result" where
  "gi_ne it rhs = bindE (gi_eq it rhs) (\<lambda>b. Inr (\<not> b))"

definition gi_lt :: "'a general_iterator \<Rightarrow> 'a general_iterator \<Rightarrow> bool result" where
  "gi_lt it rhs = bindE (fail_fast_assert (gi_address it = gi_address rhs)) (\<lambda>_.
     Inr (bi_lt (gi_itr it) (gi_itr rhs)))"

definition gi_le :: "'a general_iterator \<Rightarrow> 'a general_iterator \<Rightarrow> bool result" where
  "gi_le it rhs = bindE (gi_lt rhs it) (\<lambda>b. Inr (\<not> b))"

definition gi_gt :: "'a general_iterator \<Rightarrow> 'a general_iterator \<Rightarrow> bool result" where
  "gi_gt it rhs = gi_lt rhs it"

definition gi_ge :: "'a general_iterator \<Rightarrow> 'a general_iterator \<Rightarrow> bool result" where
  "gi_ge it rhs = bindE (gi_gt rhs it) (\<lambda>b. Inr (\<not> b))"

section \<open>Offsets as products with the strides\<close>

definition dot :: "int list \<Rightarrow> int list \<Rightarrow> int" where
  "dot xs ys = sum_list (map2 (*) xs ys)"

lemma dot_simps [simp]:
  "dot [] ys = 0" "dot xs [] = 0" "dot (x # xs) (y # ys) = x * y + dot xs ys"
  by (simp_all add: dot_def)

lemma dot_append: "length xs = length ys \<Longrightarrow> dot (xs @ xs') (ys @ ys') = dot xs ys + dot xs' ys'"
  by (simp add: dot_def)

lemma dot_add: "length xs = length ys \<Longrightarrow> dot (idx_add xs ys) zs = dot xs zs + dot ys zs"
proof (induction xs ys arbitrary: zs rule: list_induct2)
  case (Cons x xs y ys)
  then show ?case by (cases zs) (simp_all add: idx_add_def idx_add_assign_def distrib_right)
qed (simp add: idx_add_def idx_add_assign_def)

lemma fold_add_dot:
  "n \<le> length xs \<Longrightarrow> n \<le> length ys \<Longrightarrow> fold (\<lambda>i r. r + (xs ! i - c) * ys ! i) [0..<n] a = a + dot (map (\<lambda>x. x - c) (take n xs)) (take n ys)"
  by (induction n arbitrary: a) (simp_all add: take_Suc_conv_app_nth dot_append)

lemma sb_total_size_dot:
  "length (m_strides b) = length (m_extents b) \<Longrightarrow>
   sb_total_size b = dot (map (\<lambda>e. e - 1) (m_extents b)) (m_strides b) + 1"
  using fold_add_dot [of "length (m_extents b)" "m_extents b" "m_strides b" 1 0] by (simp add: sb_total_size_def)

lemma sb_size_prod: "sb_size b = prod_list (m_extents b)"
proof -
  have "n \<le> length xs \<Longrightarrow> fold (\<lambda>i r. r * xs ! i) [0..<n] a = a * prod_list (take n xs)" for n and xs :: idx and a
    by (induction n arbitrary: a) (simp_all add: take_Suc_conv_app_nth)
  then show ?thesis by (simp add: sb_size_def)
qed

lemma sb_linearize_loop_dot:
  "n \<le> length (m_extents b) \<Longrightarrow> length i = length (m_extents b) \<Longrightarrow> length (m_strides b) = length (m_extents b) \<Longrightarrow>
   (\<forall>k < length (m_extents b). i ! k < m_extents b ! k) \<Longrightarrow>
   sb_linearize_loop b i [n..<length (m_extents b)] ret = Inr (ret + dot (drop n i) (drop n (m_strides b)))"
proof (induction "length (m_extents b) - n" arbitrary: n ret)
  case (Suc m)
  then have n: "n < length (m_extents b)" by simp
  then have "[n..<length (m_extents b)] = n # [Suc n..<length (m_extents b)]" by (simp add: upt_conv_Cons)
  moreover have "drop n i = i ! n # drop (Suc n) i" "drop n (m_strides b) = m_strides b ! n # drop (Suc n) (m_strides b)"
    using n Suc.prems by (simp_all add: Cons_nth_drop_Suc)
  ultimately show ?case using n Suc.hyps(1) [of "Suc n"] Suc.hyps(2) Suc.prems by (simp add: algebra_simps)
qed simp

lemma sb_linearize_dot:
  assumes "in_box (m_extents b) i" "length (m_strides b) = length (m_extents b)"
  shows "sb_linearize b i = Inr (dot i (m_strides b))"
proof -
  have "\<forall>k < length (m_extents b). i ! k < m_extents b ! k" using assms(1) by (auto simp: in_box_def list_all2_conv_all_nth)
  then show ?thesis
    using sb_linearize_loop_dot [of 0 b i 0] in_box_length [OF assms(1)] assms(2) by (simp add: sb_linearize_def)
qed

fun row_strides :: "int list \<Rightarrow> int list" where
  "row_strides [] = []"
| "row_strides (d # ds) = prod_list ds # row_strides ds"

lemma length_row_strides [simp]: "length (row_strides ds) = length ds"
  by (induction ds) simp_all

lemma row_major_dot: "length is = length ds \<Longrightarrow> row_major ds is = dot is (row_strides ds)"
  by (induction ds "is" rule: row_major.induct) simp_all

lemma row_strides_nth: "k < length ds \<Longrightarrow> row_strides ds ! k = prod_list (drop (Suc k) ds)"
  by (induction ds arbitrary: k) (auto simp: nth_Cons split: nat.split)

lemma stride_loop_row:
  "Suc i \<le> length ds \<Longrightarrow> length S = length ds \<Longrightarrow> drop i S = drop i (row_strides ds) \<Longrightarrow>
   stride_loop ds S i = row_strides ds"
proof (induction i arbitrary: S)
  case (Suc i)
  have "S ! (i + 1) = row_strides ds ! (i + 1)" "drop (Suc (Suc i)) S = drop (Suc (Suc i)) (row_strides ds)"
    using Suc.prems by (metis Suc_eq_plus1 Suc_le_lessD nth_via_drop Cons_nth_drop_Suc length_row_strides,
        metis Suc.prems(3) drop_Suc tl_drop)
  moreover have "row_strides ds ! i = row_strides ds ! (i + 1) * ds ! (i + 1)"
    using Suc.prems(1) by (simp add: row_strides_nth Cons_nth_drop_Suc [symmetric] mult.commute)
  ultimately have "drop i (S[i := S ! (i + 1) * ds ! (i + 1)]) = drop i (row_strides ds)"
    using Suc.prems by (simp add: drop_update_swap Cons_nth_drop_Suc [symmetric])
  with Suc show ?case by simp
qed simp

lemma make_stride_rep:
  assumes "ranges_rep b ds" "positive ds" "ds \<noteq> []"
  shows "make_stride b = Inr (row_strides ds)"
proof -
  obtain n where n: "length ds = Suc n" using assms(3) by (cases ds) simp_all
  have "(replicate (Suc n) (0 :: int))[n := 1] = replicate n 0 @ [1]"
    by (induction n) simp_all
  then have "drop n ((replicate (Suc n) 0)[n := 1]) = drop n (row_strides ds)"
    using n row_strides_nth [of n ds] Cons_nth_drop_Suc [of n "row_strides ds"]
    by (simp del: replicate.simps)
  then have "stride_loop ds ((replicate (Suc n) 0)[n := 1]) n = row_strides ds"
    using n by (intro stride_loop_row) (simp_all del: replicate.simps)
  moreover have "0 \<notin> set (tl ds)" using assms(2) by (cases ds) (auto simp: positive_def list_all_iff)
  ultimately show ?thesis
    using serialize_rep [OF assms(1)] template_length [OF assms(1)] n
    by (simp add: make_stride_def index_bounds_def bounds_rank_def)
qed

section \<open>What is read through a span\<close>

lemma ptr_add_Ptr [simp]: "ptr_add (Ptr m i) k = Ptr m (i + k)"
  by (simp add: ptr_add_def)

lemma ms_ref_in_box:
  "ranges_rep (ms_bounds sp) ds \<Longrightarrow> in_box ds is \<Longrightarrow> ms_ref sp is = Inr (ptr_add (ms_pdata sp) (row_major ds is))"
  by (simp add: ms_ref_def bounds_linearize_def linearize_rep)

lemma ms_of_rep:
  "ranges_rep b ds \<Longrightarrow> p \<noteq> Null \<Longrightarrow> ms_of p b = Inr \<lparr>ms_pdata = p, ms_bounds = b\<rparr>"
  using ranges_rep_prod [of b ds] totalSize_rep [of b ds]
  by (auto simp: ms_of_def bounds_size_def fail_fast_assert_def)

lemma ms_sub_in_box:
  assumes "ranges_rep (ms_bounds sp) (d # ds)" "ds \<noteq> []" "ms_pdata sp = Ptr m p" "in_box (d # ds) (i # is)"
  shows "\<exists>sp'. ms_sub sp i = Inr sp' \<and> ranges_rep (ms_bounds sp') ds \<and> ms_pdata sp' = Ptr m (p + i * prod_list ds)"
proof -
  from assms(4) have i: "0 \<le> i" "i < d" "0 \<le> row_major ds is" "row_major ds is < prod_list ds"
    "i * prod_list ds + row_major ds is < d * prod_list ds" by - (rule in_box_ConsE [OF assms(4)], simp)+
  have base: "ranges_rep (range_base (ms_bounds sp)) ds" by (rule base_rep [OF assms(1)])
  have "0 \<le> d" "1 \<le> prod_list ds" using i by simp_all
  from mult_left_mono [OF this(2,1)] have "d \<le> d * prod_list ds" by (simp only: mult_1_right)
  then have "i < d * prod_list ds" using i(2) by (rule less_le_trans [rotated])
  moreover have "i * prod_list ds < d * prod_list ds" using i(3,5) by linarith
  moreover have "d * prod_list ds \<le> ptrdiff_max" using ranges_rep_prod [OF assms(1)] by simp
  moreover have "length ds \<noteq> 0" using assms(2) by simp
  ultimately show ?thesis
    using assms(3) i totalSize_rep [OF assms(1)] totalSize_rep [OF base] template_length [OF assms(1)]
      ms_of_rep [OF base, of "Ptr m (p + i * prod_list ds)"] base
    by (simp add: ms_sub_def bounds_size_def bounds_stride_def bounds_rank_def bounds_slice_def)
qed

lemma in_box_add:
  "in_box es is \<Longrightarrow> length os = length es \<Longrightarrow> list_all (\<lambda>x. 0 \<le> x) os \<Longrightarrow> list_all2 (\<le>) (idx_add os es) ds \<Longrightarrow>
   in_box ds (idx_add os is)"
  by (auto simp: in_box_def list_all2_conv_all_nth list_all_length idx_add_def idx_add_assign_def) fastforce+

lemma in_box_last: "positive es \<Longrightarrow> in_box es (map (\<lambda>e. e - 1) es)"
  by (auto simp: in_box_def list_all2_conv_all_nth positive_def list_all_length)

lemma section_in_box:
  assumes rep: "ranges_rep (ms_bounds sp) ds" and "in_box ds os" "ds \<noteq> []" "ms_pdata sp = Ptr m p"
    and "positive es" "list_all2 (\<le>) (idx_add os es) ds" "length es = length ds"
  shows "ms_section sp os es = Inr \<lparr>ss_pdata = Ptr m (p + row_major ds os),
    ss_bounds = \<lparr>m_extents = es, m_strides = row_strides ds\<rparr>\<rparr>"
proof -
  let ?b = "\<lparr>m_extents = es, m_strides = row_strides ds\<rparr>"
  let ?last = "map (\<lambda>e. e - 1) es"
  have len: "length os = length ds" "list_all (\<lambda>x. 0 \<le> x) os"
    using assms(2) by (auto simp: in_box_def list_all2_conv_all_nth list_all_length)
  have last: "in_box ds (idx_add os ?last)"
    using in_box_add [OF in_box_last [OF assms(5)], of os ds] assms(6,7) len by simp
  have "row_major ds (idx_add os ?last) = row_major ds os + dot ?last (row_strides ds)"
    using row_major_dot [OF in_box_length [OF last]] row_major_dot [OF len(1)] dot_add [of os ?last] len(1) assms(7) by simp
  with row_major_bound [OF last] have "sb_total_size ?b \<le> prod_list ds - row_major ds os"
    using assms(7) by (simp add: sb_total_size_dot)
  moreover have "0 < sb_size ?b" using positive_prod [OF assms(5)] by (simp add: sb_size_prod)
  ultimately show ?thesis
    using totalSize_rep [OF rep] linearize_rep [OF rep assms(2)] make_stride_rep [OF rep in_box_positive [OF assms(2)] assms(3)]
      ms_ref_in_box [OF rep assms(2)] assms(4)
    by (simp add: ms_section_def bounds_size_def bounds_linearize_def ss_of_def)
qed

lemma ss_ref_dot:
  "in_box (m_extents b) is \<Longrightarrow> length (m_strides b) = length (m_extents b) \<Longrightarrow>
   ss_ref \<lparr>ss_pdata = p, ss_bounds = b\<rparr> is = Inr (ptr_add p (dot is (m_strides b)))"
  by (simp add: ss_ref_def sb_linearize_dot)

lemma dot_bounds:
  "in_box es is \<Longrightarrow> length ss = length es \<Longrightarrow> list_all (\<lambda>s. 0 \<le> s) ss \<Longrightarrow>
   0 \<le> dot is ss \<and> dot is ss \<le> dot (map (\<lambda>e. e - 1) es) ss"
proof (induction es "is" arbitrary: ss rule: row_major.induct)
  case (1 e es i "is")
  then obtain s ss' where s: "ss = s # ss'" by (cases ss) simp_all
  with 1 have "0 \<le> dot is ss' \<and> dot is ss' \<le> dot (map (\<lambda>e. e - 1) es) ss'" "0 \<le> s" "0 \<le> i" "i \<le> e - 1" by simp_all
  moreover from this(2-4) have "0 \<le> i * s" "i * s \<le> (e - 1) * s" by (simp_all add: mult_right_mono)
  ultimately show ?case using s by simp
qed (auto simp: in_box_def)

section \<open>Properties\<close>

text \<open>
  C37. Subscripts one at a time and an index give the same element: \<^verbatim>\<open>sp[i]\<close> is a span of the
  remaining dimensions, and an index of it names what the longer index names in \<^verbatim>\<open>sp\<close>.
\<close>

theorem subscripts_chain:
  assumes "template_ok ts" "bounds_of ts il = Inr b" "ms_of (Ptr m p) b = Inr sp"
    and "in_box (extents_of ts il) (i # is)" "is \<noteq> []"
  shows "\<exists>sp'. ms_sub sp i = Inr sp' \<and> ms_ref sp' is = ms_ref sp (i # is) \<and>
    ms_ref sp (i # is) = Inr (Ptr m (p + row_major (extents_of ts il) (i # is)))"
proof -
  have rep: "ranges_rep b (extents_of ts il)" by (rule bounds_of_rep [OF assms(2,1)])
  have sp: "sp = \<lparr>ms_pdata = Ptr m p, ms_bounds = b\<rparr>" using ms_of_rep [OF rep, of "Ptr m p"] assms(3) by simp
  obtain d ds where ds: "extents_of ts il = d # ds" using assms(4) by (cases "extents_of ts il") simp_all
  have box: "in_box (d # ds) (i # is)" "in_box ds is" "ds \<noteq> []" using assms(4,5) ds by (auto simp: in_box_def)
  obtain sp' where sp': "ms_sub sp i = Inr sp'" "ranges_rep (ms_bounds sp') ds" "ms_pdata sp' = Ptr m (p + i * prod_list ds)"
    using ms_sub_in_box [of sp d ds m p i "is"] rep box sp ds by auto
  with ms_ref_in_box [OF sp'(2) box(2)] ms_ref_in_box [of sp "d # ds" "i # is"] rep box(1) sp ds show ?thesis
    by (auto simp: add.assoc)
qed

theorem subscripts_chain_witness:
  "\<exists>sp sp'. ms_of (Ptr ''abcdef'' 0) (DynRange 6 (StatRange 3 NoRange)) = Inr sp \<and> ms_sub sp 1 = Inr sp' \<and>
     ms_ref sp' [2] = ms_ref sp [1, 2] \<and> ms_ref sp [1, 2] = Inr (Ptr ''abcdef'' 5)"
proof -
  have b: "bounds_of [dynamic_range, 3] [2] = Inr (DynRange 6 (StatRange 3 NoRange))"
    by (simp add: bounds_of_def dynamic_range_def ptrdiff_def ptrdiff_max_def)
  have t: "template_ok [dynamic_range, 3]" by (simp add: template_ok_def)
  have "ms_of (Ptr ''abcdef'' 0) (DynRange 6 (StatRange 3 NoRange))
      = Inr \<lparr>ms_pdata = Ptr ''abcdef'' 0, ms_bounds = DynRange 6 (StatRange 3 NoRange)\<rparr>"
    by (intro ms_of_rep [of _ "[2, 3]"]) (simp_all add: ptrdiff_max_def)
  with subscripts_chain [OF t b this, of 1 "[2]"] show ?thesis by (auto simp: dynamic_range_def)
qed

text \<open>
  A section that lies inside the extents of its span can be made, and its index names the
  element of the span at the origin plus the index.
\<close>

lemma section_elements:
  assumes "template_ok ts" "bounds_of ts il = Inr b" "ms_of (Ptr m p) b = Inr sp" "ts \<noteq> []"
    and "in_box (extents_of ts il) os" "positive es" "length es = length ts"
    and "list_all2 (\<le>) (idx_add os es) (extents_of ts il)"
  shows "\<exists>sec. ms_section sp os es = Inr sec \<and> (\<forall>is. in_box es is \<longrightarrow> ss_ref sec is = ms_ref sp (idx_add os is))"
proof -
  let ?ds = "extents_of ts il"
  have rep: "ranges_rep b ?ds" by (rule bounds_of_rep [OF assms(2,1)])
  have sp: "sp = \<lparr>ms_pdata = Ptr m p, ms_bounds = b\<rparr>" using ms_of_rep [OF rep, of "Ptr m p"] assms(3) by simp
  have len: "length ?ds = length ts" by simp
  then have ne: "?ds \<noteq> []" using assms(4) by (metis length_0_conv)
  have os: "length os = length ?ds" "list_all (\<lambda>x. 0 \<le> x) os"
    using assms(5) by (auto simp: in_box_def list_all2_conv_all_nth list_all_length)
  have sec: "ms_section sp os es = Inr \<lparr>ss_pdata = Ptr m (p + row_major ?ds os),
      ss_bounds = \<lparr>m_extents = es, m_strides = row_strides ?ds\<rparr>\<rparr>"
    using section_in_box [of sp ?ds os m p es] rep sp ne assms(5-8) len by simp
  have "ss_ref \<lparr>ss_pdata = Ptr m (p + row_major ?ds os), ss_bounds = \<lparr>m_extents = es, m_strides = row_strides ?ds\<rparr>\<rparr> is
      = ms_ref sp (idx_add os is)" if "in_box es is" for "is"
  proof -
    have box: "in_box ?ds (idx_add os is)" using in_box_add [OF that, of os ?ds] os assms(7,8) len by simp
    have "row_major ?ds (idx_add os is) = row_major ?ds os + dot is (row_strides ?ds)"
      using row_major_dot [OF in_box_length [OF box]] row_major_dot [OF os(1)] dot_add [of os "is"]
        in_box_length [OF that] os(1) assms(7) len by simp
    then show ?thesis
      using ms_ref_in_box [of sp ?ds, OF _ box] 
        ss_ref_dot [of "\<lparr>m_extents = es, m_strides = row_strides ?ds\<rparr>" "is" "Ptr m (p + row_major ?ds os)"]
        that rep sp assms(7) len by (simp add: add.assoc)
  qed
  with sec show ?thesis by blast
qed

lemma section_elements_witness:
  "\<exists>sp sec. ms_of (Ptr ''abcdef'' 0) (DynRange 6 (StatRange 3 NoRange)) = Inr sp \<and>
     ms_section sp [0, 1] [2, 2] = Inr sec \<and> ss_ref sec [1, 1] = ms_ref sp [1, 2]"
proof -
  have b: "bounds_of [dynamic_range, 3] [2] = Inr (DynRange 6 (StatRange 3 NoRange))"
    by (simp add: bounds_of_def dynamic_range_def ptrdiff_def ptrdiff_max_def)
  have t: "template_ok [dynamic_range, 3]" by (simp add: template_ok_def)
  have "ms_of (Ptr ''abcdef'' 0) (DynRange 6 (StatRange 3 NoRange))
      = Inr \<lparr>ms_pdata = Ptr ''abcdef'' 0, ms_bounds = DynRange 6 (StatRange 3 NoRange)\<rparr>"
    by (intro ms_of_rep [of _ "[2, 3]"]) (simp_all add: ptrdiff_max_def)
  with section_elements [OF t b this, of "[0, 1]" "[2, 2]"] show ?thesis
    by (auto simp: dynamic_range_def idx_add_def idx_add_assign_def)
qed

text \<open>
  A strided span over memory that holds the size it is made with never reads outside of it:
  an index inside the extents names an element, for any strides that are not negative.
\<close>

lemma strided_span_inside:
  assumes "ss_of (Ptr m p) n b = Inr sp" "0 \<le> p" "p + n \<le> int (length m)"
    and "length (m_strides b) = length (m_extents b)" "list_all (\<lambda>s. 0 \<le> s) (m_strides b)"
    and "in_box (m_extents b) is"
  shows "\<exists>k. bindE (ss_ref sp is) load = Inr (m ! k) \<and> nat p \<le> k \<and> int k < p + n"
proof -
  have sp: "sp = \<lparr>ss_pdata = Ptr m p, ss_bounds = b\<rparr>" "sb_total_size b \<le> n"
    using assms(1) by (auto simp: ss_of_def returned split: if_splits)
  have "0 \<le> dot is (m_strides b)" "dot is (m_strides b) < n"
    using dot_bounds [OF assms(6,4,5)] sp(2) sb_total_size_dot [OF assms(4)] by simp_all
  with assms(2,3) show ?thesis
    unfolding sp(1) ss_ref_dot [OF assms(6,4)]
    by (intro exI [of _ "nat (p + dot is (m_strides b))"]) (simp add: load_def nat_le_eq_zle)
qed

lemma strided_span_inside_witness:
  "\<exists>sp k. ss_of (Ptr ''abcdef'' 1) 5 \<lparr>m_extents = [2, 2], m_strides = [3, 1]\<rparr> = Inr sp \<and>
     bindE (ss_ref sp [1, 1]) load = Inr (''abcdef'' ! k) \<and> 1 \<le> k \<and> int k < 6"
proof -
  let ?b = "\<lparr>m_extents = [2, 2], m_strides = [3, 1]\<rparr>"
  have "ss_of (Ptr ''abcdef'' 1) 5 ?b = Inr \<lparr>ss_pdata = Ptr ''abcdef'' 1, ss_bounds = ?b\<rparr>"
    by (simp add: ss_of_def sb_size_prod sb_total_size_dot)
  from strided_span_inside [OF this, of "[1, 1]"] this show ?thesis by auto
qed

text \<open>
  A section is checked against the end of the data only: one that goes over the end of a row
  is made, and continues with the elements of the next row.
\<close>

lemma section_crosses_rows:
  assumes "bounds_of [dynamic_range, dynamic_range] [r, c] = Inr b" "ms_of (Ptr m p) b = Inr sp"
    and "2 \<le> r" "1 \<le> c"
  shows "\<exists>sec. ms_section sp [0, c - 1] [1, 2] = Inr sec \<and> ss_ref sec [0, 1] = ms_ref sp [1, 0]"
proof -
  have rep: "ranges_rep b [r, c]" using bounds_of_rep [OF assms(1)] by (simp add: template_ok_def)
  have sp: "sp = \<lparr>ms_pdata = Ptr m p, ms_bounds = b\<rparr>" using ms_of_rep [OF rep, of "Ptr m p"] assms(2) by simp
  let ?b = "\<lparr>m_extents = [1, 2], m_strides = [c, 1]\<rparr>"
  have "2 * c \<le> r * c" using assms(3,4) by (intro mult_right_mono) simp_all
  then have rc: "1 \<le> r * c - c" using assms(4) by linarith
  have "in_box [r, c] [0, c - 1]" "in_box [r, c] [1, 0]" using assms(3,4) by simp_all
  moreover have "make_stride b = Inr [c, 1]" using make_stride_rep [OF rep] assms(3,4) by simp
  ultimately have "ms_section sp [0, c - 1] [1, 2] = Inr \<lparr>ss_pdata = Ptr m (p + (c - 1)), ss_bounds = ?b\<rparr>"
    using sp totalSize_rep [OF rep] linearize_rep [OF rep, of "[0, c - 1]"] ms_ref_in_box [of sp "[r, c]" "[0, c - 1]"] rep rc
    by (simp add: ms_section_def bounds_size_def bounds_linearize_def ss_of_def sb_size_prod sb_total_size_dot)
  moreover have "ss_ref \<lparr>ss_pdata = Ptr m (p + (c - 1)), ss_bounds = ?b\<rparr> [0, 1] = ms_ref sp [1, 0]"
    using ss_ref_dot [of ?b "[0, 1]" "Ptr m (p + (c - 1))"] ms_ref_in_box [of sp "[r, c]" "[1, 0]"] rep sp assms(3,4) by simp
  ultimately show ?thesis by blast
qed

lemma section_crosses_rows_witness:
  "\<exists>b sp sec. bounds_of [dynamic_range, dynamic_range] [2, 3] = Inr b \<and> ms_of (Ptr ''abcdef'' 0) b = Inr sp \<and>
     ms_section sp [0, 2] [1, 2] = Inr sec \<and> ss_ref sec [0, 1] = ms_ref sp [1, 0]"
proof -
  have b: "bounds_of [dynamic_range, dynamic_range] [2, 3] = Inr (DynRange 6 (DynRange 3 NoRange))"
    by (simp add: bounds_of_def ptrdiff_def ptrdiff_max_def)
  have "ms_of (Ptr ''abcdef'' 0) (DynRange 6 (DynRange 3 NoRange))
      = Inr \<lparr>ms_pdata = Ptr ''abcdef'' 0, ms_bounds = DynRange 6 (DynRange 3 NoRange)\<rparr>"
    by (intro ms_of_rep [of _ "[2, 3]"]) (simp_all add: ptrdiff_max_def)
  with section_crosses_rows [OF b this] b show ?thesis by auto
qed

end
