(* ===== verification/SpanOps.thy ===== *)
theory SpanOps
  imports MultiSpan
begin

text \<open>
  The rest of the one-dimensional dynamic span of \<^verbatim>\<open>gsl/include/span.h\<close>: further
  constructors and accessors, the arithmetic of \<^verbatim>\<open>contiguous_span_iterator\<close> and the comparisons
  of spans; the bounded string views of \<^verbatim>\<open>gsl/include/string_span.h\<close>; and the utilities of
  \<^verbatim>\<open>gsl/include/gsl.h\<close>.
\<close>

section \<open>Constructors and accessors\<close>

definition span_null_sized :: "int \<Rightarrow> 'a span result" where
  "span_null_sized sz = bindE (fail_fast_assert (sz = 0)) (\<lambda>_. Inr default_span)"

definition newBoundsHelperImpl :: "int \<Rightarrow> int result" where
  "newBoundsHelperImpl n =
     bindE (fail_fast_assert (n \<le> ptrdiff_max)) (\<lambda>_. dynamic_bounds n)"

text \<open>
  \<^verbatim>\<open>span(begin, end)\<close>; \<open>n\<close> is the distance of the two pointers into one array object. The
  bounds are moved into the constructor that checks them.
\<close>

definition span_of_range :: "'a ptr \<Rightarrow> int \<Rightarrow> 'a span result" where
  "span_of_range begin n = bindE (newBoundsHelperImpl n) (\<lambda>b. span_of begin b)"

definition span_bytes :: "int \<Rightarrow> 'a span \<Rightarrow> int" where
  "span_bytes sizeof_value sp = signed_take_bit 63 (sizeof_value * span_size sp)"

definition span_bool :: "'a span \<Rightarrow> bool" where
  "span_bool sp = (case m_pdata sp of Null \<Rightarrow> False | Ptr _ _ \<Rightarrow> True)"

text \<open>\<^verbatim>\<open>first<Count>()\<close>, \<^verbatim>\<open>last<Count>()\<close> and \<^verbatim>\<open>sub<Offset, Count>()\<close> give spans of static size.\<close>

definition first_static :: "int \<Rightarrow> 'a span \<Rightarrow> 'a mspan result" where
  "first_static n sp =
     bindE (fail_fast_assert (n \<le> span_size sp)) (\<lambda>_.
     bindE (bounds_of [n] [n]) (\<lambda>b. ms_of (m_pdata sp) b))"

definition last_static :: "int \<Rightarrow> 'a span \<Rightarrow> 'a mspan result" where
  "last_static n sp =
     bindE (fail_fast_assert (n \<le> span_size sp)) (\<lambda>_.
     bindE (bounds_of [n] [n]) (\<lambda>b. ms_of (ptr_add (m_pdata sp) (span_size sp - n)) b))"

definition sub_static :: "int \<Rightarrow> int \<Rightarrow> 'a span \<Rightarrow> 'a mspan result" where
  "sub_static offset n sp =
     bindE (fail_fast_assert ((offset = 0 \<or> offset \<le> span_size sp) \<and> offset + n \<le> span_size sp)) (\<lambda>_.
     bindE (bounds_of [n] [n]) (\<lambda>b. ms_of (ptr_add (m_pdata sp) offset) b))"

section \<open>contiguous_span_iterator\<close>

text \<open>
  \<^verbatim>\<open>m_validator\<close> is a pointer: its address, and the span that is there. \<^verbatim>\<open>m_pdata\<close> is the
  distance from the data pointer of this span, as in \<open>Span\<close>.
\<close>

record 'a contiguous_iterator =
  ci_address :: int
  ci_iterator :: "'a span_iterator"

definition ci_of :: "int \<Rightarrow> 'a span \<Rightarrow> bool \<Rightarrow> 'a contiguous_iterator" where
  "ci_of address container isbegin =
     \<lparr>ci_address = address, ci_iterator = (if isbegin then span_begin container else span_end container)\<rparr>"

definition ci_pdata :: "'a contiguous_iterator \<Rightarrow> int" where
  "ci_pdata it = it_pdata (ci_iterator it)"

definition ci_move :: "(int \<Rightarrow> int) \<Rightarrow> 'a contiguous_iterator \<Rightarrow> 'a contiguous_iterator" where
  "ci_move f it = it\<lparr>ci_iterator := (ci_iterator it)\<lparr>it_pdata := f (it_pdata (ci_iterator it))\<rparr>\<rparr>"

definition ci_deref :: "'a contiguous_iterator \<Rightarrow> 'a result" where
  "ci_deref it = iter_deref (ci_iterator it)"

definition ci_arrow :: "'a contiguous_iterator \<Rightarrow> 'a ptr result" where
  "ci_arrow it = bindE (validate_this (ci_iterator it)) (\<lambda>_.
     Inr (ptr_add (m_pdata (it_validator (ci_iterator it))) (ci_pdata it)))"

definition ci_incr :: "'a contiguous_iterator \<Rightarrow> 'a contiguous_iterator" where
  "ci_incr it = ci_move (\<lambda>p. p + 1) it"

definition ci_incr_post :: "'a contiguous_iterator \<Rightarrow> 'a contiguous_iterator \<times> 'a contiguous_iterator" where
  "ci_incr_post it = (let ret = it in (ret, ci_incr it))"

definition ci_decr :: "'a contiguous_iterator \<Rightarrow> 'a contiguous_iterator" where
  "ci_decr it = ci_move (\<lambda>p. p - 1) it"

definition ci_decr_post :: "'a contiguous_iterator \<Rightarrow> 'a contiguous_iterator \<times> 'a contiguous_iterator" where
  "ci_decr_post it = (let ret = it in (ret, ci_decr it))"

definition ci_advance :: "int \<Rightarrow> 'a contiguous_iterator \<Rightarrow> 'a contiguous_iterator" where
  "ci_advance n it = ci_move (\<lambda>p. p + n) it"

definition ci_plus :: "'a contiguous_iterator \<Rightarrow> int \<Rightarrow> 'a contiguous_iterator" where
  "ci_plus it n = (let ret = it in ci_advance n ret)"

definition ci_retreat :: "int \<Rightarrow> 'a contiguous_iterator \<Rightarrow> 'a contiguous_iterator" where
  "ci_retreat n it = ci_advance (- n) it"

definition ci_minus :: "'a contiguous_iterator \<Rightarrow> int \<Rightarrow> 'a contiguous_iterator" where
  "ci_minus it n = (let ret = it in ci_retreat n ret)"

definition ci_diff :: "'a contiguous_iterator \<Rightarrow> 'a contiguous_iterator \<Rightarrow> int result" where
  "ci_diff it rhs = bindE (fail_fast_assert (ci_address it = ci_address rhs)) (\<lambda>_. Inr (ci_pdata it - ci_pdata rhs))"

definition ci_at :: "'a contiguous_iterator \<Rightarrow> int \<Rightarrow> 'a result" where
  "ci_at it n = ci_deref (ci_plus it n)"

definition ci_eq :: "'a contiguous_iterator \<Rightarrow> 'a contiguous_iterator \<Rightarrow> bool result" where
  "ci_eq it rhs = bindE (fail_fast_assert (ci_address it = ci_address rhs)) (\<lambda>_. Inr (ci_pdata it = ci_pdata rhs))"

definition ci_ne :: "'a contiguous_iterator \<Rightarrow> 'a contiguous_iterator \<Rightarrow> bool result" where
  "ci_ne it rhs = bindE (ci_eq it rhs) (\<lambda>b. Inr (\<not> b))"

definition ci_lt :: "'a contiguous_iterator \<Rightarrow> 'a contiguous_iterator \<Rightarrow> bool result" where
  "ci_lt it rhs = bindE (fail_fast_assert (ci_address it = ci_address rhs)) (\<lambda>_. Inr (ci_pdata it < ci_pdata rhs))"

definition ci_le :: "'a contiguous_iterator \<Rightarrow> 'a contiguous_iterator \<Rightarrow> bool result" where
  "ci_le it rhs = bindE (ci_lt rhs it) (\<lambda>b. Inr (\<not> b))"

definition ci_gt :: "'a contiguous_iterator \<Rightarrow> 'a contiguous_iterator \<Rightarrow> bool result" where
  "ci_gt it rhs = ci_lt rhs it"

definition ci_ge :: "'a contiguous_iterator \<Rightarrow> 'a contiguous_iterator \<Rightarrow> bool result" where
  "ci_ge it rhs = bindE (ci_gt rhs it) (\<lambda>b. Inr (\<not> b))"

section \<open>Comparisons of spans\<close>

text \<open>\<^verbatim>\<open>std::equal(first1, last1, first2)\<close> and \<^verbatim>\<open>std::lexicographical_compare\<close> on the iterators.\<close>

function std_equal :: "'a span_iterator \<Rightarrow> 'a span_iterator \<Rightarrow> bool result" where
  "std_equal first1 first2 =
     (if it_pdata first1 \<noteq> span_size (it_validator first1) then
        bindE (iter_deref first1) (\<lambda>x.
        bindE (iter_deref first2) (\<lambda>y.
        if x \<noteq> y then Inr False else std_equal (iter_incr first1) (iter_incr first2)))
      else Inr True)"
  by pat_completeness auto
termination
  by (relation "measure (\<lambda>(it, _). nat (span_size (it_validator it) - it_pdata it))")
     (auto simp: iter_deref_def validate_this_def fail_fast_assert_def iter_incr_def split: if_splits)

declare std_equal.simps [simp del]

function lexicographical_compare :: "'a :: linorder span_iterator \<Rightarrow> 'a span_iterator \<Rightarrow> bool result" where
  "lexicographical_compare first1 first2 =
     (if it_pdata first1 \<noteq> span_size (it_validator first1) \<and> it_pdata first2 \<noteq> span_size (it_validator first2) then
        bindE (iter_deref first1) (\<lambda>x.
        bindE (iter_deref first2) (\<lambda>y.
        if x < y then Inr True else if y < x then Inr False
        else lexicographical_compare (iter_incr first1) (iter_incr first2)))
      else Inr (it_pdata first1 = span_size (it_validator first1) \<and> it_pdata first2 \<noteq> span_size (it_validator first2)))"
  by pat_completeness auto
termination
  by (relation "measure (\<lambda>(it, _). nat (span_size (it_validator it) - it_pdata it))")
     (auto simp: iter_deref_def validate_this_def fail_fast_assert_def iter_incr_def split: if_splits)

declare lexicographical_compare.simps [simp del]

text \<open>
  Equal pointers give equal values of the type \<^typ>\<open>'a ptr\<close>; the converse may fail, for equal
  arrays at different addresses, and then the elements are equal as well.
\<close>

definition span_eq :: "'a span \<Rightarrow> 'a span \<Rightarrow> bool result" where
  "span_eq sp other =
     (if span_size sp = span_size other then
        if m_pdata sp = m_pdata other then Inr True else std_equal (span_begin sp) (span_begin other)
      else Inr False)"

definition span_ne :: "'a span \<Rightarrow> 'a span \<Rightarrow> bool result" where
  "span_ne sp other = bindE (span_eq sp other) (\<lambda>b. Inr (\<not> b))"

definition span_lt :: "'a :: linorder span \<Rightarrow> 'a span \<Rightarrow> bool result" where
  "span_lt sp other = lexicographical_compare (span_begin sp) (span_begin other)"

definition span_le :: "'a :: linorder span \<Rightarrow> 'a span \<Rightarrow> bool result" where
  "span_le sp other = bindE (span_lt other sp) (\<lambda>b. Inr (\<not> b))"

definition span_gt :: "'a :: linorder span \<Rightarrow> 'a span \<Rightarrow> bool result" where
  "span_gt sp other = span_lt other sp"

definition span_ge :: "'a :: linorder span \<Rightarrow> 'a span \<Rightarrow> bool result" where
  "span_ge sp other = bindE (span_lt sp other) (\<lambda>b. Inr (\<not> b))"

section \<open>Bounded string views\<close>

text \<open>\<^verbatim>\<open>strnlen\<close> and \<^verbatim>\<open>wcsnlen\<close> of the C library look at no more than \<^verbatim>\<open>max\<close> characters.\<close>

function strnlen :: "'a::zero ptr \<Rightarrow> int \<Rightarrow> int \<Rightarrow> int result" where
  "strnlen sz len limit =
     (if len < limit then bindE (load (ptr_add sz len)) (\<lambda>x. if x = 0 then Inr len else strnlen sz (len + 1) limit)
      else Inr len)"
  by pat_completeness auto
termination
  by (relation "measure (\<lambda>(sz, len, limit). nat (limit - len))") auto

declare strnlen.simps [simp del]

definition ensure_z_max :: "'a::zero ptr \<Rightarrow> int \<Rightarrow> 'a span result" where
  "ensure_z_max sz limit =
     bindE (strnlen sz 0 limit) (\<lambda>len.
     bindE (load (ptr_add sz len)) (\<lambda>x.
     bindE (fail_fast_assert (x = 0)) (\<lambda>_. span_of sz len)))"

text \<open>On an array of \<^verbatim>\<open>N\<close> characters, and on a container: \<open>mem\<close> is the object behind \<^verbatim>\<open>data()\<close>.\<close>

definition ensure_z_array :: "'a::zero list \<Rightarrow> 'a span result" where
  "ensure_z_array sz = ensure_z_max (Ptr sz 0) (int (length sz))"

definition ensure_z_container :: "'a::zero list \<Rightarrow> nat \<Rightarrow> 'a span result" where
  "ensure_z_container mem len = ensure_z_max (Ptr mem 0) (int len)"

text \<open>\<^verbatim>\<open>basic_zstring_builder\<close>: a span over a buffer.\<close>

record 'a zstring_builder =
  sv :: "'a span"

definition new_zstring_builder :: "'a ptr \<Rightarrow> int \<Rightarrow> 'a zstring_builder result" where
  "new_zstring_builder data len = bindE (span_of data len) (\<lambda>sp. Inr \<lparr>sv = sp\<rparr>)"

definition builder_ensure_z :: "'a::zero zstring_builder \<Rightarrow> 'a span result" where
  "builder_ensure_z b = ensure_z_max (m_pdata (sv b)) (span_size (sv b))"

section \<open>Utilities\<close>

text \<open>An integral type: signed or not, and its width in bits. \<^verbatim>\<open>static_cast\<close> wraps around.\<close>

datatype int_type = Signed nat | Unsigned nat

fun narrow_cast :: "int_type \<Rightarrow> int \<Rightarrow> int" where
  "narrow_cast (Signed w) u = signed_take_bit (w - 1) u"
| "narrow_cast (Unsigned w) u = take_bit w u"

fun in_type :: "int_type \<Rightarrow> int \<Rightarrow> bool" where
  "in_type (Signed w) v \<longleftrightarrow> 0 < w \<and> - (2 ^ (w - 1)) \<le> v \<and> v < 2 ^ (w - 1)"
| "in_type (Unsigned w) v \<longleftrightarrow> 0 \<le> v \<and> v < 2 ^ w"

text \<open>
  \<^verbatim>\<open>narrow<T>(U u)\<close>: the comparison of \<^verbatim>\<open>static_cast<U>(t)\<close> with \<^verbatim>\<open>u\<close> is in the type \<^verbatim>\<open>U\<close>.
\<close>

definition narrow :: "int_type \<Rightarrow> int_type \<Rightarrow> int \<Rightarrow> int result" where
  "narrow T U u = (let t = narrow_cast T u in if narrow_cast U t \<noteq> u then Inl NarrowingError else Inr t)"

definition gsl_at :: "'a list \<Rightarrow> nat \<Rightarrow> 'a result" where
  "gsl_at cont index = bindE (fail_fast_assert (index < length cont)) (\<lambda>_. Inr (cont ! index))"

record 'a not_null =
  nn_ptr :: "'a ptr"

definition ensure_invariant :: "'a not_null \<Rightarrow> unit result" where
  "ensure_invariant p = fail_fast_assert (nn_ptr p \<noteq> Null)"

definition new_not_null :: "'a ptr \<Rightarrow> 'a not_null result" where
  "new_not_null t = (let p = \<lparr>nn_ptr = t\<rparr> in bindE (ensure_invariant p) (\<lambda>_. Inr p))"

definition nn_assign :: "'a ptr \<Rightarrow> 'a not_null \<Rightarrow> 'a not_null result" where
  "nn_assign t p = (let p = p\<lparr>nn_ptr := t\<rparr> in bindE (ensure_invariant p) (\<lambda>_. Inr p))"

definition nn_get :: "'a not_null \<Rightarrow> 'a ptr" where
  "nn_get p = nn_ptr p"

definition nn_assign_from :: "'a not_null \<Rightarrow> 'a not_null \<Rightarrow> 'a not_null" where
  "nn_assign_from other p = p\<lparr>nn_ptr := nn_get other\<rparr>"

section \<open>Iterators and elements\<close>

lemma iter_deref_view:
  assumes "span_ok sp"
  shows "iter_deref \<lparr>it_pdata = i, it_validator = sp\<rparr> =
    (if 0 \<le> i \<and> i < span_size sp then Inr (view sp ! nat i) else Inl FailFast)"
proof (cases "0 \<le> i \<and> i < span_size sp")
  case True
  then have "span_at sp i = Inr (view sp ! nat i)"
    using span_at_view [OF assms, of i] span_size_view [OF assms] by simp
  with True show ?thesis by (simp add: iter_deref_def validate_this_def span_at_def span_ref_def linearize1_def)
qed (auto simp: iter_deref_def validate_this_def fail_fast_assert_def)

lemma std_equal_drop:
  assumes "span_ok sp" "span_ok sp'" "span_size sp = span_size sp'"
  shows "k \<le> length (view sp) \<Longrightarrow>
    std_equal \<lparr>it_pdata = int k, it_validator = sp\<rparr> \<lparr>it_pdata = int k, it_validator = sp'\<rparr>
      = Inr (drop k (view sp) = drop k (view sp'))"
proof (induction "length (view sp) - k" arbitrary: k)
  case 0
  with assms span_size_view [OF assms(1)] span_size_view [OF assms(2)] show ?case by (subst std_equal.simps) (simp del: length_view)
next
  case (Suc m)
  have l: "length (view sp') = length (view sp)" "span_size sp = int (length (view sp))"
    using span_size_view [OF assms(1)] span_size_view [OF assms(2)] assms(3) by simp_all
  have k: "k < length (view sp)" using Suc.hyps(2) by simp
  then have d: "drop k (view sp) = view sp ! k # drop (Suc k) (view sp)" "drop k (view sp') = view sp' ! k # drop (Suc k) (view sp')"
    using l by (simp_all add: Cons_nth_drop_Suc)
  show ?case
    using Suc.hyps(1) [of "Suc k"] Suc.hyps(2) k l assms(3)
    by (subst std_equal.simps) (simp add: d iter_deref_view assms(1,2) iter_incr_def add.commute del: length_view)
qed

lemma lexicographical_compare_drop:
  fixes sp sp' :: "'a :: linorder span"
  assumes "span_ok sp" "span_ok sp'"
  shows "k \<le> length (view sp) \<Longrightarrow> k \<le> length (view sp') \<Longrightarrow>
    lexicographical_compare \<lparr>it_pdata = int k, it_validator = sp\<rparr> \<lparr>it_pdata = int k, it_validator = sp'\<rparr>
      = Inr (ord_class.lexordp (drop k (view sp)) (drop k (view sp')))"
proof (induction "length (view sp) - k" arbitrary: k)
  case 0
  with span_size_view [OF assms(1)] span_size_view [OF assms(2)] show ?case
    by (subst lexicographical_compare.simps) (auto simp del: length_view)
next
  case (Suc m)
  have l: "span_size sp = int (length (view sp))" "span_size sp' = int (length (view sp'))"
    using span_size_view [OF assms(1)] span_size_view [OF assms(2)] by simp_all
  have k: "k < length (view sp)" using Suc.hyps(2) by simp
  then have d: "drop k (view sp) = view sp ! k # drop (Suc k) (view sp)" by (simp add: Cons_nth_drop_Suc)
  show ?case
  proof (cases "k = length (view sp')")
    case True
    with k l show ?thesis by (subst lexicographical_compare.simps) (simp del: length_view)
  next
    case False
    then have d': "drop k (view sp') = view sp' ! k # drop (Suc k) (view sp')" "k < length (view sp')"
      using Suc.prems(2) by (simp_all add: Cons_nth_drop_Suc)
    show ?thesis
      using Suc.hyps(1) [of "Suc k"] Suc.hyps(2) k l d'(2) False
      by (subst lexicographical_compare.simps)
        (simp add: d d' iter_deref_view assms(1,2) iter_incr_def add.commute del: length_view)
  qed
qed

lemma strnlen_scan:
  "k \<le> length sz \<Longrightarrow> 0 \<notin> set (take k sz) \<Longrightarrow>
   strnlen (Ptr sz 0) (int k) (int (length sz)) = Inr (int (length (takeWhile (\<lambda>x. x \<noteq> 0) sz)))"
proof (induction "length sz - k" arbitrary: k)
  case 0
  then have "length (takeWhile (\<lambda>x. x \<noteq> 0) sz) = length sz"
    by (intro arg_cong [where f = length]) (auto simp: takeWhile_eq_all_conv)
  with 0 show ?case by (subst strnlen.simps) simp
next
  case (Suc m)
  then have k: "k < length sz" by simp
  have t: "take (Suc k) sz = take k sz @ [sz ! k]" using k by (simp add: take_Suc_conv_app_nth)
  show ?case
  proof (cases "sz ! k = 0")
    case True
    have "takeWhile (\<lambda>x. x \<noteq> 0) (take k sz @ sz ! k # drop (Suc k) sz) = take k sz"
      using Suc.prems(2) True by (subst takeWhile_append2) auto
    then have "takeWhile (\<lambda>x. x \<noteq> 0) sz = take k sz" using k by (simp add: id_take_nth_drop [symmetric])
    with True k show ?thesis by (subst strnlen.simps) (simp add: load_def)
  next
    case False
    with Suc.hyps(1) [of "Suc k"] Suc.hyps(2) Suc.prems t k show ?thesis
      by (subst strnlen.simps) (simp add: load_def add.commute)
  qed
qed

lemma narrow_cast_id: "in_type T v \<Longrightarrow> narrow_cast T v = v"
  by (cases T) (auto simp: take_bit_int_eq_self signed_take_bit_int_eq_self)

lemma narrow_in_type: "in_type T u \<Longrightarrow> in_type U u \<Longrightarrow> narrow T U u = Inr u"
  by (simp add: narrow_def narrow_cast_id)

section \<open>Properties\<close>

text \<open>
  The one-dimensional dynamic span the program uses is the general span with one dynamic
  dimension: the same subscripts are accepted, for the same addresses.
\<close>

lemma one_dimensional_span:
  assumes "bounds_of [dynamic_range] [n] = Inr b" "ms_of p b = Inr ms" "- (2 ^ 63) \<le> i" "i \<le> ptrdiff_max"
  shows "\<exists>sp. span_of p n = Inr sp \<and> span_ref sp i = ms_ref ms [i]"
proof -
  have b: "b = DynRange n NoRange" "0 \<le> n"
    using assms(1) by (auto simp: bounds_of_def returned split: if_splits)
  have "ptrdiff i = Inr i" using assms(3,4) by (simp add: ptrdiff_def)
  then have "span_ref \<lparr>m_pdata = p, m_bounds = n\<rparr> i = ms_ref \<lparr>ms_pdata = p, ms_bounds = b\<rparr> [i]"
    by (simp add: span_ref_def linearize1_def ms_ref_def bounds_linearize_def b idx_at_def fail_fast_assert_def)
  with assms(2) b show ?thesis
    by (auto simp: ms_of_def bounds_size_def span_of_def dynamic_bounds_def returned split: if_splits)
qed

lemma one_dimensional_span_witness:
  "\<exists>sp ms. span_of (Ptr ''abc'' 0) 3 = Inr sp \<and> ms_of (Ptr ''abc'' 0) (DynRange 3 NoRange) = Inr ms \<and>
     span_ref sp 2 = ms_ref ms [2]"
proof -
  have b: "bounds_of [dynamic_range] [3] = Inr (DynRange 3 NoRange)"
    by (simp add: bounds_of_def ptrdiff_def ptrdiff_max_def)
  have "ms_of (Ptr ''abc'' 0) (DynRange 3 NoRange) = Inr \<lparr>ms_pdata = Ptr ''abc'' 0, ms_bounds = DynRange 3 NoRange\<rparr>"
    by (intro ms_of_rep [of _ "[3]"]) (simp_all add: ptrdiff_max_def)
  with one_dimensional_span [OF b this, of 2] show ?thesis by (auto simp: ptrdiff_max_def)
qed

text \<open>Spans are compared by their elements: for equality and in lexicographic order.\<close>

lemma comparisons_on_elements:
  fixes sp other :: "'a :: linorder span"
  assumes "span_ok sp" "span_ok other"
  shows "span_eq sp other = Inr (view sp = view other) \<and>
    span_lt sp other = Inr (ord_class.lexordp (view sp) (view other))"
proof -
  have "view sp = view other \<Longrightarrow> span_size sp = span_size other"
    using span_size_view [OF assms(1)] span_size_view [OF assms(2)] by simp
  moreover have "m_pdata sp = m_pdata other \<Longrightarrow> span_size sp = span_size other \<Longrightarrow> view sp = view other"
    by (simp add: view_def split: ptr.split)
  ultimately have "span_eq sp other = Inr (view sp = view other)"
    using std_equal_drop [OF assms, of 0] by (auto simp: span_eq_def span_begin_def)
  then show ?thesis
    using lexicographical_compare_drop [OF assms, of 0] by (simp add: span_lt_def span_begin_def)
qed

lemma comparisons_on_elements_witness:
  "span_eq \<lparr>m_pdata = Ptr [1, 2, 3 :: ubyte] 1, m_bounds = 2\<rparr> \<lparr>m_pdata = Ptr [2, 3] 0, m_bounds = 2\<rparr> = Inr True"
proof -
  have "span_ok \<lparr>m_pdata = Ptr [1, 2, 3 :: ubyte] 1, m_bounds = 2\<rparr>" "span_ok \<lparr>m_pdata = Ptr [2, 3 :: ubyte] 0, m_bounds = 2\<rparr>"
    by (simp_all add: span_ok_def)
  from comparisons_on_elements [OF this] show ?thesis by (simp add: view_def numeral_nat)
qed

text \<open>
  A subscript of an iterator is checked on both sides: relative to the beginning it reads
  the element of a well-formed span, or fails fast, also for a negative subscript.
\<close>

lemma iterator_subscript_checked:
  assumes "span_ok sp"
  shows "ci_at (ci_of a sp True) i = (if 0 \<le> i \<and> i < span_size sp then Inr (view sp ! nat i) else Inl FailFast) \<and>
    ci_at (ci_of a sp False) (- i) = (if 0 < i \<and> i \<le> span_size sp then Inr (rev (view sp) ! nat (i - 1)) else Inl FailFast)"
proof -
  have l: "span_size sp = int (length (view sp))" by (rule span_size_view [OF assms])
  have "rev (view sp) ! nat (i - 1) = view sp ! nat (span_size sp - i)" if "0 < i" "i \<le> span_size sp"
  proof -
    have "nat (i - 1) < length (view sp)" "length (view sp) - Suc (nat (i - 1)) = nat (span_size sp - i)"
      using that l by linarith+
    then show ?thesis by (simp add: rev_nth)
  qed
  moreover have "ci_at (ci_of a sp True) i = iter_deref \<lparr>it_pdata = i, it_validator = sp\<rparr>"
    "ci_at (ci_of a sp False) (- i) = iter_deref \<lparr>it_pdata = span_size sp - i, it_validator = sp\<rparr>"
    by (simp_all add: ci_at_def ci_deref_def ci_plus_def ci_advance_def ci_move_def ci_of_def span_begin_def span_end_def)
  ultimately show ?thesis by (auto simp: iter_deref_view [OF assms])
qed

lemma iterator_subscript_checked_witness:
  "ci_at (ci_of 0 \<lparr>m_pdata = Ptr [1, 2, 3 :: ubyte] 1, m_bounds = 2\<rparr> True) 1 = Inr 3 \<and>
   ci_at (ci_of 0 \<lparr>m_pdata = Ptr [1, 2, 3 :: ubyte] 1, m_bounds = 2\<rparr> True) (-1) = Inl FailFast"
proof -
  have "span_ok \<lparr>m_pdata = Ptr [1, 2, 3 :: ubyte] 1, m_bounds = 2\<rparr>" by (simp add: span_ok_def)
  from iterator_subscript_checked [OF this, of 0 1] iterator_subscript_checked [OF this, of 0 "-1"] show ?thesis
    by (simp add: view_def numeral_nat)
qed

text \<open>
  \<^verbatim>\<open>ensure_z\<close> on an array gives the characters before the first null character. Where there is
  none it does not fail fast: it reads the character behind the array.
\<close>

lemma ensure_z_array_result:
  "ensure_z_array sz = (if 0 \<in> set sz
     then Inr \<lparr>m_pdata = Ptr sz 0, m_bounds = int (length (takeWhile (\<lambda>x. x \<noteq> 0) sz))\<rparr> else Inl Undefined)"
proof -
  have "strnlen (Ptr sz 0) 0 (int (length sz)) = Inr (int (length (takeWhile (\<lambda>x. x \<noteq> 0) sz)))"
    using strnlen_scan [of 0 sz] by simp
  moreover have "length (takeWhile (\<lambda>x. x \<noteq> 0) sz) = length sz" if "0 \<notin> set sz"
    using that by (intro arg_cong [where f = length]) (auto simp: takeWhile_eq_all_conv)
  moreover have "length (takeWhile (\<lambda>x. x \<noteq> 0) sz) < length sz \<and> sz ! length (takeWhile (\<lambda>x. x \<noteq> 0) sz) = 0"
    if z: "0 \<in> set sz"
  proof -
    obtain pre post where "sz = pre @ 0 # post" "0 \<notin> set pre" using split_list_first [OF z] by blast
    moreover from this(2) have "takeWhile (\<lambda>x. x \<noteq> 0) (pre @ 0 # post) = pre" by (subst takeWhile_append2) auto
    ultimately show ?thesis by simp
  qed
  ultimately show ?thesis
    by (auto simp: ensure_z_array_def ensure_z_max_def load_def)
qed

text \<open>
  \<^verbatim>\<open>narrow\<close> to the unsigned type of the same width does not throw for a negative value, though
  the value is another one after the cast.
\<close>

lemma narrow_changes_sign:
  assumes "in_type (Signed w) u"
  shows "narrow (Unsigned w) (Signed w) u = Inr (if u < 0 then u + 2 ^ w else u)"
proof -
  obtain v where w: "w = Suc v" using assms by (cases w) simp_all
  have "u mod 2 ^ w = (if u < 0 then u + 2 ^ w else u)"
    using mod_pos_pos_trivial [of "u + 2 ^ w" "2 ^ w"] mod_pos_pos_trivial [of u "2 ^ w"] assms unfolding w by auto
  moreover have "signed_take_bit (w - 1) (take_bit w u) = u"
    using assms unfolding w by (simp add: signed_take_bit_take_bit signed_take_bit_int_eq_self)
  ultimately show ?thesis by (simp add: narrow_def take_bit_eq_mod)
qed

lemma narrow_changes_sign_witness: "narrow (Unsigned 32) (Signed 32) (-1) = Inr 4294967295"
  using narrow_changes_sign [of 32 "-1"] by simp

end
