(* ===== verification/SpanViews.thy ===== *)
theory SpanViews
  imports SpanOps
begin

text \<open>
  Other ways to see the elements of a span of \<^verbatim>\<open>gsl/include/span.h\<close>: as bytes and back, a strided
  span of bytes as one of larger elements, arrays as spans, and the traversal from the end with
  \<^verbatim>\<open>std::reverse_iterator\<close>. A value of a type of \<open>n\<close> bytes has the representation \<open>enc\<close>, a list of
  \<open>n\<close> bytes; \<open>dec\<close> is the value with a given representation.
\<close>

section \<open>Elements and bytes\<close>

fun pieces :: "nat \<Rightarrow> nat \<Rightarrow> 'a list \<Rightarrow> 'a list list" where
  "pieces n 0 xs = []"
| "pieces n (Suc k) xs = take n xs # pieces n k (drop n xs)"

text \<open>
  \<^verbatim>\<open>reinterpret_cast\<close>. The array object of the other type: the elements that start at a distance
  from the pointer which is a multiple of their size.
\<close>

definition bytes_ptr :: "('a \<Rightarrow> ubyte list) \<Rightarrow> nat \<Rightarrow> 'a ptr \<Rightarrow> ubyte ptr" where
  "bytes_ptr enc n p = (case p of Null \<Rightarrow> Null | Ptr m i \<Rightarrow> Ptr (concat (map enc m)) (i * int n))"

definition elements_ptr :: "(ubyte list \<Rightarrow> 'b) \<Rightarrow> nat \<Rightarrow> ubyte ptr \<Rightarrow> 'b ptr" where
  "elements_ptr dec n p = (case p of Null \<Rightarrow> Null
     | Ptr m i \<Rightarrow> let rest = drop (nat (i mod int n)) m in
         Ptr (map dec (pieces n (length rest div n) rest)) (i div int n))"

definition as_bytes :: "('a \<Rightarrow> ubyte list) \<Rightarrow> nat \<Rightarrow> 'a span \<Rightarrow> ubyte span result" where
  "as_bytes enc n sp = span_of (bytes_ptr enc n (m_pdata sp)) (span_bytes (int n) sp)"

definition as_writeable_bytes :: "('a \<Rightarrow> ubyte list) \<Rightarrow> nat \<Rightarrow> 'a span \<Rightarrow> ubyte span result" where
  "as_writeable_bytes enc n sp = span_of (bytes_ptr enc n (m_pdata sp)) (span_bytes (int n) sp)"

text \<open>\<^verbatim>\<open>as_span<U>()\<close> on bytes, which may not be written, and on those that may.\<close>

definition bytes_as_span :: "(ubyte list \<Rightarrow> 'b) \<Rightarrow> nat \<Rightarrow> ubyte span \<Rightarrow> 'b span result" where
  "bytes_as_span dec n sp =
     bindE (fail_fast_assert (span_bytes 1 sp mod int n = 0 \<and> span_bytes 1 sp div int n < ptrdiff_max)) (\<lambda>_.
     span_of (elements_ptr dec n (m_pdata sp)) (span_bytes 1 sp div int n))"

definition writeable_bytes_as_span :: "(ubyte list \<Rightarrow> 'b) \<Rightarrow> nat \<Rightarrow> ubyte span \<Rightarrow> 'b span result" where
  "writeable_bytes_as_span dec n sp =
     bindE (fail_fast_assert (span_bytes 1 sp mod int n = 0)) (\<lambda>_.
     span_of (elements_ptr dec n (m_pdata sp)) (span_bytes 1 sp div int n))"

section \<open>A strided span of bytes as one of larger elements\<close>

definition resize_extent :: "idx \<Rightarrow> int \<Rightarrow> idx result" where
  "resize_extent extent d =
     (let r = length extent - 1 in
      bindE (fail_fast_assert (extent ! r \<ge> d \<and> extent ! r smod d = 0)) (\<lambda>_.
      let ret = extent in Inr (ret[r := ret ! r sdiv d])))"

text \<open>The loop \<^verbatim>\<open>for (size_t i = Rank - 1; i > 0; --i)\<close>.\<close>

fun regular_loop :: "idx \<Rightarrow> nat \<Rightarrow> unit result" where
  "regular_loop str 0 = Inr ()"
| "regular_loop str (Suc i) =
     bindE (fail_fast_assert (str ! i \<ge> str ! Suc i \<and> str ! i smod str ! Suc i = 0)) (\<lambda>_.
     regular_loop str i)"

definition resize_stride_one :: "idx \<Rightarrow> int \<Rightarrow> idx result" where
  "resize_stride_one str d = bindE (fail_fast_assert (str ! (length str - 1) = 1)) (\<lambda>_. Inr str)"

definition resize_stride_many :: "idx \<Rightarrow> int \<Rightarrow> idx result" where
  "resize_stride_many str d =
     (let r = length str - 1 in
      bindE (fail_fast_assert (str ! r = 1)) (\<lambda>_.
      bindE (fail_fast_assert (str ! (r - 1) \<ge> d \<and> str ! (r - 1) smod d = 0)) (\<lambda>_.
      bindE (regular_loop str r) (\<lambda>_.
      bindE (idx_div str d) (\<lambda>ret. Inr (ret[r := 1]))))))"

definition resize_stride :: "idx \<Rightarrow> int \<Rightarrow> idx result" where
  "resize_stride str d = (if length str = 1 then resize_stride_one str d else resize_stride_many str d)"

definition as_strided_span :: "(ubyte list \<Rightarrow> 'b) \<Rightarrow> nat \<Rightarrow> ubyte strided_span \<Rightarrow> 'b strided_span result" where
  "as_strided_span dec n sp =
     (let d = int n; sz = sb_total_size (ss_bounds sp) sdiv d in
      bindE (resize_extent (m_extents (ss_bounds sp)) d) (\<lambda>es.
      bindE (resize_stride (strides (ss_bounds sp)) d) (\<lambda>ss.
      ss_of (elements_ptr dec n (ss_pdata sp)) sz \<lparr>m_extents = es, m_strides = ss\<rparr>)))"

section \<open>Arrays as spans\<close>

text \<open>
  \<open>ts\<close> are the dimensions of the span's type, \<open>m\<close> holds the elements of the array in row-major
  order and \<open>dims\<close> are its extents. The bounds of the array are converted to those of the span.
\<close>

definition ms_null :: "int list \<Rightarrow> 'a mspan result" where
  "ms_null ts = ms_of Null (default_ranges ts)"

definition ms_convert :: "int list \<Rightarrow> 'a mspan \<Rightarrow> 'a mspan result" where
  "ms_convert ts other = bindE (convert_ranges ts (ms_bounds other) True) (\<lambda>b.
     Inr \<lparr>ms_pdata = ms_pdata other, ms_bounds = b\<rparr>)"

definition ms_of_array :: "int list \<Rightarrow> int list \<Rightarrow> 'a list \<Rightarrow> 'a mspan result" where
  "ms_of_array ts dims m = bindE (convert_ranges ts (default_ranges dims) True) (\<lambda>b. ms_of (Ptr m 0) b)"

definition ms_of_dynamic_array :: "int list \<Rightarrow> int list \<Rightarrow> 'a ptr \<Rightarrow> int \<Rightarrow> 'a mspan result" where
  "ms_of_dynamic_array ts dims p n =
     bindE (bounds_of (dynamic_range # dims) [n]) (\<lambda>a.
     bindE (convert_ranges ts a True) (\<lambda>b. ms_of p b))"

definition ms_of_std_array :: "int list \<Rightarrow> 'a list \<Rightarrow> 'a mspan result" where
  "ms_of_std_array ts m =
     bindE (convert_ranges ts (default_ranges [int (length m)]) True) (\<lambda>b. ms_of (Ptr m 0) b)"

definition as_span_array :: "int list \<Rightarrow> 'a list \<Rightarrow> 'a mspan result" where
  "as_span_array dims m = ms_of_array dims dims m"

definition as_span_std_array :: "'a list \<Rightarrow> 'a mspan result" where
  "as_span_std_array m = ms_of_std_array [int (length m)] m"

definition as_span_pointers :: "'a ptr \<Rightarrow> int \<Rightarrow> 'a span result" where
  "as_span_pointers begin n = span_of_range begin n"

definition as_span_container :: "'a list \<Rightarrow> 'a span result" where
  "as_span_container v =
     bindE (fail_fast_assert (int (length v) < ptrdiff_max)) (\<lambda>_. span_of (Ptr v 0) (int (length v)))"

section \<open>Reverse iterators\<close>

text \<open>
  A \<^verbatim>\<open>std::reverse_iterator\<close> holds the iterator behind the element it stands on: \<^verbatim>\<open>*\<close> decrements a
  copy of it and dereferences that, \<^verbatim>\<open>++\<close> decrements it.
\<close>

record 'a reverse_iterator =
  rv_base :: "'a contiguous_iterator"

definition span_cbegin :: "int \<Rightarrow> 'a span \<Rightarrow> 'a contiguous_iterator" where
  "span_cbegin this sp = ci_of this sp True"

definition span_cend :: "int \<Rightarrow> 'a span \<Rightarrow> 'a contiguous_iterator" where
  "span_cend this sp = ci_of this sp False"

definition span_rbegin :: "int \<Rightarrow> 'a span \<Rightarrow> 'a reverse_iterator" where
  "span_rbegin this sp = \<lparr>rv_base = ci_of this sp False\<rparr>"

definition span_rend :: "int \<Rightarrow> 'a span \<Rightarrow> 'a reverse_iterator" where
  "span_rend this sp = \<lparr>rv_base = ci_of this sp True\<rparr>"

definition span_crbegin :: "int \<Rightarrow> 'a span \<Rightarrow> 'a reverse_iterator" where
  "span_crbegin this sp = \<lparr>rv_base = span_cend this sp\<rparr>"

definition span_crend :: "int \<Rightarrow> 'a span \<Rightarrow> 'a reverse_iterator" where
  "span_crend this sp = \<lparr>rv_base = span_cbegin this sp\<rparr>"

definition rv_deref :: "'a reverse_iterator \<Rightarrow> 'a result" where
  "rv_deref it = (let tmp = rv_base it in ci_deref (ci_decr tmp))"

definition rv_incr :: "'a reverse_iterator \<Rightarrow> 'a reverse_iterator" where
  "rv_incr it = it\<lparr>rv_base := ci_decr (rv_base it)\<rparr>"

definition rv_ne :: "'a reverse_iterator \<Rightarrow> 'a reverse_iterator \<Rightarrow> bool result" where
  "rv_ne it rhs = ci_ne (rv_base it) (rv_base rhs)"

text \<open>\<^verbatim>\<open>for(it = first; it != last; ++it)\<close>, collecting \<^verbatim>\<open>*it\<close>.\<close>

function rv_collect :: "'a reverse_iterator \<Rightarrow> 'a reverse_iterator \<Rightarrow> 'a list result" where
  "rv_collect it stop =
     bindE (rv_ne it stop) (\<lambda>more.
     if \<not> more then Inr []
     else bindE (rv_deref it) (\<lambda>x. bindE (rv_collect (rv_incr it) stop) (\<lambda>xs. Inr (x # xs))))"
  by pat_completeness auto
termination
  by (relation "measure (\<lambda>(it, _). nat (ci_pdata (rv_base it)))")
     (auto simp: rv_deref_def rv_incr_def ci_deref_def ci_decr_def ci_move_def ci_pdata_def iter_deref_def
        validate_this_def fail_fast_assert_def Let_def split: if_splits)

declare rv_collect.simps [simp del]

section \<open>Bytes and back\<close>

definition representation :: "nat \<Rightarrow> ('a \<Rightarrow> ubyte list) \<Rightarrow> (ubyte list \<Rightarrow> 'a) \<Rightarrow> bool" where
  "representation n enc dec \<longleftrightarrow> 0 < n \<and> (\<forall>x. length (enc x) = n \<and> dec (enc x) = x)"

lemma length_concat_enc: "representation n enc dec \<Longrightarrow> length (concat (map enc xs)) = n * length xs"
  by (induction xs) (simp_all add: representation_def)

lemma drop_concat_enc: "representation n enc dec \<Longrightarrow> drop (n * k) (concat (map enc xs)) = concat (map enc (drop k xs))"
proof (induction xs arbitrary: k)
  case (Cons x xs)
  then show ?case by (cases k) (simp_all add: representation_def)
qed simp

lemma take_concat_enc: "representation n enc dec \<Longrightarrow> take (n * k) (concat (map enc xs)) = concat (map enc (take k xs))"
proof (induction xs arbitrary: k)
  case (Cons x xs)
  then show ?case by (cases k) (simp_all add: representation_def)
qed simp

lemma pieces_concat_enc: "representation n enc dec \<Longrightarrow> map dec (pieces n (length xs) (concat (map enc xs))) = xs"
  by (induction xs) (simp_all add: representation_def)

lemma elements_of_bytes:
  assumes "representation n enc dec"
  shows "elements_ptr dec n (bytes_ptr enc n p) = p"
proof (cases p)
  case (Ptr m i)
  have "0 < n" using assms by (simp add: representation_def)
  then have "n * length m div n = length m" by simp
  with \<open>0 < n\<close> show ?thesis
    using Ptr length_concat_enc [OF assms, of m] pieces_concat_enc [OF assms, of m]
    by (simp add: bytes_ptr_def elements_ptr_def Let_def)
qed (simp add: bytes_ptr_def elements_ptr_def)

lemma span_bytes_exact:
  "0 \<le> n \<Longrightarrow> 0 \<le> span_size sp \<Longrightarrow> n * span_size sp \<le> ptrdiff_max \<Longrightarrow> span_bytes n sp = n * span_size sp"
  using mult_nonneg_nonneg [of n "span_size sp"]
  unfolding span_bytes_def ptrdiff_max_def by (intro signed_take_bit_int_eq_self) linarith+

lemma as_bytes_view:
  assumes "representation n enc dec" "span_ok sp" "int n * span_size sp \<le> ptrdiff_max"
  shows "\<exists>bs. as_bytes enc n sp = Inr bs \<and> span_ok bs \<and> view bs = concat (map enc (view sp)) \<and>
    m_pdata bs = bytes_ptr enc n (m_pdata sp) \<and> span_size bs = int n * span_size sp"
proof -
  have n: "0 < n" using assms(1) by (simp add: representation_def)
  have b: "span_bytes (int n) sp = int n * span_size sp"
    using assms(3) span_size_nonneg [OF assms(2)] by (intro span_bytes_exact) simp_all
  let ?bs = "\<lparr>m_pdata = bytes_ptr enc n (m_pdata sp), m_bounds = int n * span_size sp\<rparr>"
  from assms(2) have "as_bytes enc n sp = Inr ?bs \<and> span_ok ?bs \<and> view ?bs = concat (map enc (view sp))"
  proof (cases rule: span_okE)
    case null
    then show ?thesis by (simp add: as_bytes_def b bytes_ptr_def span_ok_def view_def span_of_def dynamic_bounds_def)
  next
    case (ptr m i k)
    have "nat (int i * int n) = n * i" "nat (int n * int k) = n * k" by (simp_all add: nat_mult_distrib)
    moreover have "i * n + n * k \<le> n * length m" using ptr(3) n by (metis add_mult_distrib2 mult.commute mult_le_mono2)
    then have "int i * int n + int n * int k \<le> int (n * length m)" by (metis of_nat_add of_nat_le_iff of_nat_mult)
    ultimately show ?thesis
      using ptr n length_concat_enc [OF assms(1), of m] drop_concat_enc [OF assms(1), of i m]
        take_concat_enc [OF assms(1), of k "drop i m"]
      by (simp add: as_bytes_def b bytes_ptr_def span_ok_def view_def)
  qed
  then show ?thesis by (intro exI [of _ ?bs]) simp
qed

lemma bytes_roundtrip:
  assumes "representation n enc dec" "span_ok sp" "int n * span_size sp \<le> ptrdiff_max" "span_size sp < ptrdiff_max"
    and "as_bytes enc n sp = Inr bs"
  shows "bytes_as_span dec n bs = Inr sp"
proof -
  have n: "0 < n" using assms(1) by (simp add: representation_def)
  from as_bytes_view [OF assms(1-3)] assms(5) have bs: "m_pdata bs = bytes_ptr enc n (m_pdata sp)" "span_size bs = int n * span_size sp"
    by auto
  have "0 \<le> int n * span_size sp" using span_size_nonneg [OF assms(2)] by simp
  then have b: "span_bytes 1 bs = int n * span_size sp"
    using bs(2) assms(3) span_bytes_exact [of 1 bs] by simp
  have "span_of (m_pdata sp) (span_size sp) = Inr sp"
    using assms(2) by (auto simp: span_of_def dynamic_bounds_def span_ok_def fail_fast_assert_def split: ptr.splits)
  then show ?thesis
    using n assms(4) by (simp add: bytes_as_span_def b bs(1) elements_of_bytes [OF assms(1)])
qed

section \<open>Reverse traversal\<close>

lemma ci_deref_view:
  "span_ok sp \<Longrightarrow> ci_deref \<lparr>ci_address = a, ci_iterator = \<lparr>it_pdata = i, it_validator = sp\<rparr>\<rparr>
    = (if 0 \<le> i \<and> i < span_size sp then Inr (view sp ! nat i) else Inl FailFast)"
  by (simp add: ci_deref_def iter_deref_view)

lemma rv_collect_view:
  assumes "span_ok sp"
  shows "k \<le> length (view sp) \<Longrightarrow>
    rv_collect \<lparr>rv_base = \<lparr>ci_address = a, ci_iterator = \<lparr>it_pdata = int k, it_validator = sp\<rparr>\<rparr>\<rparr> (span_rend a sp)
      = Inr (rev (take k (view sp)))"
proof (induction k)
  case 0
  show ?case
    by (subst rv_collect.simps)
       (simp add: rv_ne_def ci_ne_def ci_eq_def span_rend_def ci_of_def span_begin_def ci_pdata_def)
next
  case (Suc k)
  have "span_size sp = int (length (view sp))" by (rule span_size_view [OF assms])
  with Suc show ?case
    by (subst rv_collect.simps)
       (simp add: rv_ne_def ci_ne_def ci_eq_def span_rend_def ci_of_def span_begin_def ci_pdata_def rv_deref_def rv_incr_def
         ci_decr_def ci_move_def ci_deref_view [OF assms] take_Suc_conv_app_nth del: length_view)
qed

section \<open>Offsets after a change of the element size\<close>

lemma regular_loop_Inr [returned]:
  "regular_loop str r = Inr u \<longleftrightarrow> (\<forall>i<r. str ! i \<ge> str ! Suc i \<and> str ! i smod str ! Suc i = 0)"
  by (induction str r rule: regular_loop.induct) (auto simp: returned less_Suc_eq)

lemma smod_zero: "0 < b \<Longrightarrow> b \<le> a \<Longrightarrow> (a :: int) smod b = 0 \<longleftrightarrow> b dvd a"
  by (simp add: signed_modulo_int_def mod_eq_0_iff_dvd)

lemma sdiv_pos: "0 < b \<Longrightarrow> 0 \<le> a \<Longrightarrow> (a :: int) sdiv b = a div b"
  by (simp add: signed_divide_int_def sgn_if)

lemma regular_strides:
  fixes str :: idx and d :: int
  assumes "length str = Suc r" "str ! r = 1" "\<forall>i<r. str ! i \<ge> str ! Suc i \<and> str ! i smod str ! Suc i = 0"
    and "0 < r \<Longrightarrow> d \<le> str ! (r - 1) \<and> str ! (r - 1) smod d = 0" "0 < d"
  shows "i \<le> r \<Longrightarrow> 1 \<le> str ! i" "i < r \<Longrightarrow> d dvd str ! i"
proof -
  show pos: "1 \<le> str ! i" if "i \<le> r" for i
    using that
  proof (induction "r - i" arbitrary: i)
    case 0
    then have "i = r" by simp
    with assms(2) show ?case by simp
  next
    case (Suc k)
    then have "1 \<le> str ! Suc i" "i < r" by simp_all
    with assms(3) show ?case by fastforce
  qed
  show "d dvd str ! i" if "i < r"
    using that
  proof (induction "r - Suc i" arbitrary: i)
    case 0
    then have "i = r - 1" "0 < r" by simp_all
    with assms(4,5) smod_zero show ?case by blast
  next
    case (Suc k)
    then have "d dvd str ! Suc i" "i < r" by simp_all
    moreover have "0 < str ! Suc i" using pos [of "Suc i"] Suc.prems by simp
    then have "str ! Suc i dvd str ! i" using assms(3) Suc.prems smod_zero by metis
    ultimately show ?case by (metis dvd_trans)
  qed
qed

text \<open>Both functions change nothing but the last extent, and every stride but the last.\<close>

lemma resize_stride_shape:
  assumes "resize_stride str d = Inr str'" "str \<noteq> []" "0 < d"
  obtains xs where "str = map (\<lambda>x. x * d) xs @ [1]" "str' = xs @ [1]" "list_all (\<lambda>x. 0 \<le> x) xs"
proof (cases "length str = 1")
  case True
  then obtain x where "str = [x]" by (auto simp: length_Suc_conv)
  with assms(1) that [of "[]"] show thesis
    by (auto simp: resize_stride_def resize_stride_one_def returned)
next
  case False
  define r where "r = length str - 1"
  have r: "length str = Suc r" "0 < r" using False assms(2) by (cases str; simp add: r_def)+
  have a: "str ! r = 1" "d \<le> str ! (r - 1)" "str ! (r - 1) smod d = 0"
    "\<forall>i<r. str ! i \<ge> str ! Suc i \<and> str ! i smod str ! Suc i = 0"
    and s': "str' = (map (\<lambda>x. x sdiv d) str)[r := 1]"
    using assms(1,3) False by (auto simp: resize_stride_def resize_stride_many_def r_def returned idx_div_def idx_div_assign_def
        Let_def split: if_splits)
  note reg = regular_strides [OF r(1) a(1,4) _ assms(3)]
  define xs where "xs = map (\<lambda>x. x sdiv d) (take r str)"
  have str: "str = take r str @ [1]"
    using r(1) a(1) by (metis lessI take_Suc_conv_app_nth take_all_iff order_refl)
  have "x = x sdiv d * d \<and> 0 \<le> x sdiv d" if "x \<in> set (take r str)" for x
  proof -
    obtain i where i: "i < r" "x = str ! i" using \<open>x \<in> _\<close> r(1) by (auto simp: in_set_conv_nth)
    then have "d dvd x" "1 \<le> x" using reg(1) [of i] reg(2) [of i] a by auto
    then show ?thesis using assms(3) by (simp add: sdiv_pos pos_imp_zdiv_nonneg_iff)
  qed
  then have "take r str = map (\<lambda>x. x * d) xs" "list_all (\<lambda>x. 0 \<le> x) xs"
    unfolding xs_def by (induction "take r str") (auto intro: nth_equalityI simp: list_all_iff map_idI comp_def)
  moreover have "str' = xs @ [1]"
  proof -
    have "map (\<lambda>x. x sdiv d) str = xs @ [1 sdiv d]" by (subst str) (simp add: xs_def)
    then show ?thesis using r(1) by (simp add: s' xs_def list_update_append)
  qed
  ultimately show thesis using str that by metis
qed

lemma resize_extent_shape:
  assumes "resize_extent es d = Inr es'" "es \<noteq> []" "0 < d"
  obtains ds k where "es = ds @ [k * d]" "es' = ds @ [k]" "1 \<le> k"
proof -
  define r where "r = length es - 1"
  have r: "length es = Suc r" using assms(2) by (cases es) (simp_all add: r_def)
  have a: "d \<le> es ! r" "es ! r smod d = 0" "es' = es[r := es ! r sdiv d]"
    using assms(1) by (auto simp: resize_extent_def r_def returned Let_def)
  have es: "es = take r es @ [es ! r]"
    using r by (metis lessI take_Suc_conv_app_nth take_all_iff order_refl)
  have "d dvd es ! r" using a(1,2) assms(3) by (simp add: smod_zero)
  then obtain k where k: "es ! r = k * d" by (metis dvd_def mult.commute)
  then have "es ! r sdiv d = k" using assms(3) by (simp add: sdiv_exact)
  moreover have "1 \<le> k" using k a(1) assms(3) by (metis mult_le_cancel_right1 not_le zero_less_mult_pos2 int_one_le_iff_zero_less less_le_trans)
  moreover have "es' = take r es @ [es ! r sdiv d]"
    unfolding a(3) using r by (subst es) (simp add: list_update_append)
  ultimately show thesis using that [of "take r es" k] es k by simp
qed

lemma resized_offset:
  assumes "resize_extent es d = Inr es'" "resize_stride str d = Inr str'" "es \<noteq> []" "length str = length es"
    and "0 < d" "in_box es' (is @ [q])" "0 \<le> t" "t < d"
  shows "in_box es (is @ [q * d + t])" "dot (is @ [q * d + t]) str = dot (is @ [q]) str' * d + t"
    "length str' = length es'" "list_all (\<lambda>x. 0 \<le> x) str"
proof -
  obtain ds k where es: "es = ds @ [k * d]" "es' = ds @ [k]" "1 \<le> k" using resize_extent_shape [OF assms(1,3,5)] .
  have "str \<noteq> []" using assms(3,4) by auto
  then obtain xs where str: "str = map (\<lambda>x. x * d) xs @ [1]" "str' = xs @ [1]" "list_all (\<lambda>x. 0 \<le> x) xs"
    using resize_stride_shape [OF assms(2) _ assms(5)] by metis
  show "length str' = length es'" using es str assms(4) by simp
  show "list_all (\<lambda>x. 0 \<le> x) str" using str assms(5) by (simp add: list.pred_map list_all_iff)
  have l: "length is = length ds" using in_box_length [OF assms(6)] es(2) by simp
  have b: "in_box ds is" "0 \<le> q" "q < k"
    using assms(6) l by (simp_all add: es(2) in_box_def list_all2_append)
  have "(q + 1) * d \<le> k * d" using b(3) assms(5) by (intro mult_right_mono) simp_all
  then have "q * d + t < k * d" using assms(8) by (simp add: distrib_right)
  moreover have "0 \<le> q * d + t" using b(2) assms(5,7) by simp
  ultimately show "in_box es (is @ [q * d + t])"
    using b(1) l by (simp add: es(1) in_box_def list_all2_append)
  have "length is = length xs" using l es str assms(4) by simp
  moreover from this have "dot is (map (\<lambda>x. x * d) xs) = dot is xs * d"
    by (induction "is" xs rule: list_induct2) (simp_all add: algebra_simps)
  ultimately show "dot (is @ [q * d + t]) str = dot (is @ [q]) str' * d + t"
    by (simp add: str(1,2) dot_append distrib_right)
qed

section \<open>Elements decoded from bytes\<close>

lemma pieces_nth: "k < c \<Longrightarrow> pieces n c xs ! k = take n (drop (n * k) xs)"
proof (induction n c xs arbitrary: k rule: pieces.induct)
  case (2 n c xs)
  then show ?case by (cases k) (simp_all add: add.commute)
qed simp

lemma length_pieces [simp]: "length (pieces n c xs) = c"
  by (induction n c xs rule: pieces.induct) simp_all

lemma load_decoded:
  assumes "0 < n" "p + n * k + n \<le> length m"
  shows "load (ptr_add (elements_ptr dec n (Ptr m (int p))) (int k)) = Inr (dec (take n (drop (p + n * k) m)))"
proof -
  let ?rest = "drop (p mod n) m"
  have pn: "p = n * (p div n) + p mod n" by simp
  have "n * (p div n + k) + n \<le> length ?rest"
  proof -
    have "n * (p div n + k) = n * (p div n) + n * k" by (rule add_mult_distrib2)
    with assms(2) pn show ?thesis unfolding length_drop by linarith
  qed
  then have "p div n + k < length ?rest div n"
    using assms(1) by (metis add_mult_distrib2 div_le_mono mult.right_neutral nonzero_mult_div_cancel_left
        Suc_eq_plus1 Suc_le_eq not_gr0)
  moreover have "p mod n + n * (p div n + k) = p + n * k" using pn by (simp add: add_mult_distrib2)
  ultimately show ?thesis
    by (simp add: elements_ptr_def Let_def load_def pieces_nth nat_mod_distrib nat_div_distrib nat_add_distrib
        add.commute flip: zdiv_int zmod_int of_nat_add)
qed

section \<open>Conversions of bounds\<close>

lemma default_rep: "positive ds \<Longrightarrow> prod_list ds \<le> ptrdiff_max \<Longrightarrow> ranges_rep (default_ranges ds) ds"
proof (induction ds)
  case (Cons d ds)
  then have d: "0 < d" "positive ds" "0 < prod_list ds" using positive_prod by simp_all
  then have "1 * prod_list ds \<le> d * prod_list ds" by (intro mult_right_mono) simp_all
  then have "prod_list ds \<le> ptrdiff_max" using Cons.prems(2) unfolding mult_1 prod_list.Cons by linarith
  with Cons d show ?case by (simp add: dynamic_range_def)
qed simp

definition fits_dims :: "int list \<Rightarrow> int list \<Rightarrow> bool" where
  "fits_dims ts ds \<longleftrightarrow> list_all2 (\<lambda>t d. t = dynamic_range \<or> t = d) ts ds"

lemma convert_ranges_rep:
  "ranges_rep r ds \<Longrightarrow> fits_dims ts ds \<Longrightarrow>
   \<exists>r'. convert_ranges ts r first = Inr r' \<and> ranges_rep r' ds \<and> template_of r' = ts"
proof (induction ts arbitrary: r ds first)
  case Nil
  then show ?case by (simp add: fits_dims_def)
next
  case (Cons t ts)
  then obtain d ds' where ds: "ds = d # ds'" "t = dynamic_range \<or> t = d" "fits_dims ts ds'"
    by (auto simp: fits_dims_def list_all2_Cons1)
  from Cons.IH [OF _ ds(3), of "range_base r" False] base_rep Cons.prems(1) ds(1) obtain base where
    base: "convert_ranges ts (range_base r) False = Inr base" "ranges_rep base ds'" "template_of base = ts" by blast
  have t: "totalSize r = Inr (d * prod_list ds')" using totalSize_rep [OF Cons.prems(1)] ds(1) by simp
  have p: "0 \<le> d" "d * prod_list ds' \<le> ptrdiff_max" "0 \<le> d * prod_list ds'"
    using ranges_rep_prod [OF Cons.prems(1)] ds(1) by simp_all
  show ?case
  proof (cases "t = dynamic_range")
    case True
    with base t p ds show ?thesis by simp
  next
    case False
    with base t p ds totalSize_rep [OF base(2)] show ?thesis by simp
  qed
qed

section \<open>Properties\<close>

text \<open>
  C40. The bytes of a span are the representations of its elements, one after the other, and the span
  that is made of these bytes again is the span itself.
\<close>

theorem bytes_and_back:
  assumes "representation n enc dec" "span_ok sp" "int n * span_size sp < ptrdiff_max"
  shows "\<exists>bs. as_bytes enc n sp = Inr bs \<and> view bs = concat (map enc (view sp)) \<and> bytes_as_span dec n bs = Inr sp"
proof -
  have "0 < n" using assms(1) by (simp add: representation_def)
  then have "1 * span_size sp \<le> int n * span_size sp"
    using span_size_nonneg [OF assms(2)] by (intro mult_right_mono) simp_all
  then have "span_size sp < ptrdiff_max" using assms(3) by simp
  with as_bytes_view [OF assms(1,2)] bytes_roundtrip [OF assms(1,2)] assms(3) show ?thesis by fastforce
qed

definition big_endian :: "ushort \<Rightarrow> ubyte list" where
  "big_endian x = [ucast (drop_bit 8 x), ucast (x AND 255)]"

definition of_big_endian :: "ubyte list \<Rightarrow> ushort" where
  "of_big_endian bs = push_bit 8 (ucast (bs ! 0)) + ucast (bs ! 1)"

theorem bytes_and_back_witness:
  "\<exists>bs. as_bytes big_endian 2 \<lparr>m_pdata = Ptr [1, 515] 0, m_bounds = 2\<rparr> = Inr bs \<and> view bs = [0, 1, 2, 3] \<and>
     bytes_as_span of_big_endian 2 bs = Inr \<lparr>m_pdata = Ptr [1, 515] 0, m_bounds = 2\<rparr>"
proof -
  have "representation 2 big_endian of_big_endian"
    by (simp add: representation_def big_endian_def of_big_endian_def ushort_split)
  moreover have "span_ok \<lparr>m_pdata = Ptr [1, 515 :: ushort] 0, m_bounds = 2\<rparr>" by (simp add: span_ok_def)
  moreover have "view \<lparr>m_pdata = Ptr [1, 515 :: ushort] 0, m_bounds = 2\<rparr> = [1, 515]" by (simp add: view_def)
  moreover have "concat (map big_endian [1, 515]) = [0, 1, 2, 3]" by (simp add: big_endian_def)
  ultimately show ?thesis
    using bytes_and_back [of 2 big_endian of_big_endian "\<lparr>m_pdata = Ptr [1, 515] 0, m_bounds = 2\<rparr>"]
    by (simp only:) (simp add: ptrdiff_max_def)
qed

text \<open>
  A strided span of bytes, seen as a strided span of elements of \<open>n\<close> bytes: an element is decoded
  from the bytes which the same index names in the span of bytes, with the last component multiplied
  by \<open>n\<close>.
\<close>

lemma strided_cast_elements:
  assumes "as_strided_span dec n sp = Inr sp'" "0 < n" "ss_pdata sp = Ptr m (int p)"
    and "m_extents (ss_bounds sp) \<noteq> []" "length (m_strides (ss_bounds sp)) = length (m_extents (ss_bounds sp))"
    and "int p + sb_total_size (ss_bounds sp) \<le> int (length m)" "in_box (m_extents (ss_bounds sp')) (is @ [q])"
  shows "\<exists>bs. length bs = n \<and> bindE (ss_ref sp' (is @ [q])) load = Inr (dec bs) \<and>
    (\<forall>t<n. bindE (ss_ref sp (is @ [q * int n + int t])) load = Inr (bs ! t))"
proof -
  let ?es = "m_extents (ss_bounds sp)" and ?ss = "m_strides (ss_bounds sp)"
  obtain es' ss' where r: "resize_extent ?es (int n) = Inr es'" "resize_stride ?ss (int n) = Inr ss'"
    and sp': "sp' = \<lparr>ss_pdata = elements_ptr dec n (ss_pdata sp), ss_bounds = \<lparr>m_extents = es', m_strides = ss'\<rparr>\<rparr>"
    using assms(1) by (auto simp: as_strided_span_def strides_def ss_of_def Let_def returned)
  have box: "in_box es' (is @ [q])" using assms(7) sp' by simp
  note off = resized_offset [OF r assms(4,5) _ box]
  define k where "k = nat (dot (is @ [q]) ss')"
  have b: "in_box ?es (is @ [q * int n + int t])" "dot (is @ [q * int n + int t]) ?ss = dot (is @ [q]) ss' * int n + int t"
    "length ss' = length es'" "list_all (\<lambda>x. 0 \<le> x) ?ss" if "t < n" for t
    using off [of "int t"] assms(2) that by simp_all
  have d0: "0 \<le> dot (is @ [q * int n]) ?ss" "dot (is @ [q * int n]) ?ss = dot (is @ [q]) ss' * int n"
    using b [of 0] dot_bounds [OF b(1) assms(5) b(4), of 0] assms(2) by simp_all
  then have k: "dot (is @ [q]) ss' = int k" using assms(2) by (simp add: k_def zero_le_mult_iff)
  have "dot (is @ [q * int n + int (n - 1)]) ?ss \<le> sb_total_size (ss_bounds sp) - 1"
    using dot_bounds [OF b(1) assms(5) b(4), of "n - 1"] assms(2,5) by (simp add: sb_total_size_dot)
  then have "int (p + n * k + n) \<le> int (length m)"
    using b(2) [of "n - 1"] k assms(2,6) by (simp add: of_nat_diff algebra_simps)
  then have fit: "p + n * k + n \<le> length m" by (simp only: of_nat_le_iff)
  let ?bs = "take n (drop (p + n * k) m)"
  have "ss_ref sp' (is @ [q]) = Inr (ptr_add (elements_ptr dec n (Ptr m (int p))) (int k))"
    using sp' assms(3) ss_ref_dot [of "ss_bounds sp'" "is @ [q]"] box b(3) [of 0] assms(2) k by simp
  moreover have "bindE (ss_ref sp (is @ [q * int n + int t])) load = Inr (?bs ! t)" if "t < n" for t
  proof -
    have "ss_ref sp (is @ [q * int n + int t]) = Inr (Ptr m (int (p + n * k + t)))"
      using ss_ref_dot [OF b(1) assms(5), of t "ss_pdata sp"] b(2) [OF that] k assms(3) that
      by (cases sp) (simp add: algebra_simps)
    then show ?thesis using that fit by (simp add: load_def del: of_nat_add)
  qed
  ultimately show ?thesis
    using load_decoded [OF assms(2) fit, of dec] fit by (intro exI [of _ ?bs]) simp
qed

lemma strided_cast_elements_witness:
  "\<exists>sp'. as_strided_span (\<lambda>bs. bs) 2 \<lparr>ss_pdata = Ptr [1, 2, 3, 4, 5, 6, 7, 8] 0,
      ss_bounds = \<lparr>m_extents = [2, 4], m_strides = [4, 1]\<rparr>\<rparr> = Inr sp' \<and> bindE (ss_ref sp' [1, 1]) load = Inr [7, 8 :: ubyte]"
proof -
  let ?sp = "\<lparr>ss_pdata = Ptr [1, 2, 3, 4, 5, 6, 7, 8 :: ubyte] 0, ss_bounds = \<lparr>m_extents = [2, 4], m_strides = [4, 1]\<rparr>\<rparr>"
  have t: "sb_total_size (ss_bounds ?sp) = 8" by (simp add: sb_total_size_dot)
  have "\<exists>sp'. as_strided_span (\<lambda>bs. bs) 2 ?sp = Inr sp' \<and> m_extents (ss_bounds sp') = [2, 2]"
    by (simp add: as_strided_span_def resize_extent_def resize_stride_def resize_stride_many_def strides_def
        idx_div_def idx_div_assign_def ss_of_def sb_size_prod sb_total_size_dot elements_ptr_def
        signed_modulo_int_def signed_divide_int_def numeral_eq_Suc)
  then obtain sp' where sp': "as_strided_span (\<lambda>bs. bs) 2 ?sp = Inr sp'" "m_extents (ss_bounds sp') = [2, 2]" by blast
  obtain bs where bs: "length bs = 2" "bindE (ss_ref sp' [1, 1]) load = Inr bs"
    "\<forall>t<2. bindE (ss_ref ?sp [1, 2 + int t]) load = Inr (bs ! t)"
    using strided_cast_elements [OF sp'(1), of "[1, 2, 3, 4, 5, 6, 7, 8]" 0 "[1]" 1] sp'(2) t
    by auto
  have "bindE (ss_ref ?sp [1, 2]) load = Inr 7" "bindE (ss_ref ?sp [1, 3]) load = Inr 8"
    by (simp_all add: ss_ref_def sb_linearize_dot load_def)
  then have "bs = [7, 8]"
    using bs(1) bs(3) [rule_format, of 0] bs(3) [rule_format, of 1] by (auto simp: length_Suc_conv numeral_eq_Suc)
  with sp' bs(2) show ?thesis by auto
qed

text \<open>From \<^verbatim>\<open>rbegin()\<close> to \<^verbatim>\<open>rend()\<close> the elements of a span come in reverse order.\<close>

lemma reverse_traversal:
  assumes "span_ok sp"
  shows "rv_collect (span_rbegin this sp) (span_rend this sp) = Inr (rev (view sp)) \<and>
    rv_collect (span_crbegin this sp) (span_crend this sp) = Inr (rev (view sp))"
  using rv_collect_view [OF assms, of "length (view sp)" this] span_size_view [OF assms]
  by (simp add: span_crbegin_def span_crend_def span_cbegin_def span_cend_def span_rbegin_def
      span_rend_def ci_of_def span_end_def del: length_view)

lemma reverse_traversal_witness:
  "rv_collect (span_rbegin 0 \<lparr>m_pdata = Ptr [1, 2, 3 :: ubyte] 1, m_bounds = 2\<rparr>)
     (span_rend 0 \<lparr>m_pdata = Ptr [1, 2, 3] 1, m_bounds = 2\<rparr>) = Inr [3, 2]"
proof -
  have "span_ok \<lparr>m_pdata = Ptr [1, 2, 3 :: ubyte] 1, m_bounds = 2\<rparr>" by (simp add: span_ok_def)
  from reverse_traversal [OF this, of 0] show ?thesis by (simp add: view_def numeral_nat)
qed

text \<open>
  A span of an array of any number of dimensions: an index names the element of the array at
  its position in row-major order, also where extents of the span's type are dynamic.
\<close>

lemma array_elements:
  assumes "positive ds" "prod_list ds \<le> ptrdiff_max" "int (length m) = prod_list ds" "fits_dims ts ds" "in_box ds is"
  shows "\<exists>sp. ms_of_array ts ds m = Inr sp \<and> template_of (ms_bounds sp) = ts \<and>
    bindE (ms_ref sp is) load = Inr (m ! nat (row_major ds is))"
proof -
  obtain b where b: "convert_ranges ts (default_ranges ds) True = Inr b" "ranges_rep b ds" "template_of b = ts"
    using convert_ranges_rep [OF default_rep [OF assms(1,2)] assms(4)] by blast
  let ?sp = "\<lparr>ms_pdata = Ptr m 0, ms_bounds = b\<rparr>"
  have "ms_of_array ts ds m = Inr ?sp" using b ms_of_rep [OF b(2), of "Ptr m 0"] by (simp add: ms_of_array_def)
  moreover have "ms_ref ?sp is = Inr (Ptr m (row_major ds is))" using ms_ref_in_box [of ?sp ds "is"] b(2) assms(5) by simp
  ultimately show ?thesis using row_major_bound [OF assms(5)] assms(3) b(3) by (simp add: load_def)
qed

lemma array_elements_witness:
  "\<exists>sp. ms_of_array [dynamic_range, 2] [3, 2] ''abcdef'' = Inr sp \<and> bindE (ms_ref sp [2, 0]) load = Inr (CHR ''e'')"
proof -
  have "fits_dims [dynamic_range, 2] [3, 2]" by (simp add: fits_dims_def)
  then show ?thesis
    using array_elements [of "[3, 2]" "''abcdef''" "[dynamic_range, 2]" "[2, 0]"] by (auto simp: ptrdiff_max_def)
qed

end
