(* ===== verification/StridedViews.thy ===== *)
theory StridedViews
  imports SpanViews
begin

text \<open>
  The remaining members of \<^verbatim>\<open>strided_span\<close> in \<^verbatim>\<open>gsl/include/span.h\<close>: construction from an array,
  conversion, accessors, and the traversals, forwards and with \<^verbatim>\<open>std::reverse_iterator\<close>. Whether a
  loop over a strided span ends depends on what the iterator does, so the traversals are partial
  functions: a loop that does not end is \<^const>\<open>None\<close>.
\<close>

section \<open>Members\<close>

definition sb_of :: "idx \<Rightarrow> idx \<Rightarrow> strided_bounds" where
  "sb_of extents str = \<lparr>m_extents = extents, m_strides = str\<rparr>"

definition sb_extent :: "nat \<Rightarrow> strided_bounds \<Rightarrow> int result" where
  "sb_extent k b = idx_at (m_extents b) k"

definition ss_of_array :: "'a list \<Rightarrow> strided_bounds \<Rightarrow> 'a strided_span result" where
  "ss_of_array values bounds = ss_of (Ptr values 0) (int (length values)) bounds"

definition ss_convert :: "'a strided_span \<Rightarrow> 'a strided_span" where
  "ss_convert other = \<lparr>ss_pdata = ss_pdata other, ss_bounds = ss_bounds other\<rparr>"

definition ss_extent :: "nat \<Rightarrow> 'a strided_span \<Rightarrow> int result" where
  "ss_extent k sp = sb_extent k (ss_bounds sp)"

definition ss_size :: "'a strided_span \<Rightarrow> int" where
  "ss_size sp = sb_size (ss_bounds sp)"

definition ss_data :: "'a strided_span \<Rightarrow> 'a ptr" where
  "ss_data sp = ss_pdata sp"

definition ss_bool :: "'a strided_span \<Rightarrow> bool" where
  "ss_bool sp \<longleftrightarrow> ss_pdata sp \<noteq> Null"

definition gi_plus_left :: "int \<Rightarrow> 'a general_iterator \<Rightarrow> 'a general_iterator result" where
  "gi_plus_left n rhs = gi_plus rhs n"

section \<open>Traversals\<close>

record 'a reverse_general =
  rg_base :: "'a general_iterator"

definition ss_cbegin :: "int \<Rightarrow> 'a strided_span \<Rightarrow> 'a general_iterator" where
  "ss_cbegin this sp = gi_of this sp True"

definition ss_cend :: "int \<Rightarrow> 'a strided_span \<Rightarrow> 'a general_iterator" where
  "ss_cend this sp = gi_of this sp False"

definition ss_rbegin :: "int \<Rightarrow> 'a strided_span \<Rightarrow> 'a reverse_general" where
  "ss_rbegin this sp = \<lparr>rg_base = ss_end this sp\<rparr>"

definition ss_rend :: "int \<Rightarrow> 'a strided_span \<Rightarrow> 'a reverse_general" where
  "ss_rend this sp = \<lparr>rg_base = ss_begin this sp\<rparr>"

definition ss_crbegin :: "int \<Rightarrow> 'a strided_span \<Rightarrow> 'a reverse_general" where
  "ss_crbegin this sp = \<lparr>rg_base = ss_cend this sp\<rparr>"

definition ss_crend :: "int \<Rightarrow> 'a strided_span \<Rightarrow> 'a reverse_general" where
  "ss_crend this sp = \<lparr>rg_base = ss_cbegin this sp\<rparr>"

definition rg_deref :: "'a reverse_general \<Rightarrow> 'a result" where
  "rg_deref it = (let tmp = rg_base it in bindE (gi_decr tmp) gi_deref)"

definition rg_incr :: "'a reverse_general \<Rightarrow> 'a reverse_general result" where
  "rg_incr it = bindE (gi_decr (rg_base it)) (\<lambda>base. Inr (it\<lparr>rg_base := base\<rparr>))"

definition rg_ne :: "'a reverse_general \<Rightarrow> 'a reverse_general \<Rightarrow> bool result" where
  "rg_ne it rhs = gi_ne (rg_base it) (rg_base rhs)"

text \<open>The range \<^verbatim>\<open>for\<close> over a strided span, which collects the elements, and the one from the end.\<close>

partial_function (option) gi_collect :: "'a general_iterator \<Rightarrow> 'a general_iterator \<Rightarrow> 'a list result option" where
  "gi_collect it stop =
     (case gi_ne it stop of Inl e \<Rightarrow> Some (Inl e)
      | Inr differ \<Rightarrow> if \<not> differ then Some (Inr [])
          else (case gi_deref it of Inl e \<Rightarrow> Some (Inl e)
                | Inr x \<Rightarrow> Option.bind (gi_collect (gi_incr it) stop) (\<lambda>r. Some (bindE r (\<lambda>xs. Inr (x # xs))))))"

partial_function (option) rg_collect :: "'a reverse_general \<Rightarrow> 'a reverse_general \<Rightarrow> 'a list result option" where
  "rg_collect it stop =
     (case rg_ne it stop of Inl e \<Rightarrow> Some (Inl e)
      | Inr differ \<Rightarrow> if \<not> differ then Some (Inr [])
          else (case bindE (rg_deref it) (\<lambda>x. bindE (rg_incr it) (\<lambda>it. Inr (x, it))) of Inl e \<Rightarrow> Some (Inl e)
                | Inr (x, it) \<Rightarrow> Option.bind (rg_collect it stop) (\<lambda>r. Some (bindE r (\<lambda>xs. Inr (x # xs))))))"

section \<open>Positions of the traversals\<close>

text \<open>A strided span whose elements are inside the array object behind its pointer.\<close>

definition strided_ok :: "'a list \<Rightarrow> nat \<Rightarrow> 'a strided_span \<Rightarrow> bool" where
  "strided_ok m p sp \<longleftrightarrow> ss_pdata sp = Ptr m (int p) \<and>
     m_extents (ss_bounds sp) \<noteq> [] \<and> positive (m_extents (ss_bounds sp)) \<and>
     length (m_strides (ss_bounds sp)) = length (m_extents (ss_bounds sp)) \<and>
     list_all (\<lambda>s. 0 \<le> s) (m_strides (ss_bounds sp)) \<and>
     int p + sb_total_size (ss_bounds sp) \<le> int (length m)"

lemma length_unrank [simp]: "length (unrank ds k) = length ds"
  by (induction ds k rule: unrank.induct) simp_all

text \<open>The element at a position in row-major order, and all of them.\<close>

definition strided_element :: "'a list \<Rightarrow> nat \<Rightarrow> 'a strided_span \<Rightarrow> nat \<Rightarrow> 'a" where
  "strided_element m p sp k =
     m ! (p + nat (dot (unrank (m_extents (ss_bounds sp)) (int k)) (m_strides (ss_bounds sp))))"

definition strided_elements :: "'a list \<Rightarrow> nat \<Rightarrow> 'a strided_span \<Rightarrow> 'a list" where
  "strided_elements m p sp = map (strided_element m p sp) [0..<nat (prod_list (m_extents (ss_bounds sp)))]"

definition stand :: "int \<Rightarrow> 'a strided_span \<Rightarrow> nat \<Rightarrow> 'a general_iterator" where
  "stand a sp k = \<lparr>gi_address = a, gi_container = sp, gi_itr =
     \<lparr>bi_boundary = m_extents (ss_bounds sp), bi_curr = bi_position (m_extents (ss_bounds sp)) (int k)\<rparr>\<rparr>"

abbreviation strided_count :: "'a strided_span \<Rightarrow> nat" where
  "strided_count sp \<equiv> nat (prod_list (m_extents (ss_bounds sp)))"

lemma begin_stand: "strided_ok m p sp \<Longrightarrow> gi_of a sp True = stand a sp 0"
  by (simp add: gi_of_def stand_def sb_begin_def idx_zero_def bi_begin_position strided_ok_def)

lemma end_stand: "strided_ok m p sp \<Longrightarrow> gi_of a sp False = stand a sp (strided_count sp)"
  by (simp add: gi_of_def stand_def sb_end_def bi_position_def strided_ok_def)

lemma deref_stand:
  assumes "strided_ok m p sp" "k < strided_count sp"
  shows "gi_deref (stand a sp k) = Inr (strided_element m p sp k)"
proof -
  let ?es = "m_extents (ss_bounds sp)" and ?ss = "m_strides (ss_bounds sp)"
  have o: "ss_pdata sp = Ptr m (int p)" "positive ?es" "length ?ss = length ?es" "list_all (\<lambda>s. 0 \<le> s) ?ss"
    "int p + sb_total_size (ss_bounds sp) \<le> int (length m)"
    using assms(1) by (simp_all add: strided_ok_def)
  have k: "int k < prod_list ?es" using assms(2) by simp
  have box: "in_box ?es (unrank ?es (int k))" using unrank_position [OF o(2) _ k] by simp
  have "bi_position ?es (int k) = unrank ?es (int k)" using k by (simp add: bi_position_def)
  with ss_ref_dot [OF box o(3), of "ss_pdata sp"] o(1)
  have "gi_ref (stand a sp k) = Inr (Ptr m (int p + dot (unrank ?es (int k)) ?ss))"
    by (cases sp) (simp add: gi_ref_def stand_def bi_deref_def)
  with dot_bounds [OF box o(3,4)] o(5) sb_total_size_dot [OF o(3)] show ?thesis
    by (simp add: gi_deref_def load_def strided_element_def nat_add_distrib)
qed

lemma incr_stand: "strided_ok m p sp \<Longrightarrow> k < strided_count sp \<Longrightarrow> gi_incr (stand a sp k) = stand a sp (Suc k)"
  using bi_incr_position [of "m_extents (ss_bounds sp)" "int k"]
  by (simp add: gi_incr_def stand_def strided_ok_def add.commute)

lemma decr_stand: "strided_ok m p sp \<Longrightarrow> k < strided_count sp \<Longrightarrow> gi_decr (stand a sp (Suc k)) = Inr (stand a sp k)"
  using bi_decr_position [of "m_extents (ss_bounds sp)" "int (Suc k)"]
  by (simp add: gi_decr_def stand_def strided_ok_def)

lemma ne_stand:
  assumes "strided_ok m p sp" "i \<le> strided_count sp" "j \<le> strided_count sp"
  shows "gi_ne (stand a sp i) (stand a sp j) = Inr (i \<noteq> j)"
proof -
  let ?es = "m_extents (ss_bounds sp)"
  have o: "?es \<noteq> []" "positive ?es" using assms(1) by (simp_all add: strided_ok_def)
  then have "0 < prod_list ?es" using positive_prod by blast
  with assms have "int i \<le> prod_list ?es" "int j \<le> prod_list ?es" by simp_all
  then have "bi_position ?es (int i) = bi_position ?es (int j) \<longleftrightarrow> i = j"
    using bi_linearize_position [OF o(2,1), of "int i" ?es] bi_linearize_position [OF o(2,1), of "int j" ?es]
    by (metis of_nat_0_le_iff of_nat_eq_iff)
  moreover have "idx_eq xs ys \<longleftrightarrow> xs = ys" if "length xs = length ys" for xs ys
    using that by (induction xs ys rule: list_induct2) (simp_all add: idx_eq_def)
  moreover have "length (bi_position ?es (int k)) = length ?es" for k
    by (simp add: bi_position_def)
  ultimately show ?thesis by (simp add: gi_ne_def gi_eq_def stand_def bi_eq_def)
qed

text \<open>Both loops, from any position.\<close>

lemma collect_from:
  assumes "strided_ok m p sp"
  shows "k \<le> strided_count sp \<Longrightarrow> gi_collect (stand a sp k) (stand a sp (strided_count sp))
     = Some (Inr (map (strided_element m p sp) [k..<strided_count sp]))"
proof (induction "strided_count sp - k" arbitrary: k)
  case 0
  then show ?case using assms by (subst gi_collect.simps) (simp add: ne_stand)
next
  case (Suc d)
  then have "gi_collect (stand a sp (Suc k)) (stand a sp (strided_count sp))
      = Some (Inr (map (strided_element m p sp) [Suc k..<strided_count sp]))"
    by (intro Suc.hyps(1)) simp_all
  with Suc.hyps(2) Suc.prems assms show ?case
    by (subst gi_collect.simps) (simp add: ne_stand deref_stand incr_stand upt_conv_Cons)
qed

lemma collect_back:
  assumes "strided_ok m p sp"
  shows "k \<le> strided_count sp \<Longrightarrow> rg_collect \<lparr>rg_base = stand a sp k\<rparr> \<lparr>rg_base = stand a sp 0\<rparr>
     = Some (Inr (rev (map (strided_element m p sp) [0..<k])))"
proof (induction k)
  case 0
  then show ?case using assms by (subst rg_collect.simps) (simp add: rg_ne_def ne_stand)
next
  case (Suc k)
  with assms show ?case
    by (subst rg_collect.simps)
       (simp add: rg_ne_def ne_stand rg_deref_def rg_incr_def decr_stand deref_stand)
qed

section \<open>Properties\<close>

text \<open>
  C39. The range \<^verbatim>\<open>for\<close> over a strided span without empty extents ends, and visits the elements in the
  row-major order of their indices; the loop from \<^verbatim>\<open>rbegin()\<close> to \<^verbatim>\<open>rend()\<close> visits them in reverse.
\<close>

theorem strided_traversals:
  assumes "strided_ok m p sp"
  shows "gi_collect (ss_begin a sp) (ss_end a sp) = Some (Inr (strided_elements m p sp)) \<and>
    rg_collect (ss_rbegin a sp) (ss_rend a sp) = Some (Inr (rev (strided_elements m p sp)))"
  using collect_from [OF assms, of 0 a] collect_back [OF assms, of _ a]
  by (simp add: begin_stand [OF assms] end_stand [OF assms] ss_rbegin_def ss_rend_def ss_begin_def ss_end_def
      strided_elements_def)

theorem strided_traversals_witness:
  "rg_collect (ss_rbegin 0 \<lparr>ss_pdata = Ptr ''abcdef'' 1, ss_bounds = \<lparr>m_extents = [2, 2], m_strides = [3, 1]\<rparr>\<rparr>)
     (ss_rend 0 \<lparr>ss_pdata = Ptr ''abcdef'' 1, ss_bounds = \<lparr>m_extents = [2, 2], m_strides = [3, 1]\<rparr>\<rparr>)
   = Some (Inr ''fecb'')"
proof -
  have "strided_ok ''abcdef'' 1 \<lparr>ss_pdata = Ptr ''abcdef'' 1, ss_bounds = \<lparr>m_extents = [2, 2], m_strides = [3, 1]\<rparr>\<rparr>"
    by (simp add: strided_ok_def sb_total_size_dot)
  from strided_traversals [OF this, of 0] show ?thesis
    by (simp add: strided_elements_def strided_element_def eval_nat_numeral)
qed

end
