(* ===== verification/GslExtras.thy ===== *)
theory GslExtras
  imports SpanViews
begin

text \<open>
  What is left of the Guidelines Support Library: which conversions of \<^verbatim>\<open>static_bounds\<close> the type
  system accepts, members of \<^verbatim>\<open>gsl/include/span.h\<close> that name another operation, and
  \<^verbatim>\<open>final_act\<close> and \<^verbatim>\<open>not_null\<close> of \<^verbatim>\<open>gsl/include/gsl.h\<close>.
\<close>

section \<open>Conversions of static bounds\<close>

text \<open>
  The template arguments of two \<^verbatim>\<open>BoundsRanges\<close> as lists: \<^verbatim>\<open>Depth\<close> is the length,
  \<^verbatim>\<open>CurrentRange\<close> the head, \<^verbatim>\<open>Base\<close> the tail.
\<close>

fun BoundsRangeConvertible2 :: "int list \<Rightarrow> int list \<Rightarrow> nat \<Rightarrow> bool" where
  "BoundsRangeConvertible2 src target 0 = True"
| "BoundsRangeConvertible2 src target (Suc rank) \<longleftrightarrow>
     length src = length target \<and>
     (hd src = hd target \<or> hd target = dynamic_range \<or> hd src = dynamic_range) \<and>
     BoundsRangeConvertible2 (tl src) (tl target) rank"

definition BoundsRangeConvertible :: "int list \<Rightarrow> int list \<Rightarrow> bool" where
  "BoundsRangeConvertible src target \<longleftrightarrow>
     (case length target of 0 \<Rightarrow> True
      | Suc rank \<Rightarrow> length src = length target \<and>
          (\<not> hd src < hd target \<or> hd target = dynamic_range \<or> hd src = dynamic_range) \<and>
          BoundsRangeConvertible2 (tl src) (tl target) rank)"

text \<open>The converting constructor of \<^verbatim>\<open>static_bounds\<close>; \<^const>\<open>None\<close> where there is none for these types.\<close>

definition bounds_convert :: "int list \<Rightarrow> ranges \<Rightarrow> ranges result option" where
  "bounds_convert target other =
     (if BoundsRangeConvertible (template_of other) target then Some (convert_ranges target other True) else None)"

text \<open>
  Two objects of the same type are compared; the template arguments of the type are not part of them.
\<close>

definition primary_eq :: bool where
  [simp]: "primary_eq = True"

definition static_eq :: "bool \<Rightarrow> bool" where
  [simp]: "static_eq base_eq = base_eq"

fun ranges_eq :: "ranges \<Rightarrow> ranges \<Rightarrow> bool" where
  "ranges_eq (DynRange b base) (DynRange b' base') \<longleftrightarrow> b = b' \<and> ranges_eq base base'"
| "ranges_eq (StatRange c base) (StatRange c' base') \<longleftrightarrow> static_eq (ranges_eq base base')"
| "ranges_eq _ _ \<longleftrightarrow> primary_eq"

lemma convertible2_fits:
  "BoundsRangeConvertible2 src ts (length ts) \<Longrightarrow> length src = length ts \<Longrightarrow> list_all (\<lambda>d. 0 \<le> d) src \<Longrightarrow> fits_dims ts src"
  by (induction ts arbitrary: src) (auto simp: fits_dims_def length_Suc_conv dynamic_range_def)

text \<open>The extents after a conversion: only the first may become smaller.\<close>

definition converted :: "int list \<Rightarrow> int list \<Rightarrow> int list" where
  "converted ts ds = (case ts of [] \<Rightarrow> [] | t # _ \<Rightarrow> (if t = dynamic_range then hd ds else t) # tl ds)"

section \<open>Members\<close>

definition idx_mul_left :: "int \<Rightarrow> idx \<Rightarrow> idx" where
  "idx_mul_left v rhs = idx_mul rhs v"

definition bi_plus_left :: "int \<Rightarrow> bounds_iterator \<Rightarrow> bounds_iterator result" where
  "bi_plus_left n rhs = bi_plus rhs n"

definition ci_plus_left :: "int \<Rightarrow> 'a contiguous_iterator \<Rightarrow> 'a contiguous_iterator" where
  "ci_plus_left n rhs = ci_plus rhs n"

definition bounds_extent :: "ranges \<Rightarrow> int result" where
  "bounds_extent b = elementNum b"

definition ms_extent :: "'a mspan \<Rightarrow> int result" where
  "ms_extent sp = bounds_extent (ms_bounds sp)"

definition ms_size :: "'a mspan \<Rightarrow> int result" where
  "ms_size sp = bounds_size (ms_bounds sp)"

definition ms_length :: "'a mspan \<Rightarrow> int result" where
  "ms_length sp = ms_size sp"

definition ms_used_length :: "'a mspan \<Rightarrow> int result" where
  "ms_used_length sp = ms_length sp"

definition ms_data :: "'a mspan \<Rightarrow> 'a ptr" where
  "ms_data sp = ms_pdata sp"

definition span_used_bytes :: "int \<Rightarrow> 'a span \<Rightarrow> int" where
  "span_used_bytes size_of sp = span_bytes size_of sp"

lemma span_sizes:
  "ranges_rep (ms_bounds sp) (d # ds) \<Longrightarrow> ms_used_length sp = Inr (d * prod_list ds)"
  "ranges_rep (ms_bounds sp) (d # ds) \<Longrightarrow> prod_list ds \<noteq> 0 \<Longrightarrow> ms_extent sp = Inr d"
proof -
  assume r: "ranges_rep (ms_bounds sp) (d # ds)"
  then show "ms_used_length sp = Inr (d * prod_list ds)"
    using totalSize_rep [OF r] by (simp add: ms_used_length_def ms_length_def ms_size_def bounds_size_def)
  assume "prod_list ds \<noteq> 0"
  with ranges_rep_prod [OF base_rep [OF r]] have "0 < prod_list ds" by simp
  with r show "ms_extent sp = Inr d"
    by (cases "ms_bounds sp") (auto simp: ms_extent_def bounds_extent_def totalSize_rep sdiv_exact)
qed

section \<open>final_act\<close>

text \<open>The function object changes a state of the program.\<close>

record 's final_act =
  act_f :: "'s \<Rightarrow> 's"
  act_invoke :: bool

definition new_final_act :: "('s \<Rightarrow> 's) \<Rightarrow> 's final_act" where
  "new_final_act f = \<lparr>act_f = f, act_invoke = True\<rparr>"

text \<open>The move constructor: the new object, and the other one afterwards.\<close>

definition move_final_act :: "'s final_act \<Rightarrow> 's final_act \<times> 's final_act" where
  "move_final_act other = (\<lparr>act_f = act_f other, act_invoke = act_invoke other\<rparr>, other\<lparr>act_invoke := False\<rparr>)"

definition destroy_final_act :: "'s final_act \<Rightarrow> 's \<Rightarrow> 's" where
  "destroy_final_act act s = (if act_invoke act then act_f act s else s)"

definition gsl_finally :: "('s \<Rightarrow> 's) \<Rightarrow> 's final_act" where
  "gsl_finally f = new_final_act f"

text \<open>The objects that come from one call of \<^verbatim>\<open>finally\<close>: each is moved from another one.\<close>

inductive acts_of :: "('s \<Rightarrow> 's) \<Rightarrow> 's final_act list \<Rightarrow> bool" for f where
  made: "acts_of f [gsl_finally f]"
| moved: "acts_of f acts \<Longrightarrow> i < length acts \<Longrightarrow> move_final_act (acts ! i) = (act, old) \<Longrightarrow>
    acts_of f (acts[i := old] @ [act])"

lemma one_invokes:
  "acts_of f acts \<Longrightarrow> filter_mset act_invoke (mset acts) = {#\<lparr>act_f = f, act_invoke = True\<rparr>#}"
proof (induction rule: acts_of.induct)
  case (moved acts i act old)
  have "act_invoke (acts ! i) \<Longrightarrow> acts ! i \<in># filter_mset act_invoke (mset acts)"
    using moved.hyps(2) by simp
  then have "act_invoke (acts ! i) \<Longrightarrow> acts ! i = \<lparr>act_f = f, act_invoke = True\<rparr>"
    unfolding moved.IH by simp
  with moved.hyps(2,3) moved.IH show ?case by (auto simp: mset_update move_final_act_def)
qed (simp add: gsl_finally_def new_final_act_def)

lemma destroy_none: "filter act_invoke acts = [] \<Longrightarrow> fold destroy_final_act acts s = s"
  by (induction acts) (auto simp: destroy_final_act_def split: if_splits)

lemma destroy_one: "filter act_invoke acts = [act] \<Longrightarrow> fold destroy_final_act acts s = act_f act s"
proof (induction acts)
  case (Cons a acts)
  then show ?case by (cases "act_invoke a") (simp_all add: destroy_none, simp_all add: destroy_final_act_def)
qed simp

section \<open>not_null\<close>

text \<open>The conversion from another \<^verbatim>\<open>not_null\<close>; \<open>junk\<close> is the pointer before it is initialised.\<close>

definition nn_convert :: "'a ptr \<Rightarrow> 'a not_null \<Rightarrow> 'a not_null" where
  "nn_convert junk other = nn_assign_from other \<lparr>nn_ptr = junk\<rparr>"

definition nn_pointer :: "'a not_null \<Rightarrow> 'a ptr" where
  "nn_pointer p = nn_get p"

definition nn_arrow :: "'a not_null \<Rightarrow> 'a ptr" where
  "nn_arrow p = nn_get p"

text \<open>No operation makes an object whose pointer is null.\<close>

inductive not_null_made :: "'a not_null \<Rightarrow> bool" where
  "new_not_null t = Inr p \<Longrightarrow> not_null_made p"
| "not_null_made p \<Longrightarrow> nn_assign t p = Inr q \<Longrightarrow> not_null_made q"
| "not_null_made p \<Longrightarrow> not_null_made q \<Longrightarrow> not_null_made (nn_assign_from q p)"
| "not_null_made q \<Longrightarrow> not_null_made (nn_convert junk q)"

lemma not_null_made: "not_null_made p \<Longrightarrow> nn_pointer p \<noteq> Null \<and> nn_arrow p \<noteq> Null"
  by (induction rule: not_null_made.induct)
     (auto simp: new_not_null_def nn_assign_def ensure_invariant_def nn_assign_from_def nn_convert_def
        nn_pointer_def nn_arrow_def nn_get_def returned Let_def fail_fast_assert_def split: if_splits)

section \<open>Properties\<close>

text \<open>
  C36. A conversion between bounds that the type system accepts does not fail when the source has no
  dynamic extent: the new object has the extents of the source, except that the first may be the smaller
  one of the target.
\<close>

theorem static_conversion_succeeds:
  assumes "bounds_convert ts r = Some res" "ranges_rep r ds" "template_of r = ds" "template_ok ts"
  shows "\<exists>r'. res = Inr r' \<and> ranges_rep r' (converted ts ds) \<and> template_of r' = ts"
proof (cases ts)
  case Nil
  with assms(1) show ?thesis by (auto simp: bounds_convert_def converted_def split: if_splits)
next
  case (Cons t ts')
  with assms(1,3) have c: "length ds = Suc (length ts')" "res = convert_ranges ts r True"
    "\<not> hd ds < t \<or> t = dynamic_range \<or> hd ds = dynamic_range" "BoundsRangeConvertible2 (tl ds) ts' (length ts')"
    by (auto simp: bounds_convert_def BoundsRangeConvertible_def split: if_splits)
  then obtain d ds' where ds: "ds = d # ds'" by (cases ds) auto
  have nn: "0 \<le> d" "list_all (\<lambda>d. 0 \<le> d) ds'" using ranges_rep_prod [OF assms(2)] ds by simp_all
  have "fits_dims ts' ds'" using convertible2_fits [OF c(4)] c(1) ds nn by simp
  from convert_ranges_rep [OF base_rep [OF assms(2) [unfolded ds]] this, of False] obtain base where
    base: "convert_ranges ts' (range_base r) False = Inr base" "ranges_rep base ds'" "template_of base = ts'" by blast
  have t: "totalSize r = Inr (d * prod_list ds')" "totalSize base = Inr (prod_list ds')"
    using totalSize_rep [OF assms(2)] totalSize_rep [OF base(2)] ds by simp_all
  have p: "d * prod_list ds' \<le> ptrdiff_max" "0 \<le> prod_list ds'"
    using ranges_rep_prod [OF assms(2)] ranges_rep_prod [OF base(2)] ds by simp_all
  show ?thesis
  proof (cases "t = dynamic_range")
    case True
    with base t p nn ds c(2) Cons show ?thesis by (simp add: converted_def)
  next
    case False
    with c(3) ds nn assms(4) Cons have b: "0 \<le> t" "t \<le> d" by (auto simp: dynamic_range_def template_ok_def)
    then have "t * prod_list ds' \<le> d * prod_list ds'" "0 \<le> t * prod_list ds'" using p(2) by (simp_all add: mult_right_mono)
    with False b base t p nn ds c(2) Cons show ?thesis by (simp add: converted_def)
  qed
qed

theorem static_conversion_succeeds_witness:
  "\<exists>r'. bounds_convert [2, dynamic_range] (StatRange 3 (StatRange 4 NoRange)) = Some (Inr r') \<and> ranges_rep r' [2, 4]"
proof -
  let ?r = "StatRange 3 (StatRange 4 NoRange)"
  obtain res where res: "bounds_convert [2, dynamic_range] ?r = Some res"
    by (simp add: bounds_convert_def BoundsRangeConvertible_def numeral_2_eq_2)
  moreover have "ranges_rep ?r [3, 4]" by (simp add: ptrdiff_max_def)
  moreover have "template_ok [2, dynamic_range]" by (simp add: template_ok_def)
  ultimately show ?thesis
    using static_conversion_succeeds [of "[2, dynamic_range]" ?r res "[3, 4]"] by (auto simp: converted_def dynamic_range_def)
qed

text \<open>
  Whatever \<^verbatim>\<open>final_act\<close> objects are moved from one another after a call of \<^verbatim>\<open>finally\<close>, and
  in whatever order they are destroyed: the function runs once.
\<close>

lemma finally_runs_once:
  assumes "acts_of f acts" "mset order = mset acts"
  shows "fold destroy_final_act order s = f s"
proof -
  have "mset (filter act_invoke order) = {#\<lparr>act_f = f, act_invoke = True\<rparr>#}"
    using one_invokes [OF assms(1)] assms(2) by (simp add: mset_filter)
  then have "filter act_invoke order = [\<lparr>act_f = f, act_invoke = True\<rparr>]" by (rule mset_single_iff [THEN iffD1])
  then show ?thesis by (simp add: destroy_one)
qed

lemma finally_runs_once_witness:
  "fold destroy_final_act [snd (move_final_act (gsl_finally Suc)), fst (move_final_act (gsl_finally Suc))] 4 = (5 :: nat)"
proof -
  have "acts_of Suc [snd (move_final_act (gsl_finally Suc)), fst (move_final_act (gsl_finally Suc))]"
    using acts_of.moved [OF acts_of.made [of Suc], of 0] by simp
  from finally_runs_once [OF this refl, of 4] show ?thesis by simp
qed

end
