(* ===== verification/SpanCtors.thy ===== *)
theory SpanCtors
  imports GslExtras
begin

text \<open>
  Spans of any rank over a range of elements or a container, from \<^verbatim>\<open>gsl/include/span.h\<close>, and what is
  left of that file and of \<^verbatim>\<open>string_span.h\<close>: \<^verbatim>\<open>dynamic_range\<close> as a value of any integral
  type, the constructors of \<^verbatim>\<open>index\<close>, the members of \<^verbatim>\<open>basic_zstring_builder\<close>.
\<close>

section \<open>Bounds of a range\<close>

text \<open>\<^verbatim>\<open>details::newBoundsHelper\<close> on a type with at most one dynamic dimension; \<open>ts\<close> are its dimensions.\<close>

definition new_bounds_dynamic :: "int list \<Rightarrow> int \<Rightarrow> ranges result" where
  "new_bounds_dynamic ts n = bindE (fail_fast_assert (n \<le> ptrdiff_max)) (\<lambda>_. bounds_of ts [n])"

definition new_bounds_static :: "int list \<Rightarrow> int \<Rightarrow> ranges result" where
  "new_bounds_static ts n = bindE (fail_fast_assert (TotalSize ts = n)) (\<lambda>_. Inr (default_ranges ts))"

definition new_bounds :: "int list \<Rightarrow> int \<Rightarrow> ranges result" where
  "new_bounds ts n = (if DynamicNum ts = 1 then new_bounds_dynamic ts n else new_bounds_static ts n)"

text \<open>\<^verbatim>\<open>span(begin, end)\<close>, \<open>n\<close> elements apart, and \<^verbatim>\<open>span(cont)\<close>.\<close>

definition ms_of_range :: "int list \<Rightarrow> 'a ptr \<Rightarrow> int \<Rightarrow> 'a mspan result" where
  "ms_of_range ts begin n = bindE (new_bounds ts n) (\<lambda>b. ms_of begin b)"

definition ms_of_container :: "int list \<Rightarrow> 'a list \<Rightarrow> 'a mspan result" where
  "ms_of_container ts cont = bindE (new_bounds ts (int (length cont))) (\<lambda>b. ms_of (Ptr cont 0) b)"

text \<open>The product of the static dimensions.\<close>

definition static_part :: "int list \<Rightarrow> int" where
  "static_part ts = prod_list (filter (\<lambda>t. t \<noteq> dynamic_range) ts)"

lemma extents_of_static: "DynamicNum ts = 0 \<Longrightarrow> extents_of ts il = ts \<and> static_part ts = prod_list ts"
  by (induction ts il rule: extents_of.induct) (auto simp: static_part_def split: if_splits)

lemma extents_of_one:
  "DynamicNum ts = 1 \<Longrightarrow> prod_list (extents_of ts [n]) = n * static_part ts"
proof (induction ts)
  case (Cons t ts)
  show ?case
  proof (cases "t = dynamic_range")
    case True
    with Cons.prems extents_of_static [of ts "[]"] show ?thesis by (simp add: static_part_def)
  next
    case False
    with Cons show ?thesis by (simp add: static_part_def)
  qed
qed simp

text \<open>On one dynamic dimension it is the helper of the one-dimensional span.\<close>

lemma new_bounds_one: "- (2 ^ 63) \<le> n \<Longrightarrow> bindE (new_bounds [dynamic_range] n) bounds_size = newBoundsHelperImpl n"
  by (auto simp: new_bounds_def new_bounds_dynamic_def newBoundsHelperImpl_def bounds_of_def bounds_size_def
      dynamic_bounds_def fail_fast_assert_def ptrdiff_def ptrdiff_max_def)

text \<open>Without a dynamic dimension the range must have just the elements of the type.\<close>

lemma static_nonneg: "DynamicNum ts = 0 \<Longrightarrow> template_ok ts \<Longrightarrow> list_all (\<lambda>r. 0 \<le> r) ts"
  by (induction ts) (auto simp: template_ok_def split: if_splits)

lemma static_total: "DynamicNum ts = 0 \<Longrightarrow> template_ok ts \<Longrightarrow> TotalSize ts = prod_list ts"
proof (induction ts)
  case (Cons t ts)
  then have nd: "t \<noteq> dynamic_range" "DynamicNum ts = 0" "template_ok ts"
    by (auto simp: template_ok_def split: if_splits)
  have "0 \<le> prod_list ts" using static_nonneg [OF nd(2,3)] by (induction ts) simp_all
  with nd Cons.IH show ?case by (simp add: dynamic_range_def)
qed simp

lemma static_bounds_rep:
  "DynamicNum ts = 0 \<Longrightarrow> template_ok ts \<Longrightarrow> 0 \<notin> set ts \<Longrightarrow> prod_list ts \<le> ptrdiff_max \<Longrightarrow> ranges_rep (default_ranges ts) ts"
proof (induction ts)
  case (Cons t ts)
  then have nd: "t \<noteq> dynamic_range" "DynamicNum ts = 0" "template_ok ts" "1 \<le> t"
    by (auto simp: template_ok_def split: if_splits)
  have "0 \<le> prod_list ts" using static_nonneg [OF nd(2,3)] by (induction ts) simp_all
  then have "1 * prod_list ts \<le> t * prod_list ts" using nd(4) by (intro mult_right_mono)
  with Cons nd show ?case by simp
qed simp

section \<open>Elements of a span over a container\<close>

text \<open>
  \<^verbatim>\<open>newBoundsHelper\<close> is given the number of elements and hands it on as the extent of the dynamic
  dimension: the span has as many elements for each of those of the container as its static
  dimensions have together.
\<close>

lemma container_size:
  assumes "template_ok ts" "DynamicNum ts = 1" "ms_of_container ts v = Inr sp"
  shows "ranges_rep (ms_bounds sp) (extents_of ts [int (length v)])"
    "prod_list (extents_of ts [int (length v)]) = int (length v) * static_part ts" "ms_pdata sp = Ptr v 0"
proof -
  from assms(2,3) have b: "bounds_of ts [int (length v)] = Inr (ms_bounds sp)" "ms_pdata sp = Ptr v 0"
    by (auto simp: ms_of_container_def new_bounds_def new_bounds_dynamic_def ms_of_def returned)
  then show "ranges_rep (ms_bounds sp) (extents_of ts [int (length v)])" "ms_pdata sp = Ptr v 0"
    using bounds_of_rep assms(1) by blast+
  show "prod_list (extents_of ts [int (length v)]) = int (length v) * static_part ts"
    by (rule extents_of_one [OF assms(2)])
qed

lemma static_container:
  assumes "template_ok ts" "DynamicNum ts = 0" "ms_of_container ts v = Inr sp"
  shows "ms_bounds sp = default_ranges ts \<and> prod_list ts = int (length v) \<and> ms_pdata sp = Ptr v 0"
  using assms static_total [OF assms(2,1)]
  by (auto simp: ms_of_container_def new_bounds_def new_bounds_static_def ms_of_def returned fail_fast_assert_def
      split: if_splits)

section \<open>dynamic_range in other types\<close>

text \<open>
  The constant \<^verbatim>\<open>dynamic_range\<close> converts to every integral type \<open>T\<close> and is compared in it.
\<close>

definition drt_value :: "int_type \<Rightarrow> int" where
  "drt_value T = narrow_cast T (-1)"

definition drt_eq :: "int_type \<Rightarrow> int \<Rightarrow> bool" where
  "drt_eq T other \<longleftrightarrow> drt_value T = other"

definition drt_ne :: "int_type \<Rightarrow> int \<Rightarrow> bool" where
  "drt_ne T other \<longleftrightarrow> drt_value T \<noteq> other"

definition eq_drt :: "int_type \<Rightarrow> int \<Rightarrow> bool" where
  "eq_drt T left \<longleftrightarrow> drt_eq T left"

definition ne_drt :: "int_type \<Rightarrow> int \<Rightarrow> bool" where
  "ne_drt T left \<longleftrightarrow> drt_ne T left"

lemma drt_value: "drt_value (Signed (Suc w)) = dynamic_range" "drt_value (Unsigned w) = 2 ^ w - 1"
  by (simp_all add: drt_value_def dynamic_range_def take_bit_minus_one_eq_mask mask_eq_exp_minus_1)

text \<open>No size of an object is taken for it, in a signed or in an unsigned type.\<close>

lemma eq_drt_size: "0 \<le> n \<Longrightarrow> n \<le> ptrdiff_max \<Longrightarrow> \<not> eq_drt (Signed 64) n \<and> \<not> eq_drt (Unsigned 64) n"
  using drt_value(1) [of 63] by (simp add: eq_drt_def drt_eq_def drt_value(2) dynamic_range_def ptrdiff_max_def)

section \<open>Members of index\<close>

definition idx_of_array :: "int list \<Rightarrow> idx" where
  "idx_of_array values = map (\<lambda>i. values ! i) [0..<length values]"

definition idx_of_values :: "int list \<Rightarrow> idx" where
  "idx_of_values ds = map (narrow_cast (Signed 64)) ds"

definition idx_plus :: "idx \<Rightarrow> idx" where
  "idx_plus elems = elems"

text \<open>\<^verbatim>\<open>operator[]\<close> of an index that is not const gives a reference: here with what is assigned to it.\<close>

definition idx_put :: "idx \<Rightarrow> nat \<Rightarrow> int \<Rightarrow> idx result" where
  "idx_put elems i v = bindE (fail_fast_assert (i < length elems)) (\<lambda>_. Inr (elems[i := v]))"

lemma idx_put_at: "idx_put is i v = Inr js \<Longrightarrow> idx_at js j = (if j = i then Inr v else idx_at is j)"
  by (auto simp: idx_put_def idx_at_def returned)

lemma idx_ctors: "list_all (in_type (Signed 64)) is \<Longrightarrow> idx_of_values is = idx_of_array is"
proof -
  assume "list_all (in_type (Signed 64)) is"
  then have "map (narrow_cast (Signed 64)) is = is"
    by (intro map_idI) (auto simp: list_all_iff signed_take_bit_int_eq_self_iff)
  then show ?thesis by (simp add: idx_of_values_def idx_of_array_def map_nth)
qed

section \<open>Members of basic_zstring_builder\<close>

definition zstring_builder_of_array :: "'a list \<Rightarrow> 'a zstring_builder result" where
  "zstring_builder_of_array arr = bindE (span_of_container arr) (\<lambda>sp. Inr \<lparr>sv = sp\<rparr>)"

definition builder_data :: "'a zstring_builder \<Rightarrow> 'a ptr" where
  "builder_data b = m_pdata (sv b)"

definition builder_view :: "'a zstring_builder \<Rightarrow> 'a span" where
  "builder_view b = sv b"

definition builder_length :: "'a zstring_builder \<Rightarrow> int" where
  "builder_length b = span_size (sv b)"

definition builder_assume0 :: "'a zstring_builder \<Rightarrow> 'a ptr" where
  "builder_assume0 b = builder_data b"

definition builder_begin :: "'a zstring_builder \<Rightarrow> 'a span_iterator" where
  "builder_begin b = span_begin (sv b)"

definition builder_end :: "'a zstring_builder \<Rightarrow> 'a span_iterator" where
  "builder_end b = span_end (sv b)"

text \<open>What a builder over an array gives back is the array.\<close>

lemma builder_of_array:
  "\<exists>b. zstring_builder_of_array arr = Inr b \<and> builder_length b = int (length arr) \<and> builder_assume0 b = Ptr arr 0
     \<and> view (builder_view b) = arr \<and> it_pdata (builder_end b) - it_pdata (builder_begin b) = int (length arr)"
proof -
  have "span_of_container arr = Inr \<lparr>m_pdata = Ptr arr 0, m_bounds = int (length arr)\<rparr>" by simp
  then show ?thesis
    using view_container [of arr]
    by (simp add: zstring_builder_of_array_def builder_length_def builder_assume0_def builder_data_def builder_view_def
        builder_begin_def builder_end_def span_begin_def span_end_def)
qed

section \<open>Swap\<close>

definition ci_swap :: "'a contiguous_iterator \<Rightarrow> 'a contiguous_iterator \<Rightarrow> 'a contiguous_iterator \<times> 'a contiguous_iterator" where
  "ci_swap it rhs =
     (it\<lparr>ci_address := ci_address rhs, ci_iterator := ci_iterator rhs\<rparr>,
      rhs\<lparr>ci_address := ci_address it, ci_iterator := ci_iterator it\<rparr>)"

lemma ci_swap_twice: "ci_swap (fst (ci_swap it rhs)) (snd (ci_swap it rhs)) = (it, rhs)"
  by (simp add: ci_swap_def)

section \<open>Properties\<close>

text \<open>
  C38. A span of a type with static dimensions besides a dynamic one, made of a container, is too
  large: an index inside its extents addresses memory behind the container.
\<close>

theorem container_span_too_large:
  assumes "template_ok ts" "DynamicNum ts = 1" "1 < static_part ts" "v \<noteq> []" "ms_of_container ts v = Inr sp"
  shows "\<exists>is. in_box (extents_of ts [int (length v)]) is \<and> bindE (ms_ref sp is) load = Inl Undefined"
proof -
  let ?ds = "extents_of ts [int (length v)]"
  note sp = container_size [OF assms(1,2,5)]
  have "int (length v) * 2 \<le> prod_list ?ds"
    unfolding sp(2) using assms(3) by (intro mult_left_mono) simp_all
  moreover have "0 < length v" using assms(4) by simp
  ultimately have k: "0 \<le> prod_list ?ds - 1" "prod_list ?ds - 1 < prod_list ?ds" "int (length v) \<le> prod_list ?ds - 1"
    by linarith+
  have "list_all (\<lambda>d. 0 \<le> d) ?ds" using ranges_rep_prod [OF sp(1)] by simp
  from row_major_unrank [OF this k(1,2)] have u: "in_box ?ds (unrank ?ds (prod_list ?ds - 1))"
    "row_major ?ds (unrank ?ds (prod_list ?ds - 1)) = prod_list ?ds - 1" by simp_all
  with k(3) show ?thesis
    using linearize_rep [OF sp(1) u(1)]
    by (intro exI [of _ "unrank ?ds (prod_list ?ds - 1)"])
       (simp add: ms_ref_def bounds_linearize_def sp(3) ptr_add_def load_def)
qed

theorem container_span_too_large_witness:
  "\<exists>sp is. ms_of_container [dynamic_range, 2] [1, 2, 3, 4 :: int] = Inr sp \<and> in_box [4, 2] is \<and>
     bindE (ms_ref sp is) load = Inl Undefined"
proof -
  obtain sp where sp: "ms_of_container [dynamic_range, 2] [1, 2, 3, 4 :: int] = Inr sp"
    by (auto simp: ms_of_container_def new_bounds_def new_bounds_dynamic_def bounds_of_def ms_of_def bounds_size_def
        dynamic_range_def ptrdiff_def ptrdiff_max_def)
  from container_span_too_large [OF _ _ _ _ sp] sp show ?thesis
    by (auto simp: template_ok_def static_part_def dynamic_range_def)
qed

end
