(* ===== verification/Spec2Isabelle.thy ===== *)
theory Spec2Isabelle
  imports Program Lifetimes SerialiserApi StridedViews SpanCtors
begin

text \<open>
  A verification of mqttcpp, an MQTT broker in C++.

  \<^bold>\<open>The program.\<close> A TCP server (\<^verbatim>\<open>src/src/boost/\<close>) accepts connections and reads bytes
  into the buffer of each (\<^verbatim>\<open>src/src/stream.hpp\<close>). The stream cuts messages off the buffer and
  hands each, as a span into the buffer, to the server (\<^verbatim>\<open>src/src/server.hpp\<close>). The server looks
  at the message with the message classes (\<^verbatim>\<open>src/src/message.hpp\<close>, \<^verbatim>\<open>message.cpp\<close>), which
  are written with the serialisation library (\<^verbatim>\<open>src/cereal/\<close>), and asks the broker
  (\<^verbatim>\<open>src/src/broker.hpp\<close>) to subscribe, unsubscribe or publish; publishing calls the connections
  of the subscribers. Bytes are passed around as spans of the Guidelines Support Library
  (\<^verbatim>\<open>src/gsl/\<close>).

  \<^bold>\<open>The theories.\<close>
  \<^item> \<open>Prelude\<close>: machine integers as words, the faults of a C++ operation and the type of its
    result, facts on lists, characters and words.
  \<^item> \<open>Span\<close>: assertions, pointers into array objects, the one-dimensional span with its iterator, and
    strings (\<^verbatim>\<open>fail_fast.h\<close>, \<^verbatim>\<open>span.h\<close>, \<^verbatim>\<open>string_span.h\<close>), as far as the program calls them.
  \<^item> \<open>Bounds\<close>, \<open>BoundsIterator\<close>, \<open>MultiSpan\<close>, \<open>SpanOps\<close>: the rest of that library: indices and bounds
    of any rank, the iterator over indices, spans of any rank, sections and strided spans,
    comparisons, bounded strings and \<^verbatim>\<open>gsl.h\<close>. \<open>SpanViews\<close> has the elements of a span seen as bytes and
    back, arrays as spans and reverse iterators, \<open>StridedViews\<close> the members and traversals of strided spans,
    \<open>GslExtras\<close> the conversions of bounds that the type system accepts, and \<^verbatim>\<open>final_act\<close>, \<open>SpanCtors\<close>
    spans of any rank over ranges and containers.
  \<^item> \<open>Cereal\<close>: the objects \<^verbatim>\<open>Cerealiser\<close> and \<^verbatim>\<open>Decerealiser\<close> with all their operations. \<open>Grain\<close>
    states what a serialiser of a type promises as the locale \<open>grainable\<close> and proves it for bytes,
    characters, integers, strings and vectors; \<open>Bits\<close> treats the bit fields, \<open>SerialiserApi\<close> the
    operators and named operations that a user of the library calls.
  \<^item> \<open>Message\<close>: the message classes. \<open>MessageFacts\<close> has the fixed header and the remaining length,
    \<open>Codec\<close> the encodings of whole messages.
  \<^item> \<open>Broker\<close>: the tree of topic levels, the cache and the operations. \<open>TopicTree\<close> relates the tree to
    the list of its entries (locale \<open>topic_tree\<close>), \<open>BrokerFacts\<close> the broker to a multiset of
    subscriptions (locale \<open>message_broker\<close>).
  \<^item> \<open>Server\<close>: \<^verbatim>\<open>MqttServer::newMessage\<close> and every case of it. \<open>ServerFacts\<close> has its effects on messages of
    any bytes, and its refinement of a specification on requests.
  \<^item> \<open>ByteStream\<close>: the buffer and its loop. \<open>StreamFacts\<close> relates reads to frames for any handler of
    messages (locale \<open>message_handler\<close>), and then for the server.
  \<^item> \<open>Parser\<close>: parsers on lists of bytes. The locale \<open>parsed\<close> says that an operation of the serialisation
    library reads what a parser finds, on any bytes; with it the specification of the server is extended to
    messages of any bytes (\<open>serve_any\<close>, \<open>run_any\<close>), its faults included.
  \<^item> \<open>Network\<close>: the connections, the manager and the asynchronous handlers as a step relation.
    \<open>NetworkFacts\<close> has its refinement of the specification and its faults.
    \<open>Lifetimes\<close> looks at the memory behind a span after the handler that made it.
  \<^item> \<open>Program\<close>: \<^verbatim>\<open>main\<close>, and a run from the stop signal to its end.

  \<^bold>\<open>How the model reads.\<close> A class is a record with the names of its members, an operation a
  function with the name of the method. An operation that can fail returns \<open>fault + result\<close>; the
  faults tell a failed assertion, an exception, undefined behaviour and a loop that does not end
  apart. An object behind a reference is passed in and returned. Calls on connections are
  returned as the list of actions in the order of the calls. A pointer is an array object and a position
  in it, so that a span of the buffer can be read beyond its end, and the model can see it.

  \<^bold>\<open>What the lemmas show.\<close> C1 is the composition of all parts: a run of the network with any
  number of connections, whose reads and writes are cut and interleaved in any way and carry any bytes, does
  what a specification on multisets does: it sends every connection the bytes that the specification sends it, and
  ends in a fault where the specification does. The only condition is that the topic of a PUBLISH lies inside
  its message; what happens when it does not is C28. C2 is C1 on well-formed requests, where there is no fault and
  the specification is the one of requests,
  and C3 says which messages lead to a fault.
  C4 is the step of C1, one message of any bytes in the buffer of the stream, and C5 that of C2;
  the lemma \<open>requests_from_bytes\<close> below is C2 for one connection without the network. C6, C9 to C12,
  C16 and C17 are about the server and the broker; C7, C8, C13, C25 and C27 about the network and the end
  of the program; C14, C15, C26 and C29 about the stream; C18 to C24 and C30 to C33 about messages and the
  serialisation library; C34 to C40 about spans. Those that state an error of the code are C25
  to C33 and C38; further ones are lemmas next to the properties (\<open>publish_of_four_bytes\<close>, \<open>publish_without_topic\<close>,
  \<open>truncated_subscribe\<close>, \<open>remaining_length_overflow\<close>, \<open>wildcard_topic_twice\<close>, \<open>full_byte_written_twice\<close>,
  \<open>wide_grain_undefined\<close>, \<open>no_bits_take_a_byte\<close>, \<open>whole_word_undefined\<close>, \<open>large_index_overflows\<close>, \<open>maybeResizeVector_writes\<close>, \<open>negative_index_accepted\<close>, \<open>zero_extent_divides\<close>,
  \<open>empty_bounds_iterated\<close>, \<open>section_crosses_rows\<close>, \<open>ensure_z_array_result\<close>, \<open>narrow_changes_sign\<close>).

  \<^bold>\<open>Bounds and loops.\<close> Every function is total but the two traversals of strided spans, which are
  partial because their end depends on the iterator; C39 shows that they return where no extent
  is empty. The loop of \<^verbatim>\<open>grainRawArray\<close> has the number of bytes left as fuel, which is
  enough because every element reads at least one byte (\<open>raw_terminates\<close>); C16 shows that no message
  makes the server run forever or throw an exception. A remaining length below \<^verbatim>\<open>2^28\<close> has at most four
  digits. The stream believes one byte of the length, so what it keeps between reads is less
  than 257 bytes, and a buffer of at least 257 bytes always has room for a read (C15); the program
  makes it 128 KiB.

  \<^bold>\<open>Parameters.\<close> \<^verbatim>\<open>boost::split\<close> is not in the repository: it is the argument \<open>split\<close> of
  the broker, about which nothing is assumed in general; the properties on the wildcards of the
  protocol speak of the parts that it returns, and the examples use \<open>split_slash\<close>, which cuts at every
  slash. \<open>mem\<close> is what the memory of \<^verbatim>\<open>MqttUnsubscribe::msgId\<close> holds before it is read. Boost.Asio is
  the predicate \<open>enabled\<close>: which handler may be called next. The writes of a connection are taken to
  be sent in the order of their calls, which Asio promises only when they do not overlap. A type seen
  as bytes is an argument \<open>enc\<close> with its inverse \<open>dec\<close>. An \<^verbatim>\<open>unordered_map\<close> is an association
  list; a \<^verbatim>\<open>ptrdiff_t\<close> is an integer, with a check for overflow where bounds are computed; the machine is
  little-endian where the code looks at the bytes of an object.

  \<^bold>\<open>Not modelled.\<close> The text written to \<^verbatim>\<open>cout\<close> and \<^verbatim>\<open>cerr\<close>, the sockets and signals themselves, and
  when the memory of a buffer given to \<^verbatim>\<open>async_write\<close> is read: a span holds the bytes it had when it
  was made, so C1 says what is sent by a write that is done at once, and C26 what is there later. A write that is over
  counts as sent, also where it failed, because the program does not look at its error. In the
  serialisation library the constructor of \<^verbatim>\<open>Decerealiser\<close> from a span, which can not be called. In the support library \<^verbatim>\<open>hash\<close> and the comparison of \<^verbatim>\<open>not_null\<close>, and
  members that do not compile when they are used: \<^verbatim>\<open>!=\<close> and unary minus of \<^verbatim>\<open>index\<close>, the comparisons of strided spans,
  \<^verbatim>\<open>swap\<close> of the bounds iterator, whose \<^verbatim>\<open>boundary\<close> is constant, and of the general iterator, which holds one,
  \<^verbatim>\<open>extent<Dim>\<close> above the first dimension, the sized constructor from a static array,
  \<^verbatim>\<open>static_bounds::operator[]\<close>. Tests, feature files and build files.
\<close>

section \<open>From the bytes of a connection to the specification\<close>

text \<open>
  The bytes of well-formed requests of one connection, cut into reads in any way that fits
  the buffer, make the server react as the specification says: the calls of all reads together
  are the calls of the specification, the subscriptions at the end are its subscriptions, no
  byte is left over and no fault occurs.
\<close>

lemma requests_from_bytes:
  assumes "server_ok split s" "list_all framed rs" "concat chunks = concat (map wire rs)"
    and "stream_ok st" "pending st = []" "fits (length (st_buffer st)) [] chunks"
  shows "\<exists>st' s' acts. receive_all (newMessage split mem c) chunks st s = Inr (st', s', acts) \<and>
    pending st' = [] \<and>
    fst (run_spec split (map (Pair c) rs) (subscriptions (srv_broker s))) = subscriptions (srv_broker s') \<and>
    sum_list (snd (run_spec split (map (Pair c) rs) (subscriptions (srv_broker s)))) = mset (map seen acts)"
  using assms by (rule bytes_to_requests)

lemma requests_from_bytes_witness:
  "\<exists>st' s' acts. receive_all (newMessage split_slash 0 (5 :: nat)) [[0xc0], [0, 0xe0, 0]] a_stream (new_server True)
      = Inr (st', s', acts) \<and> pending st' = [] \<and> mset (map seen acts) = {#(5, None), (5, Some [0xd0, 0])#}"
proof -
  have "frames [0xc0] = ([], [0xc0])" by (simp add: frames.simps frame_length_def)
  moreover have "list_all framed [Pingreq, Disc]" by (simp add: framed_def frame_length_def)
  ultimately show ?thesis
    using requests_from_bytes [OF server_ok_new, of "[Pingreq, Disc]" "[[0xc0], [0, 0xe0, 0]]" a_stream split_slash 0 "5 :: nat" True]
    by (auto simp: a_stream_ok new_server_def subscriptions_new)
qed

end
